(* ===== verification/Prelude.thy ===== *)
theory Prelude
  imports Main "HOL-Library.Word" "HOL-Library.Monad_Syntax"
begin

unbundle bit_operations_syntax

section \<open>Prelude: machine types, panics, byte order, Go slices and maps\<close>

text \<open>
  What the component theories share. Go's fixed-width unsigned integers are words, so that
  addition and subtraction wrap as they do in Go. A Go panic (index out of range, division by
  zero, nil dereference, explicit \<open>panic\<close>) is the value \<^const>\<open>None\<close> of an option, composed with
  \<open>do\<close>-notation. Byte slices and strings are lists; \<open>encoding/binary\<close>'s big-endian accessors are
  \<open>PutUint16\<close>, \<open>PutUint32\<close>, \<open>Uint16\<close> and \<open>Uint32\<close>. A Go map with values of type \<open>bool\<close>, read
  without the \<open>ok\<close> flag, is \<open>go_get\<close>: a missing key reads as \<^const>\<open>False\<close>.
\<close>

type_synonym byte = "8 word"
type_synonym u8 = "8 word"
type_synonym u16 = "16 word"
type_synonym u32 = "32 word"
type_synonym u64 = "64 word"

named_theorems panic_simps "equations that show a guarded Go operation does not panic"
named_theorems be_simps "big-endian encoding and decoding"

subsection \<open>Slices\<close>

text \<open>The slice expression \<open>b[n:]\<close> panics when \<open>n\<close> exceeds the length.\<close>

definition slice_from :: "nat \<Rightarrow> 'a list \<Rightarrow> 'a list option" where
  "slice_from n b = (if n \<le> length b then Some (drop n b) else None)"

lemma slice_from_Some [panic_simps]: "n \<le> length b \<Longrightarrow> slice_from n b = Some (drop n b)"
  by (simp add: slice_from_def)

text \<open>The index expression \<open>b[n]\<close>.\<close>

definition index_at :: "'a list \<Rightarrow> nat \<Rightarrow> 'a option" where
  "index_at b n = (if n < length b then Some (b ! n) else None)"

lemma index_at_Some [panic_simps]: "n < length b \<Longrightarrow> index_at b n = Some (b ! n)"
  by (simp add: index_at_def)

text \<open>Writing a run of bytes at an offset of an existing buffer (\<open>PutUint32(b[off:], v)\<close>,
  \<open>b[off] = v\<close>): the bytes before and after are kept, a write past the end panics.\<close>

definition put_at :: "nat \<Rightarrow> 'a list \<Rightarrow> 'a list \<Rightarrow> 'a list option" where
  "put_at off bs b =
     (if off + length bs \<le> length b
      then Some (take off b @ bs @ drop (off + length bs) b) else None)"

text \<open>\<open>copy(b[off:], src)\<close> copies as much as fits; the slice expression itself may panic.\<close>

definition copy_at :: "nat \<Rightarrow> 'a list \<Rightarrow> 'a list \<Rightarrow> 'a list option" where
  "copy_at off src b =
     (if off \<le> length b
      then Some (take off b @ take (length b - off) src @ drop (off + length src) b) else None)"

lemma put_at_append [panic_simps]:
  assumes "length pre = off" and "length old = length bs"
  shows "put_at off bs (pre @ old @ post) = Some (pre @ bs @ post)"
  using assms by (simp add: put_at_def)

lemma put_at_length: "put_at off bs b = Some b' \<Longrightarrow> length b' = length b"
  by (auto simp: put_at_def split: if_splits)

lemma copy_at_append [panic_simps]:
  assumes "length pre = off" and "length old = length src"
  shows "copy_at off src (pre @ old) = Some (pre @ src)"
  using assms by (simp add: copy_at_def)

text \<open>Writes at consecutive offsets.\<close>

fun put_seq :: "nat \<Rightarrow> 'a list list \<Rightarrow> 'a list \<Rightarrow> 'a list option" where
  "put_seq off [] = Some"
| "put_seq off (c # cs) = (\<lambda>b. do { b \<leftarrow> put_at off c b; put_seq (off + length c) cs b })"

lemma put_seq_append:
  "length pre = off \<Longrightarrow> length old = length (concat cs) \<Longrightarrow>
   put_seq off cs (pre @ old) = Some (pre @ concat cs)"
proof (induction cs arbitrary: off pre old)
  case (Cons c cs)
  have "put_at off c (pre @ take (length c) old @ drop (length c) old)
      = Some (pre @ c @ drop (length c) old)"
    using Cons.prems by (intro put_at_append) simp_all
  moreover have "put_seq (off + length c) cs ((pre @ c) @ drop (length c) old)
      = Some ((pre @ c) @ concat cs)"
    using Cons.prems by (intro Cons.IH) simp_all
  ultimately show ?case by simp
qed simp

lemma put_seq_concat: "length b = length (concat cs) \<Longrightarrow> put_seq 0 cs b = Some (concat cs)"
  using put_seq_append [of "[]" 0 b cs] by simp

lemma put_at_length_bind:
  "do { b \<leftarrow> put_at off c b; f b } = do { b \<leftarrow> put_at off c b; g b }"
  if "\<And>b'. length b' = length b \<Longrightarrow> f b' = g b'"
  using that by (cases "put_at off c b") (auto dest: put_at_length)

lemma copy_at_put_at: "length b = off + length p \<Longrightarrow> copy_at off p b = put_at off p b"
  by (simp add: copy_at_def put_at_def)

subsection \<open>Big-endian integers (\<open>encoding/binary\<close>)\<close>

definition be16 :: "u16 \<Rightarrow> byte list" where
  "be16 v = [ucast (drop_bit 8 v), ucast v]"

definition be32 :: "u32 \<Rightarrow> byte list" where
  "be32 v = [ucast (drop_bit 24 v), ucast (drop_bit 16 v), ucast (drop_bit 8 v), ucast v]"

definition PutUint16 :: "nat \<Rightarrow> u16 \<Rightarrow> byte list \<Rightarrow> byte list option" where
  "PutUint16 off v b = put_at off (be16 v) b"

definition PutUint32 :: "nat \<Rightarrow> u32 \<Rightarrow> byte list \<Rightarrow> byte list option" where
  "PutUint32 off v b = put_at off (be32 v) b"

fun Uint16 :: "byte list \<Rightarrow> u16 option" where
  "Uint16 (b0 # b1 # _) = Some (push_bit 8 (ucast b0) OR ucast b1)"
| "Uint16 _ = None"

fun Uint32 :: "byte list \<Rightarrow> u32 option" where
  "Uint32 (b0 # b1 # b2 # b3 # _) =
     Some (push_bit 24 (ucast b0) OR push_bit 16 (ucast b1) OR push_bit 8 (ucast b2) OR ucast b3)"
| "Uint32 _ = None"

lemma length_be16 [simp]: "length (be16 v) = 2"
  by (simp add: be16_def)

lemma length_be32 [simp]: "length (be32 v) = 4"
  by (simp add: be32_def)

lemma join16:
  "push_bit 8 (ucast (ucast (drop_bit 8 v) :: byte)) OR ucast (ucast v :: byte) = (v :: u16)"
  by (rule bit_word_eqI) (auto simp: bit_simps)

lemma join32:
  "push_bit 24 (ucast (ucast (drop_bit 24 v) :: byte)) OR
   push_bit 16 (ucast (ucast (drop_bit 16 v) :: byte)) OR
   push_bit 8 (ucast (ucast (drop_bit 8 v) :: byte)) OR ucast (ucast v :: byte) = (v :: u32)"
proof (rule bit_word_eqI)
  fix n :: nat
  assume "n < LENGTH(32)"
  then consider "n < 8" | "8 \<le> n" "n < 16" | "16 \<le> n" "n < 24" | "24 \<le> n" "n < 32"
    by fastforce
  then show "bit ((push_bit 24 (ucast (ucast (drop_bit 24 v) :: byte)) :: u32) OR
      push_bit 16 (ucast (ucast (drop_bit 16 v) :: byte)) OR
      push_bit 8 (ucast (ucast (drop_bit 8 v) :: byte)) OR ucast (ucast v :: byte)) n = bit v n"
    by cases (auto simp: bit_simps)
qed

lemma Uint16_be16 [be_simps]: "Uint16 (be16 v @ r) = Some v"
  by (simp add: be16_def join16)

lemma Uint32_be32 [be_simps]: "Uint32 (be32 v @ r) = Some v"
  by (simp add: be32_def join32)

lemma Uint16_total: "2 \<le> length b \<Longrightarrow> \<exists>v. Uint16 b = Some v"
  by (cases b rule: Uint16.cases) auto

lemma Uint32_total: "4 \<le> length b \<Longrightarrow> \<exists>v. Uint32 b = Some v"
  by (cases b rule: Uint32.cases) auto

lemma be16_Uint16: "Uint16 b = Some v \<Longrightarrow> take 2 b = be16 v"
proof (cases b rule: Uint16.cases)
  case (1 b0 b1 r)
  assume "Uint16 b = Some v"
  with 1 have v: "v = push_bit 8 (ucast b0) OR ucast b1" by simp
  have "ucast (drop_bit 8 v) = b0" and "ucast v = b1"
    unfolding v by (rule bit_word_eqI, auto simp: bit_simps dest: bit_imp_le_length)+
  with 1 show ?thesis by (simp add: be16_def)
qed auto

lemma be32_Uint32: "Uint32 b = Some v \<Longrightarrow> take 4 b = be32 v"
proof (cases b rule: Uint32.cases)
  case (1 b0 b1 b2 b3 r)
  assume "Uint32 b = Some v"
  with 1 have v: "v = push_bit 24 (ucast b0) OR push_bit 16 (ucast b1) OR push_bit 8 (ucast b2)
      OR ucast b3" by simp
  have "ucast (drop_bit 24 v) = b0" and "ucast (drop_bit 16 v) = b1"
    and "ucast (drop_bit 8 v) = b2" and "ucast v = b3"
    unfolding v by (rule bit_word_eqI, auto simp: bit_simps dest: bit_imp_le_length)+
  with 1 show ?thesis by (simp add: be32_def eval_nat_numeral)
qed auto

lemma slice_from_be [be_simps]:
  "slice_from 2 (be16 v @ r) = Some r" "slice_from 4 (be32 w @ r) = Some r"
  by (simp_all add: slice_from_def)

text \<open>Total readings, for the branches in which the source has checked the length.\<close>

definition rd16 :: "byte list \<Rightarrow> u16" where "rd16 b = the (Uint16 b)"

definition rd32 :: "byte list \<Rightarrow> u32" where "rd32 b = the (Uint32 b)"

lemma Uint16_rd16 [panic_simps]: "2 \<le> length b \<Longrightarrow> Uint16 b = Some (rd16 b)"
  using Uint16_total [of b] by (auto simp: rd16_def)

lemma Uint32_rd32 [panic_simps]: "4 \<le> length b \<Longrightarrow> Uint32 b = Some (rd32 b)"
  using Uint32_total [of b] by (auto simp: rd32_def)

lemma be16_rd16: "2 \<le> length b \<Longrightarrow> be16 (rd16 b) @ drop 2 b = b"
  using be16_Uint16 [OF Uint16_rd16, of b] append_take_drop_id [of 2 b] by simp

lemma be32_rd32: "4 \<le> length b \<Longrightarrow> be32 (rd32 b) @ drop 4 b = b"
  using be32_Uint32 [OF Uint32_rd32, of b] append_take_drop_id [of 4 b] by simp

subsection \<open>Division\<close>

text \<open>Unsigned division panics on a zero divisor.\<close>

definition udiv :: "'a::len word \<Rightarrow> 'a word \<Rightarrow> 'a word option" where
  "udiv a b = (if b = 0 then None else Some (a div b))"

lemma udiv_Some [panic_simps]: "b \<noteq> 0 \<Longrightarrow> udiv a b = Some (a div b)"
  by (simp add: udiv_def)

lemma udiv_None [simp]: "udiv a b = None \<longleftrightarrow> b = 0"
  by (simp add: udiv_def)

text \<open>32-bit arithmetic without wrap-around.\<close>

lemma unat_add_small: "unat (a :: u32) + unat b < 2 ^ 32 \<Longrightarrow> unat (a + b) = unat a + unat b"
  by (simp add: unat_word_ariths)

lemma unat_mult_small: "unat (a :: u32) * unat b < 2 ^ 32 \<Longrightarrow> unat (a * b) = unat a * unat b"
  by (simp add: unat_word_ariths)

lemma unat_diff_small: "b \<le> a \<Longrightarrow> unat (a - b :: u32) = unat a - unat b"
  by (rule unat_sub)

subsection \<open>Maps from keys to \<open>bool\<close>\<close>

definition go_get :: "('k \<rightharpoonup> bool) \<Rightarrow> 'k \<Rightarrow> bool" where
  "go_get m k = (case m k of None \<Rightarrow> False | Some v \<Rightarrow> v)"

text \<open>The loop \<open>for _, k := range ks { m[k] = true }\<close>.\<close>

fun set_all :: "('k \<rightharpoonup> bool) \<Rightarrow> 'k list \<Rightarrow> ('k \<rightharpoonup> bool)" where
  "set_all m [] = m"
| "set_all m (k # ks) = set_all (m(k \<mapsto> True)) ks"

lemma set_all_apply: "set_all m ks k = (if k \<in> set ks then Some True else m k)"
  by (induction ks arbitrary: m) auto

lemma go_get_set_all [simp]: "go_get (set_all m ks) k \<longleftrightarrow> k \<in> set ks \<or> go_get m k"
  by (auto simp: go_get_def set_all_apply)

lemma go_get_empty [simp]: "\<not> go_get Map.empty k"
  by (simp add: go_get_def)

end
