(* ===== verification/GoList.thy ===== *)
theory GoList
  imports Prelude
begin

section \<open>Doubly linked lists (\<open>common/list/list.go\<close>)\<close>

text \<open>
  The generic linked list of the repository, over an explicit heap. Elements and the root elements of
  lists are nodes; every field of \<open>Element\<close> and \<open>List\<close> is a function of the heap, a nil pointer is
  \<open>None\<close>, and following one panics (\<open>None\<close>). The lemmas show that every operation implements the
  operation on HOL lists, so that users of the package can be modelled with lists.
\<close>

datatype node = Root nat | Elem nat

record 'a heap =
  e_next :: "node \<Rightarrow> node option"
  e_prev :: "node \<Rightarrow> node option"
  e_list :: "node \<Rightarrow> nat option"
  e_Value :: "node \<Rightarrow> 'a option"
  l_len :: "nat \<Rightarrow> int"
  fresh :: nat

text \<open>The heap before any allocation; lists are zero values until their first insertion.\<close>

definition empty_heap :: "'a heap" where
  "empty_heap = \<lparr>e_next = \<lambda>_. None, e_prev = \<lambda>_. None, e_list = \<lambda>_. None, e_Value = \<lambda>_. None,
     l_len = \<lambda>_. 0, fresh = 0\<rparr>"

definition elem_Next :: "node \<Rightarrow> 'a heap \<Rightarrow> node option" where
  "elem_Next e h = (case e_list h e of None \<Rightarrow> None
     | Some l \<Rightarrow> if e_next h e \<noteq> Some (Root l) then e_next h e else None)"

definition elem_Prev :: "node \<Rightarrow> 'a heap \<Rightarrow> node option" where
  "elem_Prev e h = (case e_list h e of None \<Rightarrow> None
     | Some l \<Rightarrow> if e_prev h e \<noteq> Some (Root l) then e_prev h e else None)"

definition list_Init :: "nat \<Rightarrow> 'a heap \<Rightarrow> 'a heap" where
  "list_Init l h = h\<lparr>e_next := (e_next h)(Root l \<mapsto> Root l), e_prev := (e_prev h)(Root l \<mapsto> Root l),
     l_len := (l_len h)(l := 0)\<rparr>"

definition list_Len :: "nat \<Rightarrow> 'a heap \<Rightarrow> int" where
  "list_Len l h = l_len h l"

definition list_Front :: "nat \<Rightarrow> 'a heap \<Rightarrow> node option" where
  "list_Front l h = (if l_len h l = 0 then None else e_next h (Root l))"

definition list_Back :: "nat \<Rightarrow> 'a heap \<Rightarrow> node option" where
  "list_Back l h = (if l_len h l = 0 then None else e_prev h (Root l))"

definition lazyInit :: "nat \<Rightarrow> 'a heap \<Rightarrow> 'a heap" where
  "lazyInit l h = (if e_next h (Root l) = None then list_Init l h else h)"

text \<open>Linking \<open>e\<close> in after \<open>at\<close>, and unlinking it: the four and two assignments that \<open>insert\<close>, \<open>remove\<close>
  and \<open>move\<close> share.\<close>

definition link :: "node \<Rightarrow> node \<Rightarrow> 'a heap \<Rightarrow> 'a heap option" where
  "link e at h = do {
     let h = h\<lparr>e_prev := (e_prev h)(e \<mapsto> at)\<rparr>;
     let h = h\<lparr>e_next := (e_next h)(e := e_next h at)\<rparr>;
     p \<leftarrow> e_prev h e;
     let h = h\<lparr>e_next := (e_next h)(p \<mapsto> e)\<rparr>;
     n \<leftarrow> e_next h e;
     Some (h\<lparr>e_prev := (e_prev h)(n \<mapsto> e)\<rparr>) }"

definition unlink :: "node \<Rightarrow> 'a heap \<Rightarrow> 'a heap option" where
  "unlink e h = do {
     p \<leftarrow> e_prev h e;
     let h = h\<lparr>e_next := (e_next h)(p := e_next h e)\<rparr>;
     n \<leftarrow> e_next h e;
     Some (h\<lparr>e_prev := (e_prev h)(n := e_prev h e)\<rparr>) }"

definition list_insert :: "nat \<Rightarrow> node \<Rightarrow> node \<Rightarrow> 'a heap \<Rightarrow> (node \<times> 'a heap) option" where
  "list_insert l e at h = do {
     h \<leftarrow> link e at h;
     Some (e, h\<lparr>e_list := (e_list h)(e \<mapsto> l), l_len := (l_len h)(l := l_len h l + 1)\<rparr>) }"

definition insertValue :: "nat \<Rightarrow> 'a \<Rightarrow> node \<Rightarrow> 'a heap \<Rightarrow> (node \<times> 'a heap) option" where
  "insertValue l v at h =
     (let e = Elem (fresh h);
          h = h\<lparr>e_Value := (e_Value h)(e \<mapsto> v), fresh := fresh h + 1\<rparr>
      in list_insert l e at h)"

definition list_remove :: "nat \<Rightarrow> node \<Rightarrow> 'a heap \<Rightarrow> 'a heap option" where
  "list_remove l e h = do {
     h \<leftarrow> unlink e h;
     Some (h\<lparr>e_next := (e_next h)(e := None), e_prev := (e_prev h)(e := None),
       e_list := (e_list h)(e := None), l_len := (l_len h)(l := l_len h l - 1)\<rparr>) }"

definition elem_Remove :: "node \<Rightarrow> 'a heap \<Rightarrow> (bool \<times> 'a heap) option" where
  "elem_Remove e h = (case e_list h e of None \<Rightarrow> Some (False, h)
     | Some l \<Rightarrow> do { h \<leftarrow> list_remove l e h; Some (True, h) })"

definition list_Remove :: "nat \<Rightarrow> node \<Rightarrow> 'a heap \<Rightarrow> ('a option \<times> 'a heap) option" where
  "list_Remove l e h = do {
     h \<leftarrow> (if e_list h e = Some l then list_remove l e h else Some h);
     Some (e_Value h e, h) }"

definition PushFront :: "nat \<Rightarrow> 'a \<Rightarrow> 'a heap \<Rightarrow> (node \<times> 'a heap) option" where
  "PushFront l v h = (let h = lazyInit l h in insertValue l v (Root l) h)"

definition PushBack :: "nat \<Rightarrow> 'a \<Rightarrow> 'a heap \<Rightarrow> (node \<times> 'a heap) option" where
  "PushBack l v h = (let h = lazyInit l h in do { at \<leftarrow> e_prev h (Root l); insertValue l v at h })"

definition InsertBefore :: "nat \<Rightarrow> 'a \<Rightarrow> node \<Rightarrow> 'a heap \<Rightarrow> (node option \<times> 'a heap) option" where
  "InsertBefore l v mark h =
     (if e_list h mark \<noteq> Some l then Some (None, h)
      else do { at \<leftarrow> e_prev h mark; (e, h) \<leftarrow> insertValue l v at h; Some (Some e, h) })"

definition InsertAfter :: "nat \<Rightarrow> 'a \<Rightarrow> node \<Rightarrow> 'a heap \<Rightarrow> (node option \<times> 'a heap) option" where
  "InsertAfter l v mark h =
     (if e_list h mark \<noteq> Some l then Some (None, h)
      else do { (e, h) \<leftarrow> insertValue l v mark h; Some (Some e, h) })"

definition move :: "node \<Rightarrow> node \<Rightarrow> 'a heap \<Rightarrow> 'a heap option" where
  "move e at h = (if e = at then Some h else do { h \<leftarrow> unlink e h; link e at h })"

definition MoveToFront :: "nat \<Rightarrow> node \<Rightarrow> 'a heap \<Rightarrow> 'a heap option" where
  "MoveToFront l e h =
     (if e_list h e \<noteq> Some l \<or> e_next h (Root l) = Some e then Some h else move e (Root l) h)"

definition MoveToBack :: "nat \<Rightarrow> node \<Rightarrow> 'a heap \<Rightarrow> 'a heap option" where
  "MoveToBack l e h =
     (if e_list h e \<noteq> Some l \<or> e_prev h (Root l) = Some e then Some h
      else do { at \<leftarrow> e_prev h (Root l); move e at h })"

definition MoveBefore :: "nat \<Rightarrow> node \<Rightarrow> node \<Rightarrow> 'a heap \<Rightarrow> 'a heap option" where
  "MoveBefore l e mark h =
     (if e_list h e \<noteq> Some l \<or> e = mark \<or> e_list h mark \<noteq> Some l then Some h
      else do { at \<leftarrow> e_prev h mark; move e at h })"

definition MoveAfter :: "nat \<Rightarrow> node \<Rightarrow> node \<Rightarrow> 'a heap \<Rightarrow> 'a heap option" where
  "MoveAfter l e mark h =
     (if e_list h e \<noteq> Some l \<or> e = mark \<or> e_list h mark \<noteq> Some l then Some h else move e mark h)"

subsection \<open>Chains of nodes\<close>

fun chain :: "'a heap \<Rightarrow> node \<Rightarrow> node list \<Rightarrow> node \<Rightarrow> bool" where
  "chain h p [] q \<longleftrightarrow> e_next h p = Some q \<and> e_prev h q = Some p"
| "chain h p (e # es) q \<longleftrightarrow> e_next h p = Some e \<and> e_prev h e = Some p \<and> chain h e es q"

lemma chain_append: "chain h p (xs @ e # ys) q \<longleftrightarrow> chain h p xs e \<and> chain h e ys q"
  by (induction xs arbitrary: p) auto

lemma chain_frame:
  assumes "\<forall>x\<in>set (p # es). e_next h' x = e_next h x" "\<forall>x\<in>set (es @ [q]). e_prev h' x = e_prev h x"
  shows "chain h' p es q = chain h p es q"
  using assms by (induction es arbitrary: p) auto

lemma chain_next: "chain h p es q \<Longrightarrow> e_next h p = Some (hd (es @ [q])) \<and> e_prev h (hd (es @ [q])) = Some p"
  by (cases es) auto

lemma chain_last: "chain h p es q \<Longrightarrow> e_prev h q = Some (last (p # es)) \<and> e_next h (last (p # es)) = Some q"
proof (induction es arbitrary: p)
  case (Cons e es)
  then show ?case by (cases es) auto
qed simp

text \<open>The heap after linking \<open>e\<close> in between \<open>p\<close> and \<open>b\<close>, and after unlinking a node between them.\<close>

definition linked :: "node \<Rightarrow> node \<Rightarrow> node \<Rightarrow> 'a heap \<Rightarrow> 'a heap" where
  "linked p e b h = h\<lparr>e_next := (e_next h)(e \<mapsto> b, p \<mapsto> e), e_prev := (e_prev h)(e \<mapsto> p, b \<mapsto> e)\<rparr>"

definition unlinked :: "node \<Rightarrow> node \<Rightarrow> 'a heap \<Rightarrow> 'a heap" where
  "unlinked p b h = h\<lparr>e_next := (e_next h)(p \<mapsto> b), e_prev := (e_prev h)(b \<mapsto> p)\<rparr>"

lemma link_eq: "\<lbrakk>e_next h p = Some b; e \<noteq> p\<rbrakk> \<Longrightarrow> link e p h = Some (linked p e b h)"
  by (simp add: link_def linked_def Let_def)

lemma unlink_eq: "\<lbrakk>e_prev h e = Some p; e_next h e = Some b; e \<noteq> p\<rbrakk> \<Longrightarrow> unlink e h = Some (unlinked p b h)"
  by (simp add: unlink_def unlinked_def Let_def)

lemma chain_linked_first:
  assumes "chain h p ys q" "distinct (p # e # ys)" "q \<notin> set (e # ys)" and b: "b = hd (ys @ [q])"
  shows "chain (linked p e b h) p (e # ys) q"
proof (cases ys)
  case Nil
  then show ?thesis using assms(2,3) b by (auto simp: linked_def)
next
  case (Cons y ys')
  have "chain (linked p e b h) y ys' q = chain h y ys' q"
    using assms(2,3) b Cons by (intro chain_frame) (auto simp: linked_def)
  then show ?thesis using assms b Cons by (auto simp: linked_def)
qed

text \<open>The nodes of a ring through \<open>p\<close>: \<open>es\<close> are distinct and \<open>p\<close> is not among them.\<close>

lemma chain_linked:
  assumes c: "chain h p (xs @ ys) p" and d: "distinct (p # e # xs @ ys)"
    and a: "a = last (p # xs)" and b: "b = hd (ys @ [p])"
  shows "e_next h a = Some b \<and> chain (linked a e b h) p (xs @ e # ys) p"
proof (cases xs rule: rev_cases)
    case Nil
    then show ?thesis
      using c d a b chain_next [of h p ys p] chain_linked_first [of h p ys p e b] by auto
  next
    case (snoc xs' x)
    then have c1: "chain h p xs' a" and c2: "chain h a ys p" and x: "a = x"
      using c a by (auto simp: chain_append)
    have "chain (linked a e b h) p xs' a = chain h p xs' a"
      using d a b snoc by (intro chain_frame) (cases ys; auto simp: linked_def)+
    moreover have "chain (linked a e b h) a (e # ys) p"
      using c2 d b snoc x by (intro chain_linked_first) auto
    ultimately show ?thesis
      using c1 chain_next [OF c2] b snoc x by (auto simp: chain_append)
qed

lemma chain_unlinked:
  assumes c: "chain h p (xs @ e # ys) p" and d: "distinct (p # xs @ e # ys)"
    and a: "a = last (p # xs)" and b: "b = hd (ys @ [p])"
  shows "e_prev h e = Some a" "e_next h e = Some b" "chain (unlinked a b h) p (xs @ ys) p"
proof -
  have c1: "chain h p xs e" and c2: "chain h e ys p" using c by (auto simp: chain_append)
  show "e_prev h e = Some a" "e_next h e = Some b" using chain_last [OF c1] chain_next [OF c2] a b by auto
  have one: "chain (unlinked r b h) r ys p" if "chain h e ys p" "r \<notin> set ys" "distinct ys" "p \<notin> set ys" for r
  proof (cases ys)
    case Nil
    then show ?thesis using b by (simp add: unlinked_def)
  next
    case (Cons y ys')
    have "chain (unlinked r b h) y ys' p = chain h y ys' p"
      using that b Cons by (intro chain_frame) (auto simp: unlinked_def)
    then show ?thesis using that b Cons by (auto simp: unlinked_def)
  qed
  show "chain (unlinked a b h) p (xs @ ys) p"
  proof (cases xs rule: rev_cases)
    case Nil
    then show ?thesis using one [OF c2] a d by auto
  next
    case (snoc xs' x)
    then have c3: "chain h p xs' a" and x: "a = x" using c1 a by (auto simp: chain_append)
    have "chain (unlinked a b h) p xs' a = chain h p xs' a"
      using d b snoc x by (intro chain_frame) (cases ys; auto simp: unlinked_def)+
    then show ?thesis using one [OF c2, of a] c3 d snoc x by (simp add: chain_append)
  qed
qed

lemma ring_ends: "last (p # xs) \<in> insert p (set xs)" "hd (ys @ [p]) \<in> insert p (set ys)"
  using last_in_set [of "p # xs"] hd_in_set [of "ys @ [p]"] by auto

subsection \<open>Lists in the heap\<close>

text \<open>
  The list \<open>l\<close> has exactly the elements \<open>es\<close>, in this order: they are the nodes whose \<open>list\<close> field
  names it, and they form a ring with its root, unless the list is a zero value.
\<close>

definition list_rep :: "'a heap \<Rightarrow> nat \<Rightarrow> node list \<Rightarrow> bool" where
  "list_rep h l es \<longleftrightarrow> distinct es \<and> (\<forall>x. e_list h x = Some l \<longleftrightarrow> x \<in> set es) \<and>
     (\<forall>x\<in>set es. \<exists>i<fresh h. x = Elem i) \<and> l_len h l = int (length es) \<and>
     (chain h (Root l) es (Root l) \<or> es = [] \<and> e_next h (Root l) = None)"

definition heap_rep :: "'a heap \<Rightarrow> (nat \<Rightarrow> node list) \<Rightarrow> bool" where
  "heap_rep h f \<longleftrightarrow> (\<forall>l. list_rep h l (f l))"

lemma list_repD:
  assumes "list_rep h l es"
  shows "distinct (Root l # es)" "Root k \<notin> set es" "Elem (fresh h) \<notin> set es"
    "e \<in> set es \<Longrightarrow> chain h (Root l) es (Root l)" "e_list h x = Some l \<longleftrightarrow> x \<in> set es"
    "l_len h l = int (length es)"
  using assms by (auto simp: list_rep_def)

lemma heap_repD: "heap_rep h f \<Longrightarrow> list_rep h l (f l)"
  by (simp add: heap_rep_def)

lemma heap_rep_disjoint: "\<lbrakk>heap_rep h f; x \<in> set (f l); x \<in> set (f k)\<rbrakk> \<Longrightarrow> l = k"
  by (metis heap_rep_def list_repD(5) option.inject)

lemma heap_rep_not_fresh: "heap_rep h f \<Longrightarrow> e_list h (Elem (fresh h)) = None"
  by (metis heap_rep_def list_repD(3,5) not_None_eq)

text \<open>A change of one ring leaves the other lists as they are.\<close>

lemma heap_rep_update:
  assumes h: "heap_rep h f" and l: "list_rep h' l es"
    and nxt: "\<And>x. x \<notin> insert (Root l) (insert e (set (f l))) \<Longrightarrow> e_next h' x = e_next h x \<and> e_prev h' x = e_prev h x"
    and e: "\<And>k. k \<noteq> l \<Longrightarrow> e \<notin> insert (Root k) (set (f k))"
    and lst: "\<And>k x. k \<noteq> l \<Longrightarrow> e_list h' x = Some k \<longleftrightarrow> e_list h x = Some k"
    and len: "\<And>k. k \<noteq> l \<Longrightarrow> l_len h' k = l_len h k" and fr: "fresh h \<le> fresh h'"
  shows "heap_rep h' (f(l := es))"
  unfolding heap_rep_def
proof
  fix k
  show "list_rep h' k ((f(l := es)) k)"
  proof (cases "k = l")
    case True
    then show ?thesis using l by simp
  next
    case False
    have k: "list_rep h k (f k)" using h by (rule heap_repD)
    have same: "e_next h' x = e_next h x \<and> e_prev h' x = e_prev h x" if "x \<in> insert (Root k) (set (f k))" for x
    proof (rule nxt)
      have "x \<notin> set (f l)" using that heap_rep_disjoint [OF h] list_repD(2) [OF heap_repD [OF h]] False by blast
      moreover have "x \<noteq> Root l" using that False list_repD(2) [OF k] by auto
      ultimately show "x \<notin> insert (Root l) (insert e (set (f l)))" using e [OF False] that by auto
    qed
    have "chain h' (Root k) (f k) (Root k) = chain h (Root k) (f k) (Root k)"
      using same by (intro chain_frame) auto
    moreover have "e_next h' (Root k) = e_next h (Root k)" using same by simp
    ultimately show ?thesis
      using k False lst [OF False] len [OF False] fr unfolding list_rep_def by fastforce
  qed
qed

lemma lazyInit_rep:
  assumes "heap_rep h f"
  shows "heap_rep (lazyInit l h) f" "chain (lazyInit l h) (Root l) (f l) (Root l)"
    "e_Value (lazyInit l h) = e_Value h" "fresh (lazyInit l h) = fresh h"
proof -
  have l: "list_rep h l (f l)" using assms by (rule heap_repD)
  have *: "list_rep (lazyInit l h) l (f l) \<and> chain (lazyInit l h) (Root l) (f l) (Root l)"
  proof (cases "e_next h (Root l) = None")
    case True
    then have "f l = []" using l by (cases "f l") (auto simp: list_rep_def)
    then show ?thesis using l True by (auto simp: list_rep_def lazyInit_def list_Init_def)
  next
    case False
    then show ?thesis using l by (auto simp: list_rep_def lazyInit_def)
  qed
  have "heap_rep (lazyInit l h) (f(l := f l))"
    by (rule heap_rep_update [OF assms, where e = "Root l"]) (use * in \<open>auto simp: lazyInit_def list_Init_def list_repD(2) [OF heap_repD [OF assms]]\<close>)
  then show "heap_rep (lazyInit l h) f" by simp
  show "chain (lazyInit l h) (Root l) (f l) (Root l)" using * by simp
  show "e_Value (lazyInit l h) = e_Value h" "fresh (lazyInit l h) = fresh h"
    by (simp_all add: lazyInit_def list_Init_def)
qed

lemma insertValue_rep:
  assumes h: "heap_rep h f" and c: "chain h (Root l) (f l) (Root l)" and f: "f l = xs @ ys" and a: "a = last (Root l # xs)"
  shows "\<exists>h'. insertValue l v a h = Some (Elem (fresh h), h') \<and> heap_rep h' (f(l := xs @ Elem (fresh h) # ys)) \<and>
    e_Value h' = (e_Value h)(Elem (fresh h) \<mapsto> v) \<and> fresh h' = fresh h + 1"
proof -
  let ?e = "Elem (fresh h)" and ?b = "hd (ys @ [Root l])"
  define h1 where "h1 = h\<lparr>e_Value := (e_Value h)(?e \<mapsto> v), fresh := fresh h + 1\<rparr>"
  define h2 where "h2 = linked a ?e ?b h1"
  define h3 where "h3 = h2\<lparr>e_list := (e_list h2)(?e \<mapsto> l), l_len := (l_len h2)(l := l_len h2 l + 1)\<rparr>"
  have l: "list_rep h l (xs @ ys)" using heap_repD [OF h, of l] f by simp
  have d: "distinct (Root l # ?e # xs @ ys)" using list_repD(1-3) [OF l] by auto
  have "chain h1 (Root l) (xs @ ys) (Root l) = chain h (Root l) (xs @ ys) (Root l)"
    by (intro chain_frame) (auto simp: h1_def)
  then have 1: "e_next h1 a = Some ?b" "chain h2 (Root l) (xs @ ?e # ys) (Root l)"
    using chain_linked [of h1 "Root l" xs ys ?e a ?b] c f d a by (auto simp: h2_def)
  have ae: "?e \<noteq> a" using a d by (cases xs rule: rev_cases) auto
  have ins: "insertValue l v a h = Some (?e, h3)"
    using link_eq [OF 1(1) ae] unfolding h3_def h2_def h1_def by (simp add: insertValue_def list_insert_def Let_def)
  have "chain h3 (Root l) (xs @ ?e # ys) (Root l) = chain h2 (Root l) (xs @ ?e # ys) (Root l)"
    by (intro chain_frame) (auto simp: h3_def)
  then have "list_rep h3 l (xs @ ?e # ys)"
    using l 1(2) d by (auto simp: list_rep_def h3_def h2_def h1_def linked_def less_Suc_eq)
  then have "heap_rep h3 (f(l := xs @ ?e # ys))"
  proof (rule heap_rep_update [OF h, where e = ?e])
    fix x assume x: "x \<notin> insert (Root l) (insert ?e (set (f l)))"
    have "a \<in> insert (Root l) (set (f l))" "?b \<in> insert (Root l) (set (f l))"
      using a f ring_ends(1) [of "Root l" xs] ring_ends(2) [of ys "Root l"] by auto
    then show "e_next h3 x = e_next h x \<and> e_prev h3 x = e_prev h x"
      using x by (auto simp: h3_def h2_def h1_def linked_def)
  next
    fix k assume "k \<noteq> l"
    show "?e \<notin> insert (Root k) (set (f k))" using list_repD(3) [OF heap_repD [OF h]] by simp
    show "e_list h3 x = Some k \<longleftrightarrow> e_list h x = Some k" for x
      using \<open>k \<noteq> l\<close> heap_rep_not_fresh [OF h] by (auto simp: h3_def h2_def h1_def linked_def)
    show "l_len h3 k = l_len h k" using \<open>k \<noteq> l\<close> by (simp add: h3_def h2_def h1_def linked_def)
  qed (simp add: h3_def h2_def h1_def linked_def)
  then show ?thesis using ins by (auto simp: h3_def h2_def h1_def linked_def)
qed

lemma unlink_rep:
  assumes h: "heap_rep h f" and f: "f l = xs @ e # ys"
  defines "a \<equiv> last (Root l # xs)" and "b \<equiv> hd (ys @ [Root l])"
  shows "unlink e h = Some (unlinked a b h)" "chain (unlinked a b h) (Root l) (xs @ ys) (Root l)"
    "a \<in> insert (Root l) (set xs)" "b \<in> insert (Root l) (set ys)"
proof -
  have l: "list_rep h l (xs @ e # ys)" using heap_repD [OF h, of l] f by simp
  have c: "chain h (Root l) (xs @ e # ys) (Root l)" using list_repD(4) [OF l, of e] by simp
  have d: "distinct (Root l # xs @ e # ys)" using list_repD(1) [OF l] by simp
  show ab: "a \<in> insert (Root l) (set xs)" "b \<in> insert (Root l) (set ys)"
    unfolding a_def b_def by (rule ring_ends)+
  show "chain (unlinked a b h) (Root l) (xs @ ys) (Root l)"
    using chain_unlinked(3) [OF c d a_def [THEN meta_eq_to_obj_eq] b_def [THEN meta_eq_to_obj_eq]] .
  show "unlink e h = Some (unlinked a b h)"
    using chain_unlinked(1,2) [OF c d a_def [THEN meta_eq_to_obj_eq] b_def [THEN meta_eq_to_obj_eq]] ab(1) d
    by (intro unlink_eq) auto
qed

lemma heap_rep_other: "\<lbrakk>heap_rep h f; e \<in> set (f l); k \<noteq> l\<rbrakk> \<Longrightarrow> e \<notin> insert (Root k) (set (f k))"
  by (metis heap_repD heap_rep_disjoint insertE list_repD(2))

lemma remove_rep:
  assumes h: "heap_rep h f" and e: "e \<in> set (f l)"
  shows "\<exists>h'. list_remove l e h = Some h' \<and> heap_rep h' (f(l := remove1 e (f l))) \<and>
    e_Value h' = e_Value h \<and> fresh h' = fresh h"
proof -
  obtain xs ys where f: "f l = xs @ e # ys" "e \<notin> set xs" using split_list_first [OF e] by blast
  have r: "remove1 e (f l) = xs @ ys" using f by (simp add: remove1_append)
  have l: "list_rep h l (xs @ e # ys)" using heap_repD [OF h, of l] f by simp
  note u = unlink_rep [OF h f(1)]
  let ?a = "last (Root l # xs)" and ?b = "hd (ys @ [Root l])"
  define h1 where "h1 = unlinked ?a ?b h"
  define h2 where "h2 = h1\<lparr>e_next := (e_next h1)(e := None), e_prev := (e_prev h1)(e := None),
       e_list := (e_list h1)(e := None), l_len := (l_len h1)(l := l_len h1 l - 1)\<rparr>"
  have d: "distinct (Root l # xs @ e # ys)" using list_repD(1) [OF l] by simp
  have rem: "list_remove l e h = Some h2" using u(1) by (simp add: list_remove_def h2_def h1_def)
  have "chain h2 (Root l) (xs @ ys) (Root l) = chain h1 (Root l) (xs @ ys) (Root l)"
    using d by (intro chain_frame) (auto simp: h2_def)
  then have "list_rep h2 l (xs @ ys)"
    using l d u(2) by (auto simp: list_rep_def h2_def h1_def unlinked_def)
  then have "heap_rep h2 (f(l := xs @ ys))"
  proof (rule heap_rep_update [OF h, where e = e])
    fix x assume x: "x \<notin> insert (Root l) (insert e (set (f l)))"
    then show "e_next h2 x = e_next h x \<and> e_prev h2 x = e_prev h x"
      using u(3,4) f by (auto simp: h2_def h1_def unlinked_def)
  next
    fix k assume k: "k \<noteq> l"
    show "e \<notin> insert (Root k) (set (f k))"
      using heap_rep_other [OF h e k] .
    show "e_list h2 x = Some k \<longleftrightarrow> e_list h x = Some k" for x
      using k list_repD(5) [OF l, of e] by (auto simp: h2_def h1_def unlinked_def)
    show "l_len h2 k = l_len h k" using k by (simp add: h2_def h1_def unlinked_def)
  qed (simp add: h2_def h1_def unlinked_def)
  then show ?thesis using rem r by (auto simp: h2_def h1_def unlinked_def)
qed

lemma move_rep:
  assumes h: "heap_rep h f" and e: "e \<in> set (f l)" and r: "remove1 e (f l) = xs @ ys" and a: "a = last (Root l # xs)"
  shows "\<exists>h'. move e a h = Some h' \<and> heap_rep h' (f(l := xs @ e # ys)) \<and> e_Value h' = e_Value h \<and> fresh h' = fresh h"
proof -
  obtain us vs where f: "f l = us @ e # vs" "e \<notin> set us" using split_list_first [OF e] by blast
  have uv: "us @ vs = xs @ ys" using f r by (simp add: remove1_append)
  have l: "list_rep h l (us @ e # vs)" using heap_repD [OF h, of l] f by simp
  have "distinct (Root l # e # us @ vs)" using list_repD(1) [OF l] by auto
  then have d: "distinct (Root l # e # xs @ ys)" unfolding uv .
  note u = unlink_rep [OF h f(1)]
  let ?b = "hd (ys @ [Root l])"
  define h1 where "h1 = unlinked (last (Root l # us)) (hd (vs @ [Root l])) h"
  define h2 where "h2 = linked a e ?b h1"
  have c: "chain h1 (Root l) (xs @ ys) (Root l)" using u(2) uv by (simp add: h1_def)
  have ae: "e \<noteq> a" "a \<in> insert (Root l) (set xs)" "?b \<in> insert (Root l) (set ys)"
    using a d ring_ends(1) [of "Root l" xs] ring_ends(2) [of ys "Root l"] by auto
  note 2 = chain_linked [OF c d a refl]
  have mv: "move e a h = Some h2" using u(1) link_eq [of h1 a ?b e] 2 ae by (simp add: move_def h2_def h1_def)
  have set: "set (f l) = insert e (set xs \<union> set ys)" using f uv by (metis Un_insert_right list.simps(15) set_append)
  have "length (f l) = length (xs @ e # ys)" using f arg_cong [OF uv, of length] by simp
  then have "list_rep h2 l (xs @ e # ys)"
    using heap_repD [OF h, of l] 2 d set by (auto simp: list_rep_def h2_def h1_def linked_def unlinked_def)
  then have "heap_rep h2 (f(l := xs @ e # ys))"
  proof (rule heap_rep_update [OF h, where e = e])
    fix x assume x: "x \<notin> insert (Root l) (insert e (set (f l)))"
    have "last (Root l # us) \<in> insert (Root l) (set (f l))" "hd (vs @ [Root l]) \<in> insert (Root l) (set (f l))"
      using u(3,4) f(1) by auto
    moreover have "a \<in> insert (Root l) (set (f l))" "?b \<in> insert (Root l) (set (f l))" using ae set by auto
    ultimately have "x \<notin> {e, a, ?b, last (Root l # us), hd (vs @ [Root l])}" using x by blast
    then show "e_next h2 x = e_next h x \<and> e_prev h2 x = e_prev h x"
      by (simp add: h2_def h1_def unlinked_def linked_def)
  next
    fix k assume k: "k \<noteq> l"
    show "e \<notin> insert (Root k) (set (f k))"
      using heap_rep_other [OF h e k] .
  qed (simp_all add: h2_def h1_def unlinked_def linked_def)
  then show ?thesis using mv by (auto simp: h2_def h1_def unlinked_def linked_def)
qed

subsection \<open>Refinement of lists\<close>

text \<open>The abstract state: the element sequences of all lists, the values, and the next identity.\<close>

record 'a alists =
  a_lists :: "nat \<Rightarrow> node list"
  a_values :: "node \<Rightarrow> 'a option"
  a_fresh :: nat

datatype 'a list_op = PushFrontOp nat 'a | PushBackOp nat 'a | InsertBeforeOp nat 'a node | InsertAfterOp nat 'a node
  | MoveToFrontOp nat node | MoveToBackOp nat node | MoveBeforeOp nat node node | MoveAfterOp nat node node
  | RemoveOp nat node | ElemRemoveOp node

datatype 'a list_result = Ret "node option" | RetValue "'a option" | RetBool bool | RetUnit

text \<open>The operations of the code.\<close>

fun exec_op :: "'a list_op \<Rightarrow> 'a heap \<Rightarrow> ('a list_result \<times> 'a heap) option" where
  "exec_op (PushFrontOp l v) h = map_option (\<lambda>(e, h). (Ret (Some e), h)) (PushFront l v h)"
| "exec_op (PushBackOp l v) h = map_option (\<lambda>(e, h). (Ret (Some e), h)) (PushBack l v h)"
| "exec_op (InsertBeforeOp l v m) h = map_option (\<lambda>(e, h). (Ret e, h)) (InsertBefore l v m h)"
| "exec_op (InsertAfterOp l v m) h = map_option (\<lambda>(e, h). (Ret e, h)) (InsertAfter l v m h)"
| "exec_op (MoveToFrontOp l e) h = map_option (\<lambda>h. (RetUnit, h)) (MoveToFront l e h)"
| "exec_op (MoveToBackOp l e) h = map_option (\<lambda>h. (RetUnit, h)) (MoveToBack l e h)"
| "exec_op (MoveBeforeOp l e m) h = map_option (\<lambda>h. (RetUnit, h)) (MoveBefore l e m h)"
| "exec_op (MoveAfterOp l e m) h = map_option (\<lambda>h. (RetUnit, h)) (MoveAfter l e m h)"
| "exec_op (RemoveOp l e) h = map_option (\<lambda>(v, h). (RetValue v, h)) (list_Remove l e h)"
| "exec_op (ElemRemoveOp e) h = map_option (\<lambda>(b, h). (RetBool b, h)) (elem_Remove e h)"

text \<open>The operations on lists.\<close>

definition insert_before :: "'b \<Rightarrow> 'b \<Rightarrow> 'b list \<Rightarrow> 'b list" where
  "insert_before x m es = takeWhile (\<lambda>y. y \<noteq> m) es @ x # dropWhile (\<lambda>y. y \<noteq> m) es"

definition insert_after :: "'b \<Rightarrow> 'b \<Rightarrow> 'b list \<Rightarrow> 'b list" where
  "insert_after x m es = takeWhile (\<lambda>y. y \<noteq> m) es @ m # x # tl (dropWhile (\<lambda>y. y \<noteq> m) es)"

definition a_new :: "nat \<Rightarrow> 'a \<Rightarrow> (node \<Rightarrow> node list \<Rightarrow> node list) \<Rightarrow> 'a alists \<Rightarrow> 'a list_result \<times> 'a alists" where
  "a_new l v put a = (let e = Elem (a_fresh a) in
     (Ret (Some e), \<lparr>a_lists = (a_lists a)(l := put e (a_lists a l)), a_values = (a_values a)(e \<mapsto> v), a_fresh = a_fresh a + 1\<rparr>))"

definition a_set :: "nat \<Rightarrow> node list \<Rightarrow> 'a alists \<Rightarrow> 'a alists" where
  "a_set l es a = a\<lparr>a_lists := (a_lists a)(l := es)\<rparr>"

fun spec_op :: "'a list_op \<Rightarrow> 'a alists \<Rightarrow> 'a list_result \<times> 'a alists" where
  "spec_op (PushFrontOp l v) a = a_new l v (\<lambda>e es. e # es) a"
| "spec_op (PushBackOp l v) a = a_new l v (\<lambda>e es. es @ [e]) a"
| "spec_op (InsertBeforeOp l v m) a =
     (if m \<in> set (a_lists a l) then a_new l v (\<lambda>e. insert_before e m) a else (Ret None, a))"
| "spec_op (InsertAfterOp l v m) a =
     (if m \<in> set (a_lists a l) then a_new l v (\<lambda>e. insert_after e m) a else (Ret None, a))"
| "spec_op (MoveToFrontOp l e) a =
     (RetUnit, if e \<in> set (a_lists a l) then a_set l (e # remove1 e (a_lists a l)) a else a)"
| "spec_op (MoveToBackOp l e) a =
     (RetUnit, if e \<in> set (a_lists a l) then a_set l (remove1 e (a_lists a l) @ [e]) a else a)"
| "spec_op (MoveBeforeOp l e m) a =
     (RetUnit, if {e, m} \<subseteq> set (a_lists a l) \<and> e \<noteq> m then a_set l (insert_before e m (remove1 e (a_lists a l))) a else a)"
| "spec_op (MoveAfterOp l e m) a =
     (RetUnit, if {e, m} \<subseteq> set (a_lists a l) \<and> e \<noteq> m then a_set l (insert_after e m (remove1 e (a_lists a l))) a else a)"
| "spec_op (RemoveOp l e) a =
     (RetValue (a_values a e), a_set l (remove1 e (a_lists a l)) a)"
| "spec_op (ElemRemoveOp e) a =
     (RetBool (\<exists>l. e \<in> set (a_lists a l)), a\<lparr>a_lists := \<lambda>l. remove1 e (a_lists a l)\<rparr>)"

definition heap_abs :: "'a heap \<Rightarrow> 'a alists \<Rightarrow> bool" where
  "heap_abs h a \<longleftrightarrow> heap_rep h (a_lists a) \<and> e_Value h = a_values a \<and> fresh h = a_fresh a"

lemma before_after_split:
  assumes "m \<notin> set xs"
  shows "insert_before e m (xs @ m # ys) = xs @ e # m # ys" "insert_after e m (xs @ m # ys) = (xs @ [m]) @ e # ys"
  using assms by (auto simp: insert_before_def insert_after_def takeWhile_append dropWhile_append)

lemma last_remove1: "last (p # xs) \<noteq> e \<Longrightarrow> last (p # remove1 e xs) = last (p # xs)"
  by (cases xs rule: rev_cases) (auto simp: remove1_append)

text \<open>Inserting at a position that the code found is inserting in the list.\<close>

lemma insertValue_abs:
  assumes h: "heap_abs h a" and c: "chain h (Root l) (a_lists a l) (Root l)" and f: "a_lists a l = xs @ ys"
    and at: "at = last (Root l # xs)" and put: "put (Elem (a_fresh a)) (a_lists a l) = xs @ Elem (a_fresh a) # ys"
  shows "\<exists>h'. insertValue l v at h = Some (Elem (a_fresh a), h') \<and> heap_abs h' (snd (a_new l v put a)) \<and>
    fst (a_new l v put a) = Ret (Some (Elem (a_fresh a)))"
  using insertValue_rep [where f = "a_lists a", OF _ c f at, of v] h put by (auto simp: heap_abs_def a_new_def Let_def)

lemma move_abs:
  assumes h: "heap_abs h a" and e: "e \<in> set (a_lists a l)" and r: "remove1 e (a_lists a l) = xs @ ys"
    and at: "at = last (Root l # xs)"
  shows "\<exists>h'. move e at h = Some h' \<and> heap_abs h' (a_set l (xs @ e # ys) a)"
  using move_rep [where f = "a_lists a" and h = h, OF _ e r at] h by (auto simp: heap_abs_def a_set_def)

lemma abs_list: "heap_abs h a \<Longrightarrow> list_rep h l (a_lists a l)"
  by (simp add: heap_abs_def heap_repD)

lemma abs_member: "heap_abs h a \<Longrightarrow> e_list h x = Some l \<longleftrightarrow> x \<in> set (a_lists a l)"
  using abs_list list_repD(5) by blast

lemma abs_chain: "\<lbrakk>heap_abs h a; x \<in> set (a_lists a l)\<rbrakk> \<Longrightarrow> chain h (Root l) (a_lists a l) (Root l)"
  using abs_list list_repD(4) by blast

lemma abs_lazyInit:
  assumes "heap_abs h a"
  shows "heap_abs (lazyInit l h) a" "chain (lazyInit l h) (Root l) (a_lists a l) (Root l)"
  using lazyInit_rep [of h "a_lists a" l] assms by (auto simp: heap_abs_def)

text \<open>The element before a member is the one the list has there.\<close>

lemma abs_prev:
  assumes "heap_abs h a" "a_lists a l = xs @ m # ys"
  shows "e_prev h m = Some (last (Root l # xs))"
  using abs_chain [OF assms(1), of m l] chain_last [of h "Root l" xs m] assms(2) by (simp add: chain_append)

lemma PushFront_refines:
  assumes "heap_abs h a"
  shows "\<exists>h'. exec_op (PushFrontOp l v) h = Some (fst (spec_op (PushFrontOp l v) a), h') \<and> heap_abs h' (snd (spec_op (PushFrontOp l v) a))"
  using insertValue_abs [OF abs_lazyInit [OF assms], of l "[]" "a_lists a l" "Root l" "\<lambda>e es. e # es" v]
  by (auto simp: PushFront_def)

lemma PushBack_refines:
  assumes "heap_abs h a"
  shows "\<exists>h'. exec_op (PushBackOp l v) h = Some (fst (spec_op (PushBackOp l v) a), h') \<and> heap_abs h' (snd (spec_op (PushBackOp l v) a))"
proof -
  have "e_prev (lazyInit l h) (Root l) = Some (last (Root l # a_lists a l))"
    using chain_last [OF abs_lazyInit(2) [OF assms, of l]] by simp
  then show ?thesis
    using insertValue_abs [OF abs_lazyInit [OF assms], of l "a_lists a l" "[]" _ "\<lambda>e es. es @ [e]" v]
    by (auto simp: PushBack_def Let_def)
qed

lemma InsertBefore_refines:
  assumes h: "heap_abs h a"
  shows "\<exists>h'. exec_op (InsertBeforeOp l v m) h = Some (fst (spec_op (InsertBeforeOp l v m) a), h') \<and> heap_abs h' (snd (spec_op (InsertBeforeOp l v m) a))"
proof (cases "m \<in> set (a_lists a l)")
  case True
  then obtain xs ys where f: "a_lists a l = xs @ m # ys" "m \<notin> set xs" using split_list_first by metis
  show ?thesis
    using True abs_member [OF h, of m l] abs_prev [OF h f(1)] before_after_split(1) [OF f(2)] f
      insertValue_abs [OF h abs_chain [OF h True] f(1) refl, of "\<lambda>e. insert_before e m" v]
    by (auto simp: InsertBefore_def)
next
  case False
  then show ?thesis using h abs_member [OF h, of m l] by (auto simp: InsertBefore_def)
qed

lemma InsertAfter_refines:
  assumes h: "heap_abs h a"
  shows "\<exists>h'. exec_op (InsertAfterOp l v m) h = Some (fst (spec_op (InsertAfterOp l v m) a), h') \<and> heap_abs h' (snd (spec_op (InsertAfterOp l v m) a))"
proof (cases "m \<in> set (a_lists a l)")
  case True
  then obtain xs ys where f: "a_lists a l = xs @ m # ys" "m \<notin> set xs" using split_list_first by metis
  show ?thesis
    using True abs_member [OF h, of m l] before_after_split(2) [OF f(2)] f
      insertValue_abs [OF h abs_chain [OF h True], of "xs @ [m]" ys m "\<lambda>e. insert_after e m" v]
    by (auto simp: InsertAfter_def)
next
  case False
  then show ?thesis using h abs_member [OF h, of m l] by (auto simp: InsertAfter_def)
qed

lemma a_set_same: "a_set l (a_lists a l) a = a"
  by (simp add: a_set_def)

lemma MoveToFront_refines:
  assumes h: "heap_abs h a"
  shows "\<exists>h'. exec_op (MoveToFrontOp l e) h = Some (fst (spec_op (MoveToFrontOp l e) a), h') \<and> heap_abs h' (snd (spec_op (MoveToFrontOp l e) a))"
proof (cases "e \<in> set (a_lists a l)")
  case True
  have n: "e_next h (Root l) = Some (hd (a_lists a l))"
    using chain_next [OF abs_chain [OF h True]] True by (cases "a_lists a l") auto
  show ?thesis
  proof (cases "hd (a_lists a l) = e")
    case hd: True
    then have "e # remove1 e (a_lists a l) = a_lists a l" using True by (cases "a_lists a l") auto
    then show ?thesis using h n hd True a_set_same [of l a] by (simp add: MoveToFront_def)
  next
    case False
    then show ?thesis
      using move_abs [OF h True, of "[]" _ "Root l"] n True abs_member [OF h, of e l] by (auto simp: MoveToFront_def)
  qed
next
  case False
  then show ?thesis using h abs_member [OF h, of e l] by (auto simp: MoveToFront_def)
qed

lemma MoveToBack_refines:
  assumes h: "heap_abs h a"
  shows "\<exists>h'. exec_op (MoveToBackOp l e) h = Some (fst (spec_op (MoveToBackOp l e) a), h') \<and> heap_abs h' (snd (spec_op (MoveToBackOp l e) a))"
proof (cases "e \<in> set (a_lists a l)")
  case True
  have n: "e_prev h (Root l) = Some (last (Root l # a_lists a l))"
    using chain_last [OF abs_chain [OF h True]] by simp
  have d: "distinct (a_lists a l)" using list_repD(1) [OF abs_list [OF h, of l]] by simp
  show ?thesis
  proof (cases "last (Root l # a_lists a l) = e")
    case last: True
    then have "remove1 e (a_lists a l) @ [e] = a_lists a l"
      using True d by (cases "a_lists a l" rule: rev_cases) (auto simp: remove1_append)
    then show ?thesis using h n last True a_set_same [of l a] by (simp add: MoveToBack_def)
  next
    case False
    then show ?thesis
      using move_abs [OF h True, of "remove1 e (a_lists a l)" "[]" "last (Root l # a_lists a l)"] last_remove1 [OF False]
        n True abs_member [OF h, of e l] by (auto simp: MoveToBack_def)
  qed
next
  case False
  then show ?thesis using h abs_member [OF h, of e l] by (auto simp: MoveToBack_def)
qed

lemma MoveBefore_refines:
  assumes h: "heap_abs h a"
  shows "\<exists>h'. exec_op (MoveBeforeOp l e m) h = Some (fst (spec_op (MoveBeforeOp l e m) a), h') \<and> heap_abs h' (snd (spec_op (MoveBeforeOp l e m) a))"
proof (cases "{e, m} \<subseteq> set (a_lists a l) \<and> e \<noteq> m")
  case True
  then have e: "e \<in> set (a_lists a l)" and m: "m \<in> set (a_lists a l)" and ne: "e \<noteq> m" by auto
  have d: "distinct (a_lists a l)" using list_repD(1) [OF abs_list [OF h, of l]] by simp
  obtain xs ys where f: "a_lists a l = xs @ m # ys" "m \<notin> set xs" using split_list_first [OF m] by blast
  let ?at = "last (Root l # xs)"
  have p: "e_prev h m = Some ?at" using abs_prev [OF h f(1)] .
  have ins: "insert_before e m (remove1 e (a_lists a l)) = (if e \<in> set xs then remove1 e xs @ e # m # ys else xs @ e # m # remove1 e ys)"
    using f ne before_after_split(1) [of m "remove1 e xs" e ys] before_after_split(1) [of m xs e "remove1 e ys"]
    by (auto simp: remove1_append dest: in_set_remove1)
  have ex: "exec_op (MoveBeforeOp l e m) h = map_option (\<lambda>h. (RetUnit, h)) (move e ?at h)"
    using p e m ne abs_member [OF h] by (auto simp: MoveBefore_def)
  show ?thesis
  proof (cases "?at = e")
    case at: True
    then obtain us where us: "xs = us @ [e]"
      using e list_repD(2) [OF abs_list [OF h, of l], of l] by (cases xs rule: rev_cases) auto
    have "e \<notin> set us" using d f us by auto
    then have "insert_before e m (remove1 e (a_lists a l)) = a_lists a l" using ins us f(1) by (simp add: remove1_append)
    then show ?thesis using ex at h True a_set_same [of l a] by (simp add: move_def)
  next
    case False
    then have "\<exists>h'. move e ?at h = Some h' \<and> heap_abs h' (a_set l (insert_before e m (remove1 e (a_lists a l))) a)"
      unfolding ins
      using move_abs [OF h e, of "remove1 e xs" "m # ys" ?at] move_abs [OF h e, of xs "m # remove1 e ys" ?at]
        f ne last_remove1 [OF False] by (auto simp: remove1_append)
    then show ?thesis using ex True by auto
  qed
next
  case False
  then show ?thesis using h abs_member [OF h, of e l] abs_member [OF h, of m l] by (auto simp: MoveBefore_def)
qed

lemma MoveAfter_refines:
  assumes h: "heap_abs h a"
  shows "\<exists>h'. exec_op (MoveAfterOp l e m) h = Some (fst (spec_op (MoveAfterOp l e m) a), h') \<and> heap_abs h' (snd (spec_op (MoveAfterOp l e m) a))"
proof (cases "{e, m} \<subseteq> set (a_lists a l) \<and> e \<noteq> m")
  case True
  then have e: "e \<in> set (a_lists a l)" and m: "m \<in> set (a_lists a l)" and ne: "e \<noteq> m" by auto
  have "m \<in> set (remove1 e (a_lists a l))" using m ne by (simp add: in_set_remove1)
  then obtain xs ys where f: "remove1 e (a_lists a l) = xs @ m # ys" "m \<notin> set xs" using split_list_first by metis
  then show ?thesis
    using move_abs [OF h e, of "xs @ [m]" ys m] before_after_split(2) [OF f(2), of e ys] e m ne
      abs_member [OF h, of e l] abs_member [OF h, of m l] by (auto simp: MoveAfter_def)
next
  case False
  then show ?thesis using h abs_member [OF h, of e l] abs_member [OF h, of m l] by (auto simp: MoveAfter_def)
qed

lemma Remove_refines:
  assumes h: "heap_abs h a"
  shows "\<exists>h'. exec_op (RemoveOp l e) h = Some (fst (spec_op (RemoveOp l e) a), h') \<and> heap_abs h' (snd (spec_op (RemoveOp l e) a))"
proof (cases "e \<in> set (a_lists a l)")
  case True
  then show ?thesis
    using remove_rep [of h "a_lists a" e l] h abs_member [OF h, of e l] by (auto simp: list_Remove_def heap_abs_def a_set_def)
next
  case False
  then show ?thesis
    using h abs_member [OF h, of e l] a_set_same [of l a] by (auto simp: list_Remove_def remove1_idem heap_abs_def)
qed

lemma ElemRemove_refines:
  assumes h: "heap_abs h a"
  shows "\<exists>h'. exec_op (ElemRemoveOp e) h = Some (fst (spec_op (ElemRemoveOp e) a), h') \<and> heap_abs h' (snd (spec_op (ElemRemoveOp e) a))"
proof (cases "e_list h e")
  case None
  then have n: "e \<notin> set (a_lists a l)" for l using abs_member [OF h, of e l] by simp
  then have "(\<lambda>l. remove1 e (a_lists a l)) = a_lists a" by (simp add: remove1_idem)
  then show ?thesis using h None n by (simp add: elem_Remove_def)
next
  case (Some l)
  then have e: "e \<in> set (a_lists a l)" using abs_member [OF h, of e l] by simp
  have "e \<notin> set (a_lists a k)" if "k \<noteq> l" for k using abs_member [OF h, of e k] Some that by simp
  then have "(\<lambda>k. remove1 e (a_lists a k)) = (a_lists a)(l := remove1 e (a_lists a l))" by (auto simp: remove1_idem)
  then show ?thesis using remove_rep [of h "a_lists a" e l] h e Some by (auto simp: elem_Remove_def heap_abs_def)
qed

lemmas refines = PushFront_refines PushBack_refines InsertBefore_refines InsertAfter_refines MoveToFront_refines
  MoveToBack_refines MoveBefore_refines MoveAfter_refines Remove_refines ElemRemove_refines

lemma exec_refines: "heap_abs h a \<Longrightarrow> \<exists>h'. exec_op op h = Some (fst (spec_op op a), h') \<and> heap_abs h' (snd (spec_op op a))"
  by (cases op) (simp_all only: refines)

fun exec_all :: "'a list_op list \<Rightarrow> 'a heap \<Rightarrow> ('a list_result list \<times> 'a heap) option" where
  "exec_all [] h = Some ([], h)"
| "exec_all (op # ops) h = do { (r, h) \<leftarrow> exec_op op h; (rs, h) \<leftarrow> exec_all ops h; Some (r # rs, h) }"

fun spec_all :: "'a list_op list \<Rightarrow> 'a alists \<Rightarrow> 'a list_result list \<times> 'a alists" where
  "spec_all [] a = ([], a)"
| "spec_all (op # ops) a = (case spec_op op a of (r, a) \<Rightarrow> case spec_all ops a of (rs, a) \<Rightarrow> (r # rs, a))"

definition no_lists :: "'a alists" where
  "no_lists = \<lparr>a_lists = \<lambda>_. [], a_values = \<lambda>_. None, a_fresh = 0\<rparr>"

lemma exec_all_refines: "heap_abs h a \<Longrightarrow> \<exists>h'. exec_all ops h = Some (fst (spec_all ops a), h') \<and> heap_abs h' (snd (spec_all ops a))"
proof (induction ops arbitrary: h a)
  case (Cons op ops)
  obtain h1 where "exec_op op h = Some (fst (spec_op op a), h1)" "heap_abs h1 (snd (spec_op op a))"
    using exec_refines [OF Cons.prems] by blast
  then show ?case using Cons.IH [of h1 "snd (spec_op op a)"] by (auto split: prod.splits)
qed simp

lemma empty_heap_abs: "heap_abs empty_heap no_lists"
  by (simp add: heap_abs_def heap_rep_def list_rep_def empty_heap_def no_lists_def)

text \<open>The loop \<open>for e := l.Front(); e != nil; e = e.Next()\<close> that users of the package run, and its mirror.\<close>

partial_function (option) walk :: "(node \<Rightarrow> 'a heap \<Rightarrow> node option) \<Rightarrow> 'a heap \<Rightarrow> node option \<Rightarrow> node list option" where
  "walk step h e = (case e of None \<Rightarrow> Some [] | Some x \<Rightarrow> do { xs \<leftarrow> walk step h (step x h); Some (x # xs) })"

lemma walk_chain:
  assumes "chain h p es (Root l)" "\<forall>x\<in>set es. e_list h x = Some l" "Root l \<notin> set es"
  shows "walk elem_Next h (if e_next h p \<noteq> Some (Root l) then e_next h p else None) = Some es"
  using assms
proof (induction es arbitrary: p)
  case Nil
  then show ?case by (simp add: walk.simps)
next
  case (Cons e es)
  have "elem_Next e h = (if e_next h e \<noteq> Some (Root l) then e_next h e else None)"
    using Cons.prems by (simp add: elem_Next_def)
  then show ?case using Cons by (subst walk.simps) auto
qed

lemma walk_chain_back:
  assumes "chain h (Root l) es q" "\<forall>x\<in>set es. e_list h x = Some l" "Root l \<notin> set es"
  shows "walk elem_Prev h (if e_prev h q \<noteq> Some (Root l) then e_prev h q else None) = Some (rev es)"
  using assms
proof (induction es arbitrary: q rule: rev_induct)
  case Nil
  then show ?case by (simp add: walk.simps)
next
  case (snoc e es)
  have c: "chain h (Root l) es e" "e_prev h q = Some e" using snoc.prems(1) by (auto simp: chain_append)
  have "elem_Prev e h = (if e_prev h e \<noteq> Some (Root l) then e_prev h e else None)"
    using snoc.prems by (simp add: elem_Prev_def)
  then show ?case using snoc c by (subst walk.simps) auto
qed

lemma walk_abs:
  assumes "heap_abs h a"
  shows "walk elem_Next h (list_Front l h) = Some (a_lists a l)" "walk elem_Prev h (list_Back l h) = Some (rev (a_lists a l))"
    "list_Len l h = int (length (a_lists a l))"
proof -
  note l = abs_list [OF assms, of l]
  show "list_Len l h = int (length (a_lists a l))" using list_repD(6) [OF l] by (simp add: list_Len_def)
  show "walk elem_Next h (list_Front l h) = Some (a_lists a l)" "walk elem_Prev h (list_Back l h) = Some (rev (a_lists a l))"
  proof (atomize (full), cases "a_lists a l")
    case Nil
    then show "walk elem_Next h (list_Front l h) = Some (a_lists a l) \<and> walk elem_Prev h (list_Back l h) = Some (rev (a_lists a l))"
      using list_repD(6) [OF l] by (simp add: list_Front_def list_Back_def walk.simps)
  next
    case (Cons e es)
    then have c: "chain h (Root l) (a_lists a l) (Root l)" using abs_chain [OF assms, of e l] by simp
    have m: "\<forall>x\<in>set (a_lists a l). e_list h x = Some l" "Root l \<notin> set (a_lists a l)"
      using abs_member [OF assms] list_repD(2) [OF l] by auto
    have "e_next h (Root l) \<noteq> Some (Root l)" "e_prev h (Root l) \<noteq> Some (Root l)"
      using chain_next [OF c] chain_last [OF c] Cons m(2) last_in_set [of "e # es"] by auto
    moreover have "l_len h l \<noteq> 0" using list_repD(6) [OF l] Cons by simp
    ultimately show "walk elem_Next h (list_Front l h) = Some (a_lists a l) \<and> walk elem_Prev h (list_Back l h) = Some (rev (a_lists a l))"
      using walk_chain [OF c m] walk_chain_back [OF c m] by (simp add: list_Front_def list_Back_def)
  qed
qed

text \<open>C30. Any sequence of operations on any number of lists, starting from zero-value lists, runs without
  a nil dereference, returns what the operations on sequences return, and leaves a heap that represents
  the resulting sequences: every list is a ring of exactly its elements with the right length.\<close>

theorem list_ops_refine:
  "\<exists>h. exec_all ops empty_heap = Some (fst (spec_all ops no_lists), h) \<and> heap_abs h (snd (spec_all ops no_lists))"
  using exec_all_refines [OF empty_heap_abs] by blast

text \<open>C31. In every heap that operations produce, the loop from \<open>Front\<close> along \<open>Next\<close> ends and visits
  the elements of the list in order, the loop from \<open>Back\<close> along \<open>Prev\<close> ends and visits them in reverse
  order, and \<open>Len\<close> is their number.\<close>

theorem list_loops_terminate:
  "case exec_all ops empty_heap of None \<Rightarrow> False | Some (_, h) \<Rightarrow>
     walk elem_Next h (list_Front l h) = Some (a_lists (snd (spec_all ops no_lists)) l) \<and>
     walk elem_Prev h (list_Back l h) = Some (rev (a_lists (snd (spec_all ops no_lists)) l)) \<and>
     list_Len l h = int (length (a_lists (snd (spec_all ops no_lists)) l))"
proof -
  obtain h where "exec_all ops empty_heap = Some (fst (spec_all ops no_lists), h)" "heap_abs h (snd (spec_all ops no_lists))"
    using exec_all_refines [OF empty_heap_abs] by blast
  then show ?thesis using walk_abs by auto
qed

end
