(* ===== verification/FairQueue.thy ===== *)
theory FairQueue
  imports GoList "HOL-Library.Sublist"
begin

section \<open>Fair queueing of bandwidth (\<open>protocol/limiter/bandwidth/limiter.go\<close>)\<close>

text \<open>
  \<open>FairQueueLimiter\<close> orders the requests of many connections for one rate limiter. Requests of the same
  flow wait in line; the flows are kept in a list ordered by cost, and the goroutine that holds the
  token of the channel \<open>queue\<close> serves the first request of the first flow until its own is served.

  The linked lists are HOL lists (theory \<open>GoList\<close>). A flow is its id and its pending requests, and
  its list element is named by the id, as the map \<open>index\<close> names it. There is one goroutine per request
  and both have the same number; \<open>pc\<close> says where in \<open>WaitN\<close> it is. Sections under the mutex are one
  step; the channel \<open>queue\<close> of capacity one is a Boolean, and the channel \<open>done\<close> of a request is
  \<open>closed\<close> or not. The wrapped limiter is an environment: \<open>granted\<close> records the requests passed to it,
  in order, and \<open>arrived\<close> the requests in the order they were queued. Dereferencing the nil element of
  an empty list, and closing a closed channel, are panics (\<open>None\<close>).
\<close>

record request =
  r_flow :: string
  r_n :: "64 word"

datatype pc =
    Idle
  | Selecting
  | Acquired
  | Looping
  | Serving nat
  | Returned "string option"

record fair_queue =
  flows :: "(string \<times> nat list) list"
  index :: "string \<Rightarrow> bool"
  bytes_of :: "string \<Rightarrow> 64 word"
  queue :: bool
  reset_at :: nat
  req :: "nat \<Rightarrow> request"
  closed :: "nat \<Rightarrow> bool"
  ctx_err :: "nat \<Rightarrow> bool"
  pc :: "nat \<Rightarrow> pc"
  granted :: "nat list"
  arrived :: "nat list"

definition NewFairQueueLimiter :: "nat \<Rightarrow> (nat \<Rightarrow> request) \<Rightarrow> fair_queue" where
  "NewFairQueueLimiter now r = \<lparr>flows = [], index = \<lambda>_. False, bytes_of = \<lambda>_. 0, queue = False,
     reset_at = now + 1000000000, req = r, closed = \<lambda>_. False, ctx_err = \<lambda>_. False, pc = \<lambda>_. Idle,
     granted = [], arrived = []\<rparr>"

text \<open>The pending requests of a flow, and the change of them.\<close>

definition pending :: "string \<Rightarrow> fair_queue \<Rightarrow> nat list option" where
  "pending i s = map_of (flows s) i"

definition set_pending :: "string \<Rightarrow> nat list \<Rightarrow> fair_queue \<Rightarrow> fair_queue" where
  "set_pending i rs s = s\<lparr>flows := map (\<lambda>f. if fst f = i then (i, rs) else f) (flows s)\<rparr>"

definition remove_flow :: "string \<Rightarrow> fair_queue \<Rightarrow> fair_queue" where
  "remove_flow i s = s\<lparr>flows := filter (\<lambda>f. fst f \<noteq> i) (flows s), index := (index s)(i := False)\<rparr>"

text \<open>The cost of a flow with a first request.\<close>

definition cost_of :: "fair_queue \<Rightarrow> string \<Rightarrow> nat \<Rightarrow> 64 word" where
  "cost_of s i r = bytes_of s i + r_n (req s r)"

definition flow_cost :: "fair_queue \<Rightarrow> string \<times> nat list \<Rightarrow> 64 word" where
  "flow_cost s f = cost_of s (fst f) (hd (snd f))"

text \<open>The loop of \<open>reorder\<close>: the flow to move before, if there is one.\<close>

fun reorder_target :: "fair_queue \<Rightarrow> string \<Rightarrow> 64 word \<Rightarrow> (string \<times> nat list) list \<Rightarrow> string option" where
  "reorder_target s i cost [] = None"
| "reorder_target s i cost (e # es) =
     (if fst e = i then reorder_target s i cost es
      else if snd e = [] then reorder_target s i cost es
      else if cost < flow_cost s e then Some (fst e)
      else reorder_target s i cost es)"

definition reorder :: "string \<Rightarrow> fair_queue \<Rightarrow> fair_queue" where
  "reorder i s =
     (case pending i s of
        None \<Rightarrow> s
      | Some [] \<Rightarrow> s
      | Some (r # rs) \<Rightarrow>
          let f = (i, r # rs); others = filter (\<lambda>g. fst g \<noteq> i) (flows s) in
          case reorder_target s i (cost_of s i r) (flows s) of
            Some e \<Rightarrow> s\<lparr>flows := takeWhile (\<lambda>g. fst g \<noteq> e) others @ f # dropWhile (\<lambda>g. fst g \<noteq> e) others\<rparr>
          | None \<Rightarrow> s\<lparr>flows := others @ [f]\<rparr>)"

text \<open>\<open>WaitN\<close> up to its first \<open>select\<close>.\<close>

definition enqueue :: "nat \<Rightarrow> fair_queue \<Rightarrow> fair_queue" where
  "enqueue t s =
     (let i = r_flow (req s t);
          s = (if \<not> index s i then s\<lparr>flows := (i, []) # flows s, index := (index s)(i := True)\<rparr> else s);
          s = set_pending i ((case pending i s of None \<Rightarrow> [] | Some rs \<Rightarrow> rs) @ [t]) s
      in (reorder i s)\<lparr>pc := (pc s)(t := Selecting), arrived := arrived s @ [t]\<rparr>)"

definition removeRequest :: "string \<Rightarrow> nat \<Rightarrow> fair_queue \<Rightarrow> fair_queue" where
  "removeRequest i t s =
     (case pending i s of
        None \<Rightarrow> s
      | Some rs \<Rightarrow>
          if t \<notin> set rs then s
          else let s = set_pending i (remove1 t rs) s in
            if index s i \<and> remove1 t rs = [] then remove_flow i s else s)"

text \<open>The locked section of the loop: the first request of the first flow is taken.\<close>

definition take_first :: "nat \<Rightarrow> fair_queue \<Rightarrow> (nat \<times> fair_queue) option" where
  "take_first now s =
     (let s = (if reset_at s < now then s\<lparr>bytes_of := \<lambda>_. 0, reset_at := now + 1000000000\<rparr> else s) in
      case flows s of
        [] \<Rightarrow> None
      | (i, []) # _ \<Rightarrow> None
      | (i, r # rs) # _ \<Rightarrow>
          let s = s\<lparr>bytes_of := (bytes_of s)(i := bytes_of s i + r_n (req s r))\<rparr>;
              s = set_pending i rs s
          in Some (r, if rs = [] then remove_flow i s else reorder i s))"

text \<open>
  The steps of the goroutine \<open>t\<close>: queueing the request; the three branches of the first \<open>select\<close>; the
  second \<open>select\<close>; the loop with a cancelled context; taking a request and passing it to the limiter;
  closing its channel after that. A context may be cancelled at any time.
\<close>

inductive fq_step :: "fair_queue \<Rightarrow> fair_queue \<Rightarrow> bool" where
  enqueue: "pc s t = Idle \<Longrightarrow> fq_step s (enqueue t s)"
| cancel: "fq_step s (s\<lparr>ctx_err := (ctx_err s)(t := True)\<rparr>)"
| acquire: "\<lbrakk>pc s t = Selecting; \<not> queue s\<rbrakk> \<Longrightarrow> fq_step s (s\<lparr>queue := True, pc := (pc s)(t := Acquired)\<rparr>)"
| served: "\<lbrakk>pc s t = Selecting; closed s t\<rbrakk> \<Longrightarrow> fq_step s (s\<lparr>pc := (pc s)(t := Returned None)\<rparr>)"
| give_up: "\<lbrakk>pc s t = Selecting; ctx_err s t\<rbrakk> \<Longrightarrow>
    fq_step s ((removeRequest (r_flow (req s t)) t s)\<lparr>pc := (pc s)(t := Returned (Some ''context canceled''))\<rparr>)"
| acquired_served: "\<lbrakk>pc s t = Acquired; closed s t\<rbrakk> \<Longrightarrow>
    fq_step s (s\<lparr>queue := False, pc := (pc s)(t := Returned None)\<rparr>)"
| acquired_loop: "\<lbrakk>pc s t = Acquired; \<not> closed s t\<rbrakk> \<Longrightarrow> fq_step s (s\<lparr>pc := (pc s)(t := Looping)\<rparr>)"
| loop_give_up: "\<lbrakk>pc s t = Looping; ctx_err s t\<rbrakk> \<Longrightarrow>
    fq_step s ((removeRequest (r_flow (req s t)) t s)\<lparr>queue := False, pc := (pc s)(t := Returned (Some ''context canceled''))\<rparr>)"
| loop_take: "\<lbrakk>pc s t = Looping; \<not> ctx_err s t; take_first now s = Some (r, s')\<rbrakk> \<Longrightarrow>
    fq_step s (s'\<lparr>pc := (pc s')(t := Serving r), granted := granted s' @ [r]\<rparr>)"
| finish: "\<lbrakk>pc s t = Serving r; \<not> closed s r\<rbrakk> \<Longrightarrow>
    fq_step s (s\<lparr>closed := (closed s)(r := True), queue := (if r = t then False else queue s),
      pc := (pc s)(t := if r = t then Returned None else Looping)\<rparr>)"

inductive fq_reachable :: "fair_queue \<Rightarrow> fair_queue \<Rightarrow> bool" for s\<^sub>0 where
  init: "fq_reachable s\<^sub>0 s\<^sub>0"
| step: "\<lbrakk>fq_reachable s\<^sub>0 s; fq_step s s'\<rbrakk> \<Longrightarrow> fq_reachable s\<^sub>0 s'"

text \<open>A goroutine is about to panic: the list of flows or of pending requests is empty, or the channel is closed.\<close>

definition fq_panics :: "fair_queue \<Rightarrow> nat \<Rightarrow> bool" where
  "fq_panics s t \<longleftrightarrow>
     (case pc s t of
        Looping \<Rightarrow> \<not> ctx_err s t \<and> (\<exists>now. take_first now s = None)
      | Serving r \<Rightarrow> closed s r
      | _ \<Rightarrow> False)"

subsection \<open>The queues\<close>

text \<open>The flows have different ids, known to the index, and every flow has requests, all of them its own.\<close>

definition queues_ok :: "fair_queue \<Rightarrow> bool" where
  "queues_ok s \<longleftrightarrow> distinct (map fst (flows s)) \<and> (\<forall>i. index s i \<longleftrightarrow> pending i s \<noteq> None) \<and>
     (\<forall>i rs. pending i s = Some rs \<longrightarrow> rs \<noteq> [] \<and> distinct rs \<and> (\<forall>r\<in>set rs. r_flow (req s r) = i))"

definition waiting :: "fair_queue \<Rightarrow> nat \<Rightarrow> bool" where
  "waiting s r \<longleftrightarrow> (\<exists>rs. pending (r_flow (req s r)) s = Some rs \<and> r \<in> set rs)"

lemma map_of_filter_fst: "map_of (filter (\<lambda>g. fst g \<noteq> i) xs) j = (if j = i then None else map_of xs j)"
  by (induction xs) auto

lemma map_of_insert_distinct:
  assumes "distinct (map fst (xs @ ys))" "i \<notin> fst ` set (xs @ ys)"
  shows "map_of (xs @ (i, v) # ys) j = (if j = i then Some v else map_of (xs @ ys) j)"
  using assms by (induction xs) auto

lemma reorder_flows:
  assumes "distinct (map fst (flows s))"
  shows "distinct (map fst (flows (reorder i s)))" "map_of (flows (reorder i s)) j = map_of (flows s) j"
proof -
  let ?o = "filter (\<lambda>g. fst g \<noteq> i) (flows s)"
  have d: "distinct (map fst ?o)" "i \<notin> fst ` set ?o" using assms by (auto simp: distinct_map_filter)
  have ins: "distinct (map fst (xs @ (i, v) # ys)) \<and> map_of (xs @ (i, v) # ys) j = (if j = i then Some v else map_of (flows s) j)"
    if "xs @ ys = ?o" for xs ys v
  proof -
    have "distinct (map fst (xs @ ys))" "i \<notin> fst ` set (xs @ ys)" using d unfolding that by auto
    moreover have "map_of (xs @ ys) j = (if j = i then None else map_of (flows s) j)"
      unfolding that by (rule map_of_filter_fst)
    ultimately show ?thesis using map_of_insert_distinct [of xs ys i v j] by auto
  qed
  have "distinct (map fst (flows (reorder i s))) \<and> map_of (flows (reorder i s)) j = map_of (flows s) j"
  proof (cases "pending i s")
    case None
    then show ?thesis using assms by (simp add: reorder_def)
  next
    case (Some rs)
    show ?thesis
    proof (cases rs)
      case Nil
      then show ?thesis using Some assms by (simp add: reorder_def)
    next
      case (Cons r rs')
      have p: "map_of (flows s) i = Some (r # rs')" using Some Cons by (simp add: pending_def)
      show ?thesis
        using ins [of "takeWhile (\<lambda>g. fst g \<noteq> e) ?o" "dropWhile (\<lambda>g. fst g \<noteq> e) ?o" "r # rs'" for e] ins [of ?o "[]" "r # rs'"] p
          Some Cons by (auto simp: reorder_def Let_def split: option.split)
    qed
  qed
  then show "distinct (map fst (flows (reorder i s)))" "map_of (flows (reorder i s)) j = map_of (flows s) j" by auto
qed

lemma reorder_frame [simp]:
  "index (reorder i s) = index s" "bytes_of (reorder i s) = bytes_of s" "queue (reorder i s) = queue s"
  "reset_at (reorder i s) = reset_at s" "req (reorder i s) = req s" "closed (reorder i s) = closed s"
  "ctx_err (reorder i s) = ctx_err s" "pc (reorder i s) = pc s" "granted (reorder i s) = granted s" "arrived (reorder i s) = arrived s"
  by (simp_all add: reorder_def Let_def split: option.split list.split)

lemma set_pending_frame [simp]:
  "index (set_pending i rs s) = index s" "bytes_of (set_pending i rs s) = bytes_of s" "queue (set_pending i rs s) = queue s"
  "reset_at (set_pending i rs s) = reset_at s" "req (set_pending i rs s) = req s" "closed (set_pending i rs s) = closed s"
  "ctx_err (set_pending i rs s) = ctx_err s" "pc (set_pending i rs s) = pc s" "granted (set_pending i rs s) = granted s"
  "arrived (set_pending i rs s) = arrived s"
  by (simp_all add: set_pending_def)

lemma set_pending_flows:
  "map fst (flows (set_pending i rs s)) = map fst (flows s)"
  "pending j (set_pending i rs s) = (if j = i \<and> pending i s \<noteq> None then Some rs else pending j s)"
proof -
  show "map fst (flows (set_pending i rs s)) = map fst (flows s)" by (auto simp: set_pending_def)
  have "map_of (map (\<lambda>f. if fst f = i then (i, rs) else f) xs) j = (if j = i \<and> map_of xs i \<noteq> None then Some rs else map_of xs j)" for xs :: "(string \<times> nat list) list"
    by (induction xs) auto
  then show "pending j (set_pending i rs s) = (if j = i \<and> pending i s \<noteq> None then Some rs else pending j s)"
    by (simp add: set_pending_def pending_def)
qed

lemma remove_flow_frame [simp]:
  "bytes_of (remove_flow i s) = bytes_of s" "queue (remove_flow i s) = queue s"
  "reset_at (remove_flow i s) = reset_at s" "req (remove_flow i s) = req s" "closed (remove_flow i s) = closed s"
  "ctx_err (remove_flow i s) = ctx_err s" "pc (remove_flow i s) = pc s" "granted (remove_flow i s) = granted s"
  "arrived (remove_flow i s) = arrived s" "index (remove_flow i s) = (index s)(i := False)"
  by (simp_all add: remove_flow_def)

lemma remove_flow_flows:
  "distinct (map fst (flows s)) \<Longrightarrow> distinct (map fst (flows (remove_flow i s)))"
  "pending j (remove_flow i s) = (if j = i then None else pending j s)"
  by (simp_all add: remove_flow_def pending_def map_of_filter_fst distinct_map_filter)

lemma enqueue_ok:
  assumes q: "queues_ok s" and t: "\<not> waiting s t"
  defines "i \<equiv> r_flow (req s t)"
  shows "queues_ok (enqueue t s)"
    "pending j (enqueue t s) = (if j = i then Some ((case pending i s of None \<Rightarrow> [] | Some rs \<Rightarrow> rs) @ [t]) else pending j s)"
proof -
  define s1 where "s1 = (if \<not> index s i then s\<lparr>flows := (i, []) # flows s, index := (index s)(i := True)\<rparr> else s)"
  define old where "old = (case pending i s of None \<Rightarrow> [] | Some rs \<Rightarrow> rs)"
  define s2 where "s2 = set_pending i (old @ [t]) s1"
  have d: "distinct (map fst (flows s))" and ix: "\<And>j. index s j \<longleftrightarrow> pending j s \<noteq> None" using q by (auto simp: queues_ok_def)
  have p1: "pending j s1 = (if j = i then Some old else pending j s)" for j
    using ix [of i] by (auto simp: s1_def pending_def old_def split: option.split)
  have d1: "distinct (map fst (flows s1))"
    using d ix [of i] by (auto simp: s1_def pending_def map_of_eq_None_iff)
  have p2: "pending j s2 = (if j = i then Some (old @ [t]) else pending j s)" for j
    using p1 by (simp add: s2_def set_pending_flows)
  have d2: "distinct (map fst (flows s2))" using d1 by (simp add: s2_def set_pending_flows)
  have e: "enqueue t s = (reorder i s2)\<lparr>pc := (pc s)(t := Selecting), arrived := arrived s @ [t]\<rparr>"
    using p1 by (simp add: enqueue_def i_def [symmetric] s1_def [symmetric] Let_def s2_def) (simp add: s1_def)
  have p: "pending j (enqueue t s) = pending j s2" for j
    using reorder_flows(2) [OF d2, of i j] by (simp add: e pending_def)
  then show "pending j (enqueue t s) = (if j = i then Some (old @ [t]) else pending j s)" using p2 by simp
  have f: "distinct (map fst (flows (enqueue t s)))" "index (enqueue t s) = (index s)(i := True)" "req (enqueue t s) = req s"
    using reorder_flows(1) [OF d2] by (auto simp: e s2_def s1_def fun_upd_idem)
  have "t \<notin> set old" using t by (auto simp: waiting_def old_def i_def split: option.splits)
  moreover have "distinct old \<and> (\<forall>r\<in>set old. r_flow (req s r) = i)"
    using q by (auto simp: queues_ok_def old_def split: option.split)
  ultimately show "queues_ok (enqueue t s)"
    using q f p p2 ix by (auto simp: queues_ok_def i_def)
qed

lemma removeRequest_frame [simp]:
  "bytes_of (removeRequest i t s) = bytes_of s" "queue (removeRequest i t s) = queue s"
  "reset_at (removeRequest i t s) = reset_at s" "req (removeRequest i t s) = req s" "closed (removeRequest i t s) = closed s"
  "ctx_err (removeRequest i t s) = ctx_err s" "pc (removeRequest i t s) = pc s" "granted (removeRequest i t s) = granted s"
  "arrived (removeRequest i t s) = arrived s"
  by (simp_all add: removeRequest_def Let_def split: option.split)

text \<open>The requests left of a flow; a flow without requests is dropped.\<close>

definition left :: "nat list \<Rightarrow> nat list option" where
  "left rs = (if rs = [] then None else Some rs)"

lemma queues_ok_left:
  assumes q: "queues_ok s" and "pending i s = Some rs" "set rs' \<subseteq> set rs" "distinct rs'"
    and "distinct (map fst (flows s'))" "req s' = req s" "\<And>j. index s' j = (if j = i then rs' \<noteq> [] else index s j)"
    and p: "\<And>j. pending j s' = (if j = i then left rs' else pending j s)"
  shows "queues_ok s'"
  unfolding queues_ok_def
proof (intro conjI allI impI)
  show "distinct (map fst (flows s'))" by fact
  show "index s' j = (pending j s' \<noteq> None)" for j using assms by (auto simp: queues_ok_def left_def)
  fix j js assume "pending j s' = Some js"
  then show "js \<noteq> []" "distinct js" "\<forall>r\<in>set js. r_flow (req s' r) = j"
    using assms by (auto simp: queues_ok_def left_def split: if_splits)
qed

lemma removeRequest_ok:
  fixes t :: nat
  assumes q: "queues_ok s"
  defines "i \<equiv> r_flow (req s t)"
  shows "queues_ok (removeRequest i t s)"
    "pending j (removeRequest i t s) = (if j = i \<and> waiting s t then left (remove1 t (the (pending i s))) else pending j s)"
proof -
  have d: "distinct (map fst (flows s))" and ix: "\<And>j. index s j \<longleftrightarrow> pending j s \<noteq> None" using q by (auto simp: queues_ok_def)
  have "queues_ok (removeRequest i t s) \<and>
    pending j (removeRequest i t s) = (if j = i \<and> waiting s t then left (remove1 t (the (pending i s))) else pending j s)"
  proof (cases "waiting s t")
    case False
    then have "removeRequest i t s = s" by (auto simp: removeRequest_def waiting_def i_def split: option.split)
    then show ?thesis using q False by simp
  next
    case True
    then obtain rs where rs: "pending i s = Some rs" "t \<in> set rs" by (auto simp: waiting_def i_def)
    let ?rs = "remove1 t rs" and ?s = "removeRequest i t s"
    have s: "?s = (if ?rs = [] then remove_flow i (set_pending i ?rs s) else set_pending i ?rs s)"
      using rs ix [of i] by (simp add: removeRequest_def)
    have p: "pending j ?s = (if j = i then left ?rs else pending j s)" for j
      using rs by (simp add: s set_pending_flows remove_flow_flows left_def)
    have "queues_ok ?s"
    proof (rule queues_ok_left [OF q rs(1) _ _ _ _ _ p])
      show "set ?rs \<subseteq> set rs" by (rule set_remove1_subset)
      show "distinct ?rs" using q rs by (auto simp: queues_ok_def)
      show "distinct (map fst (flows ?s))" using d by (simp add: s set_pending_flows remove_flow_flows)
      show "index ?s j = (if j = i then ?rs \<noteq> [] else index s j)" for j using rs ix [of i] by (simp add: s)
    qed simp
    then show ?thesis using p rs True by simp
  qed
  then show "queues_ok (removeRequest i t s)"
    "pending j (removeRequest i t s) = (if j = i \<and> waiting s t then left (remove1 t (the (pending i s))) else pending j s)"
    by auto
qed

lemma take_first_ok:
  assumes q: "queues_ok s" and T: "take_first now s = Some (r, s')"
  shows "queues_ok s'" "req s' = req s" "queue s' = queue s" "closed s' = closed s" "ctx_err s' = ctx_err s" "pc s' = pc s"
    "granted s' = granted s" "arrived s' = arrived s"
    "\<exists>rs. pending (r_flow (req s r)) s = Some (r # rs) \<and> (\<forall>j. pending j s' = (if j = r_flow (req s r) then left rs else pending j s))"
proof -
  define s0 where "s0 = (if reset_at s < now then s\<lparr>bytes_of := \<lambda>_. 0, reset_at := now + 1000000000\<rparr> else s)"
  have s0: "flows s0 = flows s" "index s0 = index s" "req s0 = req s" "queue s0 = queue s" "closed s0 = closed s"
    "ctx_err s0 = ctx_err s" "pc s0 = pc s" "granted s0 = granted s" "arrived s0 = arrived s"
    by (simp_all add: s0_def)
  obtain i rs fs where f: "flows s = (i, r # rs) # fs" and s': "s' = (let s1 = set_pending i rs (s0\<lparr>bytes_of := (bytes_of s0)(i := bytes_of s0 i + r_n (req s0 r))\<rparr>)
      in if rs = [] then remove_flow i s1 else reorder i s1)"
    using T s0(1) by (auto simp: take_first_def s0_def [symmetric] Let_def split: list.splits prod.splits)
  define s1 where "s1 = set_pending i rs (s0\<lparr>bytes_of := (bytes_of s0)(i := bytes_of s0 i + r_n (req s0 r))\<rparr>)"
  have s'1: "s' = (if rs = [] then remove_flow i s1 else reorder i s1)" by (simp add: s' s1_def Let_def)
  have p: "pending i s = Some (r # rs)" using f by (simp add: pending_def)
  have i: "i = r_flow (req s r)" using q p by (auto simp: queues_ok_def)
  have d: "distinct (map fst (flows s))" and ix: "\<And>j. index s j \<longleftrightarrow> pending j s \<noteq> None" using q by (auto simp: queues_ok_def)
  have d1: "distinct (map fst (flows s1))" using d s0(1) by (simp add: s1_def set_pending_flows)
  have p0: "pending j (s0\<lparr>bytes_of := b\<rparr>) = pending j s" for j b by (simp add: pending_def s0)
  have p1: "pending j s1 = (if j = i then Some rs else pending j s)" for j
    using p by (simp add: s1_def set_pending_flows p0)
  have p': "pending j s' = (if j = i then left rs else pending j s)" for j
    using p1 reorder_flows(2) [OF d1, of i j] remove_flow_flows(2) [of j i s1] by (auto simp: s'1 left_def pending_def)
  show fr: "req s' = req s" "queue s' = queue s" "closed s' = closed s" "ctx_err s' = ctx_err s" "pc s' = pc s"
    "granted s' = granted s" "arrived s' = arrived s"
    by (simp_all add: s'1 s1_def s0)
  show "queues_ok s'"
  proof (rule queues_ok_left [OF q p _ _ _ fr(1) _ p'])
    show "set rs \<subseteq> set (r # rs)" by auto
    have "distinct (r # rs)" using q p unfolding queues_ok_def by blast
    then show "distinct rs" by simp
    show "distinct (map fst (flows s'))" using d1 reorder_flows(1) [OF d1] remove_flow_flows(1) [OF d1] by (simp add: s'1)
    show "index s' j = (if j = i then rs \<noteq> [] else index s j)" for j using ix [of i] p by (simp add: s'1 s1_def s0)
  qed
  show "\<exists>rs. pending (r_flow (req s r)) s = Some (r # rs) \<and> (\<forall>j. pending j s' = (if j = r_flow (req s r) then left rs else pending j s))"
    using p p' i by metis
qed

lemma take_first_None: "\<lbrakk>queues_ok s; take_first now s = None\<rbrakk> \<Longrightarrow> pending i s = None"
  by (auto simp: take_first_def pending_def queues_ok_def Let_def split: list.splits if_splits prod.splits)

lemma enqueue_frame [simp]:
  "queue (enqueue t s) = queue s" "req (enqueue t s) = req s" "closed (enqueue t s) = closed s"
  "ctx_err (enqueue t s) = ctx_err s" "pc (enqueue t s) = (pc s)(t := Selecting)" "granted (enqueue t s) = granted s"
  "arrived (enqueue t s) = arrived s @ [t]"
  by (simp_all add: enqueue_def Let_def)

lemma waiting_enqueue:
  assumes "queues_ok s" "\<not> waiting s t"
  shows "waiting (enqueue t s) r \<longleftrightarrow> waiting s r \<or> r = t"
  unfolding waiting_def enqueue_frame enqueue_ok(2) [OF assms] by (cases "pending (r_flow (req s t)) s") auto

lemma waiting_removeRequest:
  assumes "queues_ok s"
  shows "waiting (removeRequest (r_flow (req s t)) t s) r \<longleftrightarrow> waiting s r \<and> r \<noteq> t"
proof (cases "waiting s t")
  case False
  then show ?thesis
    unfolding waiting_def removeRequest_frame removeRequest_ok(2) [OF assms] by auto
next
  case True
  then obtain rs where rs: "pending (r_flow (req s t)) s = Some rs" "t \<in> set rs" by (auto simp: waiting_def)
  have "distinct rs" using assms rs(1) unfolding queues_ok_def by blast
  then have "set (remove1 t rs) = set rs - {t}" by (rule set_remove1_eq)
  then have "(\<exists>rs'. left (remove1 t rs) = Some rs' \<and> r \<in> set rs') \<longleftrightarrow> r \<in> set rs \<and> r \<noteq> t"
    by (metis Diff_iff empty_iff insertCI insertE left_def list.set(1) option.distinct(1) option.inject singletonD)
  then show ?thesis
    unfolding waiting_def removeRequest_frame removeRequest_ok(2) [OF assms] using rs True by (auto simp: waiting_def)
qed

lemma waiting_take_first:
  assumes "queues_ok s" "take_first now s = Some (r, s')"
  shows "waiting s' r' \<longleftrightarrow> waiting s r' \<and> r' \<noteq> r" "waiting s r"
proof -
  obtain rs where rs: "pending (r_flow (req s r)) s = Some (r # rs)"
    "\<And>j. pending j s' = (if j = r_flow (req s r) then left rs else pending j s)" and fr: "req s' = req s"
    using take_first_ok [OF assms] by blast
  have "distinct (r # rs)" using assms(1) rs(1) unfolding queues_ok_def by blast
  then show "waiting s' r' \<longleftrightarrow> waiting s r' \<and> r' \<noteq> r" "waiting s r"
    unfolding waiting_def fr using rs by (auto simp: left_def)
qed

subsection \<open>The invariant\<close>

fun holds_token :: "pc \<Rightarrow> bool" where
  "holds_token Acquired \<longleftrightarrow> True"
| "holds_token Looping \<longleftrightarrow> True"
| "holds_token (Serving r) \<longleftrightarrow> True"
| "holds_token _ \<longleftrightarrow> False"

fun active :: "pc \<Rightarrow> bool" where
  "active Idle \<longleftrightarrow> False"
| "active (Returned e) \<longleftrightarrow> False"
| "active _ \<longleftrightarrow> True"

definition being_served :: "fair_queue \<Rightarrow> nat \<Rightarrow> bool" where
  "being_served s r \<longleftrightarrow> (\<exists>h. pc s h = Serving r)"

lemma being_served_upd:
  assumes "pc s' = (pc s)(t := p)" "\<And>r. pc s t \<noteq> Serving r"
  shows "being_served s' r \<longleftrightarrow> p = Serving r \<or> being_served s r"
  using assms unfolding being_served_def by (metis fun_upd_apply)

text \<open>What a goroutine may rely on, by the place it is at.\<close>

fun place_ok :: "fair_queue \<Rightarrow> nat \<Rightarrow> pc \<Rightarrow> bool" where
  "place_ok s t Idle \<longleftrightarrow> t \<notin> set (arrived s)"
| "place_ok s t Selecting \<longleftrightarrow> waiting s t \<or> closed s t \<or> being_served s t"
| "place_ok s t Acquired \<longleftrightarrow> waiting s t \<or> closed s t"
| "place_ok s t Looping \<longleftrightarrow> waiting s t"
| "place_ok s t (Serving r) \<longleftrightarrow> r \<in> set (granted s) \<and> \<not> closed s r \<and> (r \<noteq> t \<longrightarrow> waiting s t)"
| "place_ok s t (Returned e) \<longleftrightarrow> (e = None \<longrightarrow> closed s t)"

text \<open>The requests of a flow that were granted or still wait are those that arrived, in that order.\<close>

definition of_flow :: "fair_queue \<Rightarrow> string \<Rightarrow> nat list \<Rightarrow> nat list" where
  "of_flow s i rs = filter (\<lambda>r. r_flow (req s r) = i) rs"

definition fifo :: "fair_queue \<Rightarrow> bool" where
  "fifo s \<longleftrightarrow> (\<forall>i. subseq (of_flow s i (granted s) @ (case pending i s of None \<Rightarrow> [] | Some rs \<Rightarrow> rs)) (of_flow s i (arrived s)))"

definition fq_inv :: "fair_queue \<Rightarrow> bool" where
  "fq_inv s \<longleftrightarrow> queues_ok s \<and> (\<forall>r. waiting s r \<longrightarrow> active (pc s r) \<and> r \<notin> set (granted s)) \<and>
     (\<forall>t u. holds_token (pc s t) \<longrightarrow> holds_token (pc s u) \<longrightarrow> t = u) \<and> (queue s \<longleftrightarrow> (\<exists>t. holds_token (pc s t))) \<and>
     (\<forall>t. place_ok s t (pc s t)) \<and> distinct (granted s) \<and> (\<forall>r. closed s r \<longrightarrow> r \<in> set (granted s)) \<and>
     (\<forall>r\<in>set (granted s). closed s r \<or> being_served s r) \<and> fifo s"

lemma fq_invD:
  assumes "fq_inv s"
  shows "queues_ok s" "waiting s r \<Longrightarrow> active (pc s r)" "waiting s r \<Longrightarrow> r \<notin> set (granted s)"
    "\<lbrakk>holds_token (pc s t); holds_token (pc s u)\<rbrakk> \<Longrightarrow> t = u" "queue s \<longleftrightarrow> (\<exists>t. holds_token (pc s t))"
    "place_ok s t (pc s t)" "distinct (granted s)" "closed s r \<Longrightarrow> r \<in> set (granted s)"
    "r \<in> set (granted s) \<Longrightarrow> closed s r \<or> being_served s r" "fifo s"
  using assms by (auto simp: fq_inv_def)

text \<open>A request that arrived is never idle; so an idle one is neither waiting nor granted.\<close>

lemma fifo_arrived:
  assumes "fifo s" "r \<in> set (granted s) \<or> waiting s r"
  shows "r \<in> set (arrived s)"
proof -
  let ?i = "r_flow (req s r)"
  have "subseq (of_flow s ?i (granted s) @ (case pending ?i s of None \<Rightarrow> [] | Some rs \<Rightarrow> rs)) (of_flow s ?i (arrived s))"
    using assms(1) by (simp add: fifo_def)
  moreover have "r \<in> set (of_flow s ?i (granted s) @ (case pending ?i s of None \<Rightarrow> [] | Some rs \<Rightarrow> rs))"
    using assms(2) by (auto simp: of_flow_def waiting_def)
  ultimately obtain y where "y \<in> set (of_flow s ?i (arrived s))" "r = y" by (rule list_emb_set)
  then show ?thesis by (simp add: of_flow_def)
qed

lemma fifo_same:
  assumes "fifo s" "req s' = req s" "granted s' = granted s" "arrived s' = arrived s" "\<And>i. pending i s' = pending i s"
  shows "fifo s'"
  using assms by (simp add: fifo_def of_flow_def)

lemma inv_enqueue:
  assumes inv: "fq_inv s" and t: "pc s t = Idle"
  shows "fq_inv (enqueue t s)"
proof -
  note D = fq_invD [OF inv]
  have na: "t \<notin> set (arrived s)" using D(6) [of t] t by simp
  have nw: "\<not> waiting s t" "t \<notin> set (granted s)" using na fifo_arrived [OF D(10)] by blast+
  note ok = enqueue_ok [OF D(1) nw(1)] and w = waiting_enqueue [OF D(1) nw(1)]
  have bs: "being_served (enqueue t s) r \<longleftrightarrow> being_served s r" for r
    using being_served_upd [OF enqueue_frame(5)] t by simp
  have "fifo (enqueue t s)"
    unfolding fifo_def
  proof
    fix i
    have "subseq (of_flow s i (granted s) @ (case pending i s of None \<Rightarrow> [] | Some rs \<Rightarrow> rs)) (of_flow s i (arrived s))"
      using D(10) by (simp add: fifo_def)
    then show "subseq (of_flow (enqueue t s) i (granted (enqueue t s)) @ (case pending i (enqueue t s) of None \<Rightarrow> [] | Some rs \<Rightarrow> rs))
        (of_flow (enqueue t s) i (arrived (enqueue t s)))"
      by (auto simp: of_flow_def ok(2) simp flip: append_assoc intro: list_emb_append_mono)
  qed
  moreover have "place_ok (enqueue t s) u (pc (enqueue t s) u)" for u
  proof (cases "u = t")
    case True
    then show ?thesis using w by simp
  next
    case False
    then show ?thesis using D(6) [of u] by (cases "pc s u") (auto simp: w bs)
  qed
  moreover have "holds_token (pc (enqueue t s) u) \<longleftrightarrow> holds_token (pc s u)" for u using t by simp
  moreover have "closed s r \<or> being_served (enqueue t s) r" if "r \<in> set (granted s)" for r
    using D(9) [OF that] bs by simp
  moreover have "active (pc (enqueue t s) r) \<and> r \<notin> set (granted s)" if "waiting (enqueue t s) r" for r
    using that w D(2,3) nw(2) by auto
  ultimately show ?thesis
    unfolding fq_inv_def enqueue_frame(1,3,6) using D(4,5,7,8) ok(1) by simp
qed

lemma queue_view:
  assumes "flows s' = flows s" "index s' = index s" "req s' = req s"
  shows "queues_ok s' = queues_ok s" "waiting s' r = waiting s r" "pending i s' = pending i s"
  using assms by (simp_all add: queues_ok_def waiting_def pending_def)

text \<open>Steps that move one goroutine and leave the queues alone.\<close>

lemma inv_move:
  assumes inv: "fq_inv s" and t: "\<And>r. pc s t \<noteq> Serving r"
    and same: "flows s' = flows s" "index s' = index s" "req s' = req s" "granted s' = granted s" "arrived s' = arrived s" "closed s' = closed s"
    and p: "pc s' = (pc s)(t := p)" "\<And>r. p \<noteq> Serving r"
    and tok: "queue s' \<longleftrightarrow> (if holds_token p then True else if holds_token (pc s t) then False else queue s)"
      "holds_token p \<Longrightarrow> holds_token (pc s t) \<or> \<not> queue s"
    and ok: "place_ok s t p" "waiting s t \<Longrightarrow> active p"
  shows "fq_inv s'"
proof -
  note D = fq_invD [OF inv] and v = queue_view [OF same(1-3)]
  have bs: "being_served s' r = being_served s r" for r using being_served_upd [OF p(1) t] p(2) by simp
  have place: "place_ok s' u q = place_ok s u q" for u q
    by (cases q) (auto simp: v bs same)
  have hold: "holds_token (pc s' u) \<longleftrightarrow> (if u = t then holds_token p else holds_token (pc s u))" for u using p(1) by simp
  have uniq: "u = w" if "holds_token (pc s' u)" "holds_token (pc s' w)" for u w
    using that D(4) [of u w] D(4) [of t w] D(4) [of u t] D(5) tok(2) by (auto simp: hold split: if_splits)
  moreover have "queue s' \<longleftrightarrow> (\<exists>u. holds_token (pc s' u))"
    unfolding hold tok(1) using D(5) D(4) [of t] by auto
  moreover have "place_ok s' u (pc s' u)" for u using D(6) [of u] ok(1) p(1) by (simp add: place)
  moreover have "active (pc s' r)" if "waiting s' r" for r
    using that D(2) [of r] ok(2) p(1) by (cases "r = t") (auto simp: v)
  moreover have "fifo s'" using D(10) same(3-5) v(3) by (rule fifo_same)
  ultimately show ?thesis
    unfolding fq_inv_def using D(1,3,7,8,9) by (simp add: v bs same)
qed

lemma inv_cancel: "fq_inv s \<Longrightarrow> fq_inv (s\<lparr>ctx_err := x\<rparr>)"
proof -
  have "place_ok (s\<lparr>ctx_err := x\<rparr>) t p = place_ok s t p" for t p
    by (cases p) (simp_all add: waiting_def pending_def being_served_def)
  then show "fq_inv s \<Longrightarrow> fq_inv (s\<lparr>ctx_err := x\<rparr>)"
    by (simp add: fq_inv_def queues_ok_def waiting_def pending_def being_served_def fifo_def of_flow_def)
qed

lemma subseq_remove1: "subseq (remove1 x xs) xs"
  by (induction xs) auto

lemma inv_give_up:
  assumes inv: "fq_inv s" and t: "pc s t = Selecting \<or> pc s t = Looping"
    and s': "s' = (removeRequest (r_flow (req s t)) t s)\<lparr>queue := q, pc := (pc s)(t := Returned (Some e))\<rparr>"
    and q: "q = (if pc s t = Looping then False else queue s)"
  shows "fq_inv s'"
proof -
  note D = fq_invD [OF inv]
  define s1 where "s1 = removeRequest (r_flow (req s t)) t s"
  have same: "flows s' = flows s1" "index s' = index s1" "req s' = req s1" by (simp_all add: s' s1_def)
  note v = queue_view [OF same] and ok = removeRequest_ok [where t = t, OF D(1), folded s1_def] and w = waiting_removeRequest [OF D(1), of t, folded s1_def]
  have fr: "granted s' = granted s" "arrived s' = arrived s" "closed s' = closed s" "req s' = req s" by (simp_all add: s')
  have p: "pc s' = (pc s)(t := Returned (Some e))" by (simp add: s')
  have bs: "being_served s' r = being_served s r" for r using being_served_upd [OF p] t by auto
  have place: "place_ok s' u (pc s' u)" for u
    using D(6) [of u] by (cases "u = t"; cases "pc s u") (auto simp: p v w bs fr)
  have hold: "holds_token (pc s' u) \<longleftrightarrow> u \<noteq> t \<and> holds_token (pc s u)" for u using p by simp
  have "queue s' \<longleftrightarrow> (\<exists>u. holds_token (pc s' u))"
  proof (cases "pc s t = Looping")
    case True
    then show ?thesis unfolding hold using D(4) [of t] q by (auto simp: s')
  next
    case False
    then have "\<not> holds_token (pc s t)" using t by auto
    then show ?thesis unfolding hold using D(5) q False by (auto simp: s')
  qed
  moreover have "fifo s'"
    unfolding fifo_def
  proof
    fix i
    let ?g = "of_flow s i (granted s)" and ?p = "\<lambda>s. case pending i s of None \<Rightarrow> [] | Some rs \<Rightarrow> rs"
    have "subseq (?p s') (?p s)"
      by (auto simp: v ok(2) left_def waiting_def subseq_remove1 split: option.split)
    then have "subseq (?g @ ?p s') (?g @ ?p s)" by (simp add: list_emb_append_mono)
    moreover have "subseq (?g @ ?p s) (of_flow s i (arrived s))" using D(10) by (simp add: fifo_def)
    ultimately show "subseq (of_flow s' i (granted s') @ ?p s') (of_flow s' i (arrived s'))"
      by (auto simp: fr of_flow_def intro: subseq_order.trans)
  qed
  ultimately show ?thesis
    unfolding fq_inv_def using D(2,3,4,7,8,9) ok(1) place by (auto simp: hold v w bs fr p)
qed

lemma inv_take:
  assumes inv: "fq_inv s" and t: "pc s t = Looping" and T: "take_first now s = Some (r, s1)"
    and s': "s' = s1\<lparr>pc := (pc s1)(t := Serving r), granted := granted s1 @ [r]\<rparr>"
  shows "fq_inv s'"
proof -
  note D = fq_invD [OF inv] and ok = take_first_ok [OF D(1) T] and w = waiting_take_first [OF D(1) T]
  have same: "flows s' = flows s1" "index s' = index s1" "req s' = req s1" by (simp_all add: s')
  note v = queue_view [OF same]
  have fr: "granted s' = granted s @ [r]" "arrived s' = arrived s" "closed s' = closed s" "req s' = req s" "queue s' = queue s"
    by (simp_all add: s' ok)
  have p: "pc s' = (pc s)(t := Serving r)" by (simp add: s' ok)
  have bs: "being_served s' x \<longleftrightarrow> x = r \<or> being_served s x" for x using being_served_upd [OF p] t by auto
  have nc: "\<not> closed s r" "r \<notin> set (granted s)" using D(3) [OF w(2)] D(8) by auto
  have tw: "waiting s t" using D(6) [of t] t by simp
  have hold: "holds_token (pc s' u) \<longleftrightarrow> holds_token (pc s u)" for u using p t by simp
  have only: "\<not> holds_token (pc s u)" if "u \<noteq> t" for u using D(4) [of u t] that t by auto
  have place: "place_ok s' u (pc s' u)" for u
  proof (cases "u = t")
    case True
    then show ?thesis using nc tw by (auto simp: p v w fr)
  next
    case False
    then show ?thesis using D(6) [of u] only [OF False] by (cases "pc s u") (auto simp: p v w bs fr)
  qed
  have "fifo s'"
    unfolding fifo_def
  proof
    fix i
    obtain rs where rs: "pending (r_flow (req s r)) s = Some (r # rs)"
      "\<And>j. pending j s1 = (if j = r_flow (req s r) then left rs else pending j s)" using ok(9) by blast
    have "subseq (of_flow s i (granted s) @ (case pending i s of None \<Rightarrow> [] | Some rs \<Rightarrow> rs)) (of_flow s i (arrived s))"
      using D(10) by (simp add: fifo_def)
    then show "subseq (of_flow s' i (granted s') @ (case pending i s' of None \<Rightarrow> [] | Some rs \<Rightarrow> rs)) (of_flow s' i (arrived s'))"
      using rs by (auto simp: of_flow_def fr v left_def)
  qed
  moreover have "active (pc s' x) \<and> x \<notin> set (granted s')" if "waiting s' x" for x
    using that D(2,3) [of x] p fr by (auto simp: v w)
  moreover have "closed s x \<or> being_served s' x" if "x \<in> set (granted s')" for x
    using that D(9) [of x] by (auto simp: fr bs)
  ultimately show ?thesis
    unfolding fq_inv_def hold using D(4,5,7,8) ok(1) place nc by (simp add: v(1) fr)
qed

lemma inv_finish:
  assumes inv: "fq_inv s" and t: "pc s t = Serving r"
    and s': "s' = s\<lparr>closed := (closed s)(r := True), queue := (if r = t then False else queue s),
      pc := (pc s)(t := if r = t then Returned None else Looping)\<rparr>"
  shows "fq_inv s'"
proof -
  note D = fq_invD [OF inv]
  have same: "flows s' = flows s" "index s' = index s" "req s' = req s" by (simp_all add: s')
  note v = queue_view [OF same]
  have fr: "granted s' = granted s" "arrived s' = arrived s" "closed s' = (closed s)(r := True)" by (simp_all add: s')
  have p: "pc s' = (pc s)(t := if r = t then Returned None else Looping)" by (simp add: s')
  have only: "\<not> holds_token (pc s u)" if "u \<noteq> t" for u using D(4) [of u t] that t by auto
  have g: "r \<in> set (granted s)" "\<not> closed s r" "r \<noteq> t \<Longrightarrow> waiting s t" using D(6) [of t] t by auto
  have bs: "being_served s x \<longleftrightarrow> x = r" for x
    unfolding being_served_def using t only by (metis holds_token.simps(3) pc.inject(1))
  have hold: "holds_token (pc s' u) \<longleftrightarrow> u = t \<and> r \<noteq> t" for u using p only by auto
  have place: "place_ok s' u (pc s' u)" for u
  proof (cases "u = t")
    case True
    then show ?thesis using g by (auto simp: p v fr)
  next
    case False
    then show ?thesis using D(6) [of u] only [OF False] by (cases "pc s u") (auto simp: p v bs fr)
  qed
  have "queue s" using D(5) t by (metis holds_token.simps(3))
  then have "queue s' \<longleftrightarrow> (\<exists>u. holds_token (pc s' u))" unfolding hold by (auto simp: s')
  moreover have "fifo s'" by (rule fifo_same [OF D(10)]) (simp_all add: s' pending_def)
  moreover have "active (pc s' x) \<and> x \<notin> set (granted s)" if "waiting s x" for x
    using that D(2,3) [of x] p t g by auto
  ultimately show ?thesis
    unfolding fq_inv_def using D(1,7,8,9) place g by (auto simp: hold v bs fr)
qed

lemma inv_acquire:
  assumes inv: "fq_inv s" and t: "pc s t = Selecting" "\<not> queue s"
  shows "fq_inv (s\<lparr>queue := True, pc := (pc s)(t := Acquired)\<rparr>)"
proof -
  have "\<not> being_served s t" using fq_invD(5) [OF inv] t(2) unfolding being_served_def by (metis holds_token.simps(3))
  then have p: "place_ok s t Acquired" using fq_invD(6) [OF inv, of t] t(1) by simp
  show ?thesis
    by (rule inv_move [where s = s and t = t and p = Acquired]) (use p in \<open>simp_all add: inv t\<close>)
qed

lemma inv_return:
  assumes inv: "fq_inv s" and t: "pc s t = Selecting \<or> pc s t = Acquired" and c: "closed s t"
    and q: "q = (if pc s t = Acquired then False else queue s)"
  shows "fq_inv (s\<lparr>queue := q, pc := (pc s)(t := Returned None)\<rparr>)"
proof -
  have w: "\<not> waiting s t" using fq_invD(3) [OF inv, of t] fq_invD(8) [OF inv c] by blast
  show ?thesis
    by (rule inv_move [where s = s and t = t and p = "Returned None"]) (use t w in \<open>auto simp: inv c q\<close>)
qed

lemma inv_loop:
  assumes inv: "fq_inv s" and t: "pc s t = Acquired" "\<not> closed s t"
  shows "fq_inv (s\<lparr>pc := (pc s)(t := Looping)\<rparr>)"
proof -
  have q: "queue s" using fq_invD(5) [OF inv] t(1) by (metis holds_token.simps(1))
  have p: "place_ok s t Looping" using fq_invD(6) [OF inv, of t] t by simp
  show ?thesis
    by (rule inv_move [where s = s and t = t and p = Looping]) (use p q in \<open>simp_all add: inv t\<close>)
qed

lemma inv_step: "\<lbrakk>fq_step s s'; fq_inv s\<rbrakk> \<Longrightarrow> fq_inv s'"
proof (induction rule: fq_step.induct)
  case (enqueue s t) then show ?case by (intro inv_enqueue)
next
  case (cancel s t) then show ?case by (rule inv_cancel)
next
  case (acquire s t) then show ?case by (intro inv_acquire)
next
  case (served s t)
  have "s\<lparr>queue := queue s\<rparr> = s" by simp
  then show ?case using inv_return [OF served(3), of t "queue s"] served(1,2) by simp
next
  case (give_up s t)
  show ?case
    by (rule inv_give_up [where t = t and q = "queue s" and e = "''context canceled''", OF give_up(3)])
      (auto simp: give_up(1) intro: fair_queue.equality)
next
  case (acquired_served s t)
  show ?case by (rule inv_return [OF acquired_served(3)]) (simp_all add: acquired_served)
next
  case (acquired_loop s t) then show ?case by (intro inv_loop)
next
  case (loop_give_up s t)
  show ?case by (rule inv_give_up [where t = t and q = False and e = "''context canceled''", OF loop_give_up(3)]) (simp_all add: loop_give_up(1))
next
  case (loop_take s t now r s') show ?case by (rule inv_take [OF loop_take(4,1,3) refl])
next
  case (finish s t r) show ?case by (rule inv_finish [OF finish(3,1) refl])
qed

lemma inv_init: "fq_inv (NewFairQueueLimiter now r)"
  by (simp add: fq_inv_def NewFairQueueLimiter_def queues_ok_def pending_def waiting_def fifo_def of_flow_def)

lemma inv_reachable: "fq_reachable s\<^sub>0 s \<Longrightarrow> fq_inv s\<^sub>0 \<Longrightarrow> fq_inv s"
  by (induction rule: fq_reachable.induct) (auto intro: inv_step)

subsection \<open>Progress\<close>

text \<open>A goroutine that has started has queued its request.\<close>

definition all_arrived :: "fair_queue \<Rightarrow> bool" where
  "all_arrived s \<longleftrightarrow> (\<forall>t. pc s t \<noteq> Idle \<longrightarrow> t \<in> set (arrived s))"

lemma all_arrived_upd:
  assumes "all_arrived s" "pc s' = (pc s)(t := p)" "pc s t \<noteq> Idle" "arrived s' = arrived s"
  shows "all_arrived s'"
  using assms by (simp add: all_arrived_def)

lemma all_arrived_step:
  assumes "fq_step s s'" "fq_inv s" "all_arrived s"
  shows "all_arrived s'"
  using assms
proof (induction rule: fq_step.induct)
  case (loop_take s t now r s')
  note ok = take_first_ok [OF fq_invD(1) [OF loop_take(4)] loop_take(3)]
  show ?case by (rule all_arrived_upd [where t = t and p = "Serving r", OF loop_take(5)]) (simp_all add: ok loop_take(1))
qed (auto simp: all_arrived_def)

lemma all_arrived_reachable: "fq_reachable (NewFairQueueLimiter now r) s \<Longrightarrow> fq_inv s \<and> all_arrived s"
proof (induction rule: fq_reachable.induct)
  case init
  show ?case by (simp add: inv_init) (simp add: all_arrived_def NewFairQueueLimiter_def)
next
  case (step s s')
  then show ?case using inv_step all_arrived_step by blast
qed

text \<open>What is left to do for the requests that arrived.\<close>

fun steps_left :: "pc \<Rightarrow> nat" where
  "steps_left Selecting = 3"
| "steps_left Acquired = 2"
| "steps_left Looping = 1"
| "steps_left (Serving r) = 1"
| "steps_left _ = 0"

definition work_of :: "fair_queue \<Rightarrow> nat \<Rightarrow> nat" where
  "work_of s t = steps_left (pc s t) + (if waiting s t then 1 else 0) + (if closed s t then 0 else 1)"

definition work :: "fair_queue \<Rightarrow> nat" where
  "work s = sum_list (map (work_of s) (arrived s))"

lemma work_less:
  assumes "arrived s' = arrived s" "\<And>x. work_of s' x \<le> work_of s x" "t \<in> set (arrived s)" "work_of s' t < work_of s t"
  shows "work s' < work s"
proof -
  have "sum_list (map (work_of s') xs) \<le> sum_list (map (work_of s) xs)" for xs
    using assms(2) by (simp add: sum_list_mono)
  moreover have "sum_list (map (work_of s') xs) < sum_list (map (work_of s) xs)" if "t \<in> set xs" for xs
    using that calculation assms(2,4) by (induction xs) (auto intro: add_less_le_mono add_le_less_mono)
  ultimately show ?thesis using assms(1,3) by (simp add: work_def)
qed

text \<open>A step that moves one goroutine closer to its return.\<close>

lemma work_move:
  assumes "all_arrived s" "pc s' = (pc s)(t := p)" "arrived s' = arrived s" "steps_left p < steps_left (pc s t)"
    "\<And>x. waiting s' x \<Longrightarrow> waiting s x" "closed s' = closed s"
  shows "work s' < work s"
proof (rule work_less [where t = t])
  show "work_of s' x \<le> work_of s x" for x using assms(2,4,5,6) by (auto simp: work_of_def)
  show "work_of s' t < work_of s t" using assms(2,4,5,6) by (auto simp: work_of_def)
  show "t \<in> set (arrived s)" using assms(1,4) by (cases "pc s t") (auto simp: all_arrived_def)
qed (rule assms(3))

lemma work_step:
  assumes "fq_step s s'" "fq_inv s" "all_arrived s" "arrived s' = arrived s" "pc s' \<noteq> pc s"
  shows "work s' < work s"
  using assms
proof (induction rule: fq_step.induct)
  case (acquire s t)
  then show ?case by (intro work_move [where s = s and t = t and p = Acquired]) (simp_all add: waiting_def pending_def)
next
  case (served s t)
  then show ?case by (intro work_move [where s = s and t = t and p = "Returned None"]) (simp_all add: waiting_def pending_def)
next
  case (give_up s t)
  have "waiting s x" if "waiting (removeRequest (r_flow (req s t)) t s) x" for x
    using that waiting_removeRequest [OF fq_invD(1) [OF give_up(3)]] by simp
  then show ?case using give_up
    by (intro work_move [where s = s and t = t and p = "Returned (Some ''context canceled'')"]) (simp_all add: waiting_def pending_def)
next
  case (acquired_served s t)
  then show ?case by (intro work_move [where s = s and t = t and p = "Returned None"]) (simp_all add: waiting_def pending_def)
next
  case (acquired_loop s t)
  then show ?case by (intro work_move [where s = s and t = t and p = Looping]) (simp_all add: waiting_def pending_def)
next
  case (loop_give_up s t)
  have "waiting s x" if "waiting (removeRequest (r_flow (req s t)) t s) x" for x
    using that waiting_removeRequest [OF fq_invD(1) [OF loop_give_up(3)]] by simp
  then show ?case using loop_give_up
    by (intro work_move [where s = s and t = t and p = "Returned (Some ''context canceled'')"]) (simp_all add: waiting_def pending_def)
next
  case (loop_take s t now r s1)
  let ?s = "s1\<lparr>pc := (pc s1)(t := Serving r), granted := granted s1 @ [r]\<rparr>"
  note q = fq_invD(1) [OF loop_take(4)]
  note ok = take_first_ok [OF q loop_take(3)] and w = waiting_take_first [OF q loop_take(3)]
  have w': "waiting ?s x \<longleftrightarrow> waiting s x \<and> x \<noteq> r" for x using w(1) [of x] by (simp add: waiting_def pending_def)
  note w' = this [unfolded ok]
  show ?case
  proof (rule work_less [where t = r])
    show "work_of ?s x \<le> work_of s x" for x using loop_take(1) by (simp add: work_of_def w' ok)
    show "work_of ?s r < work_of s r" using loop_take(1) w(2) by (simp add: work_of_def w' ok)
    show "r \<in> set (arrived s)" using fifo_arrived fq_invD(10) [OF loop_take(4)] w(2) by blast
  qed (simp add: ok)
next
  case (finish s t r)
  let ?s = "s\<lparr>closed := (closed s)(r := True), queue := (if r = t then False else queue s),
      pc := (pc s)(t := if r = t then Returned None else Looping)\<rparr>"
  have w: "waiting ?s x = waiting s x" for x by (simp add: waiting_def pending_def)
  have "r \<in> set (granted s)" using fq_invD(6) [OF finish(3), of t] finish(1) by simp
  then have "r \<in> set (arrived s)" using fifo_arrived fq_invD(10) [OF finish(3)] by blast
  moreover have "work_of ?s x \<le> work_of s x" for x using finish(1,2) by (auto simp: work_of_def w)
  moreover have "work_of ?s r < work_of s r" using finish(1,2) by (auto simp: work_of_def w)
  ultimately show ?case by (intro work_less [where t = r]) simp_all
qed simp_all

text \<open>The goroutine with the token can always move, and so can a waiting one when nobody has the token.\<close>

lemma looping_takes:
  assumes inv: "fq_inv s" and "pc s t = Looping"
  shows "take_first now s \<noteq> None"
proof
  assume "take_first now s = None"
  then have "pending (r_flow (req s t)) s = None" by (rule take_first_None [OF fq_invD(1) [OF inv]])
  moreover have "waiting s t" using fq_invD(6) [OF inv, of t] assms(2) by simp
  ultimately show False by (simp add: waiting_def)
qed

lemma holder_moves:
  assumes inv: "fq_inv s" and t: "holds_token (pc s t)"
  shows "\<exists>s'. fq_step s s' \<and> arrived s' = arrived s \<and> pc s' t \<noteq> pc s t"
proof (cases "pc s t")
  case Acquired
  show ?thesis
  proof (cases "closed s t")
    case True
    show ?thesis by (rule exI, rule conjI, rule fq_step.acquired_served [OF Acquired True]) (simp add: Acquired)
  next
    case False
    show ?thesis by (rule exI, rule conjI, rule fq_step.acquired_loop [OF Acquired False]) (simp add: Acquired)
  qed
next
  case Looping
  show ?thesis
  proof (cases "ctx_err s t")
    case True
    show ?thesis by (rule exI, rule conjI, rule fq_step.loop_give_up [OF Looping True]) (simp add: Looping)
  next
    case False
    obtain r s1 where T: "take_first 0 s = Some (r, s1)" using looping_takes [OF inv Looping, of 0] by auto
    note ok = take_first_ok [OF fq_invD(1) [OF inv] T]
    show ?thesis by (rule exI, rule conjI, rule fq_step.loop_take [OF Looping False T]) (simp add: Looping ok)
  qed
next
  case (Serving r)
  have "\<not> closed s r" using fq_invD(6) [OF inv, of t] Serving by simp
  then show ?thesis by - (rule exI, rule conjI, rule fq_step.finish [OF Serving], assumption, simp add: Serving)
qed (use t in auto)

lemma active_moves:
  assumes inv: "fq_inv s" and t: "active (pc s t)"
  shows "\<exists>s'. fq_step s s' \<and> arrived s' = arrived s \<and> pc s' \<noteq> pc s"
proof (cases "\<exists>u. holds_token (pc s u)")
  case True
  then obtain u where "holds_token (pc s u)" ..
  then show ?thesis using holder_moves [OF inv] by metis
next
  case False
  then have "\<not> queue s" using fq_invD(5) [OF inv] by simp
  moreover have p: "pc s t = Selecting" using t False by (cases "pc s t") (simp_all, (metis holds_token.simps(1-3))+)
  ultimately have step: "fq_step s (s\<lparr>queue := True, pc := (pc s)(t := Acquired)\<rparr>)" by (intro fq_step.acquire)
  have "((pc s)(t := Acquired)) t \<noteq> pc s t" using p by simp
  then have "(pc s)(t := Acquired) \<noteq> pc s" by metis
  with step show ?thesis by (intro exI [of _ "s\<lparr>queue := True, pc := (pc s)(t := Acquired)\<rparr>"]) simp
qed

subsection \<open>The order of the flows\<close>

definition flows_sorted :: "fair_queue \<Rightarrow> bool" where
  "flows_sorted s \<longleftrightarrow> sorted_wrt (\<lambda>f g. flow_cost s f \<le> flow_cost s g) (flows s)"

lemma flow_cost_cong: "\<lbrakk>bytes_of s' = bytes_of s; req s' = req s\<rbrakk> \<Longrightarrow> flow_cost s' = flow_cost s"
  by (rule ext) (simp add: flow_cost_def cost_of_def)

lemma reorder_target_others: "reorder_target s i c (filter (\<lambda>g. fst g \<noteq> i) xs) = reorder_target s i c xs"
  by (induction xs) auto

text \<open>What \<open>reorder\<close> finds in a sorted list: everything before it costs no more, everything from it on costs more.\<close>

lemma reorder_target_splits:
  assumes "sorted_wrt (\<lambda>f g. flow_cost s f \<le> flow_cost s g) xs" "\<forall>e\<in>set xs. fst e \<noteq> i \<and> snd e \<noteq> []" "distinct (map fst xs)"
  shows "reorder_target s i c xs = None \<Longrightarrow> \<forall>e\<in>set xs. flow_cost s e \<le> c"
    "reorder_target s i c xs = Some e \<Longrightarrow> (\<forall>g\<in>set (takeWhile (\<lambda>g. fst g \<noteq> e) xs). flow_cost s g \<le> c) \<and>
       (\<forall>g\<in>set (dropWhile (\<lambda>g. fst g \<noteq> e) xs). c \<le> flow_cost s g)"
proof -
  have target: "e \<in> fst ` set ys" if "reorder_target s i c ys = Some e" for ys e
    using that by (induction ys) (auto split: if_splits)
  show "reorder_target s i c xs = None \<Longrightarrow> \<forall>e\<in>set xs. flow_cost s e \<le> c"
    using assms by (induction xs) (auto split: if_splits)
  show "reorder_target s i c xs = Some e \<Longrightarrow> (\<forall>g\<in>set (takeWhile (\<lambda>g. fst g \<noteq> e) xs). flow_cost s g \<le> c) \<and>
       (\<forall>g\<in>set (dropWhile (\<lambda>g. fst g \<noteq> e) xs). c \<le> flow_cost s g)"
    using assms
  proof (induction xs)
    case (Cons x xs)
    show ?case
    proof (cases "c < flow_cost s x")
      case True
      then have "fst x = e" using Cons.prems(1,3) by simp
      then show ?thesis using True Cons.prems(2) by (auto intro: less_imp_le order_trans)
    next
      case False
      then have t: "reorder_target s i c xs = Some e" using Cons.prems(1,3) by simp
      then have "fst x \<noteq> e" using target [OF t] Cons.prems(4) by auto
      then show ?thesis using Cons.IH [OF t] Cons.prems False by auto
    qed
  qed simp
qed

lemma reorder_sorted:
  assumes d: "distinct (map fst (flows s))" and p: "pending i s = Some (r # rs)"
    and ne: "\<forall>f\<in>set (flows s). snd f \<noteq> []"
    and o: "sorted_wrt (\<lambda>f g. flow_cost s f \<le> flow_cost s g) (filter (\<lambda>g. fst g \<noteq> i) (flows s))"
  shows "flows_sorted (reorder i s)"
proof -
  let ?o = "filter (\<lambda>g. fst g \<noteq> i) (flows s)" and ?f = "(i, r # rs)" and ?c = "cost_of s i r"
  have fc: "flow_cost (reorder i s) = flow_cost s" by (rule flow_cost_cong) simp_all
  have f: "flow_cost s ?f = ?c" by (simp add: flow_cost_def)
  have oo: "\<forall>e\<in>set ?o. fst e \<noteq> i \<and> snd e \<noteq> []" "distinct (map fst ?o)" using d ne by (auto simp: distinct_map_filter)
  note split = reorder_target_splits [OF o oo, of ?c]
  have tgt: "reorder_target s i ?c (flows s) = reorder_target s i ?c ?o" by (simp only: reorder_target_others)
  show ?thesis
  proof (cases "reorder_target s i ?c ?o")
    case None
    then have "flows (reorder i s) = ?o @ [?f]" using p tgt by (simp add: reorder_def)
    then show ?thesis unfolding flows_sorted_def fc using o split(1) [OF None] f by (simp add: sorted_wrt_append)
  next
    case (Some e)
    let ?l = "takeWhile (\<lambda>g. fst g \<noteq> e) ?o" and ?r = "dropWhile (\<lambda>g. fst g \<noteq> e) ?o"
    have "flows (reorder i s) = ?l @ ?f # ?r" using p tgt Some by (simp add: reorder_def Let_def)
    moreover have "sorted_wrt (\<lambda>f g. flow_cost s f \<le> flow_cost s g) (?l @ ?r)" using o by simp
    ultimately show ?thesis
      unfolding flows_sorted_def fc using split(2) [OF Some] f unfolding sorted_wrt_append by (auto simp: sorted_wrt_append)
  qed
qed

lemma nonempty_flows: "queues_ok s \<Longrightarrow> \<forall>f\<in>set (flows s). snd f \<noteq> []"
  by (auto simp: queues_ok_def pending_def)

lemma enqueue_sorted:
  assumes q: "queues_ok s" and so: "flows_sorted s" and w: "\<not> waiting s t"
  shows "flows_sorted (enqueue t s)"
proof -
  define i where "i = r_flow (req s t)"
  define s1 where "s1 = (if \<not> index s i then s\<lparr>flows := (i, []) # flows s, index := (index s)(i := True)\<rparr> else s)"
  define old where "old = (case pending i s1 of None \<Rightarrow> [] | Some rs \<Rightarrow> rs)"
  define s2 where "s2 = set_pending i (old @ [t]) s1"
  have e: "enqueue t s = (reorder i s2)\<lparr>pc := (pc s1)(t := Selecting), arrived := arrived s1 @ [t]\<rparr>"
    by (simp add: enqueue_def i_def [symmetric] s1_def [symmetric] Let_def s2_def old_def)
  have ok: "queues_ok (enqueue t s)" by (rule enqueue_ok(1) [OF q w])
  have d: "distinct (map fst (flows s))" "\<And>j. index s j \<longleftrightarrow> pending j s \<noteq> None" using q by (auto simp: queues_ok_def)
  have d1: "distinct (map fst (flows s1))" "pending i s1 \<noteq> None" using d d(2) [of i] by (auto simp: s1_def pending_def map_of_eq_None_iff)
  have d2: "distinct (map fst (flows s2))" using d1 by (simp add: s2_def set_pending_flows)
  have p2: "pending i s2 = Some (old @ [t])" using d1(2) by (simp add: s2_def set_pending_flows)
  have others: "filter (\<lambda>g. fst g \<noteq> i) (flows s2) = filter (\<lambda>g. fst g \<noteq> i) (flows s)"
  proof -
    have "filter (\<lambda>g. fst g \<noteq> i) (map (\<lambda>f. if fst f = i then (i, v) else f) xs) = filter (\<lambda>g. fst g \<noteq> i) xs" for v and xs :: "(string \<times> nat list) list"
      by (induction xs) auto
    then show ?thesis by (simp add: s2_def set_pending_def s1_def)
  qed
  have fc: "flow_cost s2 = flow_cost s" by (rule flow_cost_cong) (simp_all add: s2_def s1_def)
  have ne: "\<forall>f\<in>set (flows s2). snd f \<noteq> []"
    using nonempty_flows [OF q] by (auto simp: s2_def set_pending_def s1_def)
  obtain r rs where rs: "old @ [t] = r # rs" by (cases "old @ [t]") auto
  have "flows_sorted (reorder i s2)"
    using so by (intro reorder_sorted [OF d2 p2 [unfolded rs] ne]) (simp add: others fc flows_sorted_def sorted_wrt_filter)
  then show ?thesis using e by (simp add: flows_sorted_def flow_cost_def cost_of_def)
qed

lemma take_first_sorted:
  assumes q: "queues_ok s" and so: "flows_sorted s" and T: "take_first now s = Some (r, s')"
  shows "\<forall>f\<in>set (flows s). cost_of s (r_flow (req s r)) r \<le> flow_cost s f" "now \<le> reset_at s \<Longrightarrow> flows_sorted s'"
proof -
  obtain i rs fs where f: "flows s = (i, r # rs) # fs"
    using T by (auto simp: take_first_def Let_def split: list.splits prod.splits if_splits)
  have "pending i s = Some (r # rs)" using f by (simp add: pending_def)
  then have i: "r_flow (req s r) = i" using q by (auto simp: queues_ok_def)
  show "\<forall>f\<in>set (flows s). cost_of s (r_flow (req s r)) r \<le> flow_cost s f"
    using so f i by (auto simp: flows_sorted_def flow_cost_def)
  assume "now \<le> reset_at s"
  define s1 where "s1 = set_pending i rs (s\<lparr>bytes_of := (bytes_of s)(i := bytes_of s i + r_n (req s r))\<rparr>)"
  have s': "s' = (if rs = [] then remove_flow i s1 else reorder i s1)"
    using T \<open>now \<le> reset_at s\<close> f by (auto simp: take_first_def s1_def Let_def)
  have d: "distinct (map fst (flows s))" using q by (simp add: queues_ok_def)
  have fresh: "\<forall>g\<in>set fs. fst g \<noteq> i" using d f by force
  then have "map (\<lambda>f. if fst f = i then (i, rs) else f) fs = fs" by (simp add: map_idI)
  then have f1: "flows s1 = (i, rs) # fs" by (simp add: s1_def set_pending_def f)
  have fc: "flow_cost s1 g = flow_cost s g" if "g \<in> set fs" for g using fresh that by (simp add: s1_def flow_cost_def cost_of_def)
  have sfs: "sorted_wrt (\<lambda>f g. flow_cost s1 f \<le> flow_cost s1 g) fs"
    using so f fc by (auto simp: flows_sorted_def intro: sorted_wrt_mono_rel [rotated])
  have flt: "filter (\<lambda>g. fst g \<noteq> i) (flows s1) = fs" using fresh f1 by (simp add: filter_id_conv)
  show "flows_sorted s'"
  proof (cases rs)
    case Nil
    have "flow_cost (remove_flow i s1) = flow_cost s1" by (rule flow_cost_cong) (simp_all add: remove_flow_def)
    then show ?thesis using Nil s' flt sfs by (simp add: flows_sorted_def) (simp add: remove_flow_def)
  next
    case (Cons r' rs')
    have "distinct (map fst (flows s1))" "pending i s1 = Some (r' # rs')" using d f f1 Cons by (simp_all add: pending_def)
    moreover have "\<forall>f\<in>set (flows s1). snd f \<noteq> []" using nonempty_flows [OF q] f f1 Cons by auto
    ultimately show ?thesis using Cons s' flt sfs by (simp add: reorder_sorted)
  qed
qed

subsection \<open>The properties of the fair queue\<close>

text \<open>C32. In every state that the goroutines of \<open>WaitN\<close> can reach from \<open>NewFairQueueLimiter\<close>, in any
  interleaving and with any contexts cancelled, at most one of them holds the token of the channel, none is about to take
  the front of an empty list, and none is about to close a closed channel.\<close>

theorem fair_queue_safe:
  assumes "fq_reachable (NewFairQueueLimiter now r) s"
  shows "\<not> fq_panics s t \<and> (holds_token (pc s t) \<and> holds_token (pc s u) \<longrightarrow> t = u)"
proof -
  have inv: "fq_inv s" by (rule inv_reachable [OF assms inv_init])
  have "\<not> fq_panics s t"
    using fq_invD(6) [OF inv, of t] looping_takes [OF inv, of t] by (auto simp: fq_panics_def split: pc.split)
  then show ?thesis using fq_invD(4) [OF inv] by blast
qed

text \<open>Two requests of different flows: the cheaper one is served first, by the goroutine of the other.\<close>

definition two_requests :: "nat \<Rightarrow> request" where
  "two_requests t = (if t = 0 then \<lparr>r_flow = ''a'', r_n = 3\<rparr> else \<lparr>r_flow = ''b'', r_n = 1\<rparr>)"

definition two_queued :: fair_queue where
  "two_queued = enqueue 1 (enqueue 0 (NewFairQueueLimiter 0 two_requests))"

lemmas fq_eval = Let_def enqueue_def reorder_def pending_def set_pending_def cost_of_def flow_cost_def NewFairQueueLimiter_def two_requests_def

lemma two_queued_flows:
  "flows two_queued = [(''b'', [1]), (''a'', [0])]" "pc two_queued 0 = Selecting" "queue two_queued = False" "granted two_queued = []"
  "req two_queued = two_requests" "arrived two_queued = [0, 1]" "closed two_queued 0 = False" "ctx_err two_queued 0 = False"
  by (simp_all add: two_queued_def) (simp_all add: fq_eval)

lemma two_queued_reachable: "fq_reachable (NewFairQueueLimiter 0 two_requests) two_queued"
  unfolding two_queued_def
  by (intro fq_reachable.step [OF fq_reachable.step [OF fq_reachable.init fq_step.enqueue] fq_step.enqueue])
    (simp_all add: NewFairQueueLimiter_def)

lemma two_requests_run:
  "\<exists>s. fq_reachable (NewFairQueueLimiter 0 two_requests) s \<and> pc s 0 = Serving 1 \<and> granted s = [1] \<and> arrived s = [0, 1]"
proof -
  let ?s1 = "two_queued\<lparr>queue := True, pc := (pc two_queued)(0 := Acquired)\<rparr>"
  let ?s2 = "?s1\<lparr>pc := (pc ?s1)(0 := Looping)\<rparr>"
  have "fq_reachable (NewFairQueueLimiter 0 two_requests) ?s1"
    by (rule fq_reachable.step [OF two_queued_reachable fq_step.acquire]) (simp_all add: two_queued_flows)
  then have s2: "fq_reachable (NewFairQueueLimiter 0 two_requests) ?s2"
    by (rule fq_reachable.step [OF _ fq_step.acquired_loop]) (simp_all add: two_queued_flows)
  obtain s3 where T: "take_first 0 ?s2 = Some (1, s3)"
    by (auto simp: take_first_def two_queued_flows Let_def)
  have "queues_ok ?s2" by (rule fq_invD(1) [OF inv_reachable [OF s2 inv_init]])
  note ok = take_first_ok [OF this T]
  have "fq_reachable (NewFairQueueLimiter 0 two_requests) (s3\<lparr>pc := (pc s3)(0 := Serving 1), granted := granted s3 @ [1]\<rparr>)"
    by (rule fq_reachable.step [OF s2 fq_step.loop_take [OF _ _ T]]) (simp_all add: two_queued_flows)
  moreover have "granted s3 = []" "arrived s3 = [0, 1]" using ok(7,8) by (simp_all add: two_queued_flows)
  ultimately show ?thesis by fastforce
qed

theorem fair_queue_safe_witness:
  "\<exists>s. fq_reachable (NewFairQueueLimiter 0 two_requests) s \<and> pc s 0 = Serving 1 \<and> \<not> fq_panics s 0 \<and> \<not> holds_token (pc s 1)"
proof -
  obtain s where s: "fq_reachable (NewFairQueueLimiter 0 two_requests) s" "pc s 0 = Serving 1" using two_requests_run by blast
  then show ?thesis using fair_queue_safe [OF s(1), of 0 1] by auto
qed

text \<open>C33. No request is passed to the limiter twice, the requests of one flow are passed in the order they
  arrived, and a \<open>WaitN\<close> that returns nil has had its request passed to the limiter.\<close>

theorem fair_queue_fifo:
  assumes "fq_reachable (NewFairQueueLimiter now r) s"
  shows "distinct (granted s) \<and> subseq (of_flow s i (granted s)) (of_flow s i (arrived s)) \<and> (pc s t = Returned None \<longrightarrow> t \<in> set (granted s))"
proof -
  have inv: "fq_inv s" by (rule inv_reachable [OF assms inv_init])
  note D = fq_invD [OF inv]
  have "subseq (of_flow s i (granted s) @ (case pending i s of None \<Rightarrow> [] | Some rs \<Rightarrow> rs)) (of_flow s i (arrived s))"
    using D(10) by (simp add: fifo_def)
  then have "subseq (of_flow s i (granted s)) (of_flow s i (arrived s))" by (rule subseq_order.trans [rotated]) (simp add: prefix_imp_subseq)
  moreover have "pc s t = Returned None \<longrightarrow> t \<in> set (granted s)" using D(6) [of t] D(8) [of t] by auto
  ultimately show ?thesis using D(7) by blast
qed

theorem fair_queue_fifo_witness:
  "\<exists>s. fq_reachable (NewFairQueueLimiter 0 two_requests) s \<and> granted s = [1] \<and> arrived s = [0, 1] \<and>
     subseq (of_flow s ''b'' (granted s)) (of_flow s ''b'' (arrived s))"
proof -
  obtain s where s: "fq_reachable (NewFairQueueLimiter 0 two_requests) s" "granted s = [1]" "arrived s = [0, 1]"
    using two_requests_run by blast
  then show ?thesis using fair_queue_fifo [OF s(1), of "''b''" 0] by blast
qed

text \<open>C34. The queue never blocks for good. As long as a \<open>WaitN\<close> has not returned, some goroutine can take
  a step without a new request, and every such step lowers the finite amount of work left; so once requests stop arriving,
  every schedule ends with all of them returned.\<close>

theorem fair_queue_progress:
  assumes "fq_reachable (NewFairQueueLimiter now r) s"
  shows "(active (pc s t) \<longrightarrow> (\<exists>s'. fq_step s s' \<and> arrived s' = arrived s \<and> pc s' \<noteq> pc s)) \<and>
    (\<forall>s'. fq_step s s' \<and> arrived s' = arrived s \<and> pc s' \<noteq> pc s \<longrightarrow> work s' < work s)"
  using all_arrived_reachable [OF assms] active_moves work_step by blast

theorem fair_queue_progress_witness:
  "\<exists>s'. fq_step two_queued s' \<and> arrived s' = [0, 1] \<and> pc s' \<noteq> pc two_queued \<and> work s' < work two_queued"
  using fair_queue_progress [OF two_queued_reachable, of 0] by (auto simp: two_queued_flows)



end
