(* ===== verification/Ja3.thy ===== *)
theory Ja3
  imports Prelude "HOL-Library.Multiset"
begin

section \<open>TLS fingerprints (\<open>common/ja3\<close>)\<close>

text \<open>
  The parser of TLS client hellos that the sniffers use. Index and slice expressions that are out of
  range panic (\<open>None\<close>). The loop over the extensions advances by a 16-bit sum that wraps, so it is not
  clear that it ends: it is a \<open>partial_function\<close>, and the functions that call it return
  \<open>None\<close> when they do not return, \<open>Some None\<close> when they panic, and otherwise the error, if any,
  and the hello as far as it is filled in.
\<close>

record ClientHello =
  ch_Version :: u16
  ch_CipherSuites :: "u16 list"
  ch_Extensions :: "u16 list"
  ch_EllipticCurves :: "u16 list"
  ch_EllipticCurvePF :: "u8 list"
  ch_Versions :: "u16 list"
  ch_SignatureAlgorithms :: "u16 list"
  ch_ServerName :: "byte list"

definition empty_hello :: ClientHello where
  "empty_hello = \<lparr>ch_Version = 0, ch_CipherSuites = [], ch_Extensions = [], ch_EllipticCurves = [],
     ch_EllipticCurvePF = [], ch_Versions = [], ch_SignatureAlgorithms = [], ch_ServerName = []\<rparr>"

datatype ParseError =
    LengthErr nat
  | ContentTypeErr
  | VersionErr nat
  | HandshakeTypeErr
  | SNITypeErr

text \<open>The expression \<open>uint16(b[i])<<8 | uint16(b[i+1])\<close>, and the loops that read lists of such values.\<close>

definition u16_at :: "byte list \<Rightarrow> nat \<Rightarrow> u16 option" where
  "u16_at b i = do { h \<leftarrow> index_at b i; l \<leftarrow> index_at b (i + 1); Some (push_bit 8 (ucast h) OR ucast l) }"

fun read_pairs :: "byte list \<Rightarrow> nat \<Rightarrow> nat \<Rightarrow> u16 list option" where
  "read_pairs b i 0 = Some []"
| "read_pairs b i (Suc n) = do { v \<leftarrow> u16_at b i; vs \<leftarrow> read_pairs b (i + 2) n; Some (v # vs) }"

function read_step2 :: "byte list \<Rightarrow> nat \<Rightarrow> nat \<Rightarrow> u16 list option" where
  "read_step2 b i n =
     (if i < n then do { t \<leftarrow> slice_from i b; v \<leftarrow> Uint16 t; vs \<leftarrow> read_step2 b (i + 2) n; Some (v # vs) }
      else Some [])"
  by auto
termination read_step2
  by (relation "measure (\<lambda>(b, i, n). n - i)") auto

declare read_step2.simps [simp del]

subsection \<open>Extensions\<close>

text \<open>The local variables of \<open>parseExtensions\<close>.\<close>

record exts =
  x_sni :: "byte list"
  x_extensions :: "u16 list"
  x_curves :: "u16 list"
  x_pf :: "u8 list"
  x_versions :: "u16 list"
  x_sigs :: "u16 list"

definition no_exts :: exts where
  "no_exts = \<lparr>x_sni = [], x_extensions = [], x_curves = [], x_pf = [], x_versions = [], x_sigs = []\<rparr>"

text \<open>The \<open>switch\<close> over the type of an extension with body \<open>sex\<close>.\<close>

definition parse_sni :: "byte list \<Rightarrow> exts \<Rightarrow> (ParseError + exts) option" where
  "parse_sni sex a =
     (if length sex < 5 then Some (Inl (LengthErr 13))
      else do {
        sniType \<leftarrow> index_at sex 2;
        sniLen \<leftarrow> u16_at sex 3;
        sex \<leftarrow> slice_from 5 sex;
        Some (if length sex \<noteq> unat sniLen then Inl (LengthErr 14)
              else if sniType = 0 then Inr (a\<lparr>x_sni := sex\<rparr>) else Inl SNITypeErr) })"

definition parse_curves :: "byte list \<Rightarrow> exts \<Rightarrow> (ParseError + exts) option" where
  "parse_curves sex a =
     (if length sex < 2 then Some (Inl (LengthErr 15))
      else do {
        ecsLen \<leftarrow> u16_at sex 0;
        sex \<leftarrow> slice_from 2 sex;
        if length sex \<noteq> unat ecsLen then Some (Inl (LengthErr 16))
        else do { cs \<leftarrow> read_pairs sex 0 (unat (ecsLen div 2)); Some (Inr (a\<lparr>x_curves := cs\<rparr>)) } })"

definition parse_formats :: "byte list \<Rightarrow> exts \<Rightarrow> (ParseError + exts) option" where
  "parse_formats sex a =
     (if length sex < 1 then Some (Inl (LengthErr 17))
      else do {
        ecpfsLen \<leftarrow> index_at sex 0;
        sex \<leftarrow> slice_from 1 sex;
        if length sex \<noteq> unat ecpfsLen then Some (Inl (LengthErr 18))
        else Some (Inr (a\<lparr>x_pf := sex\<rparr>)) })"

definition parse_versions :: "byte list \<Rightarrow> exts \<Rightarrow> (ParseError + exts) option" where
  "parse_versions sex a =
     (if length sex < 1 then Some (Inl (LengthErr 19))
      else do {
        versionsLen \<leftarrow> index_at sex 0;
        t \<leftarrow> slice_from 1 sex;
        vs \<leftarrow> read_step2 t 0 (unat versionsLen);
        Some (Inr (a\<lparr>x_versions := x_versions a @ vs\<rparr>)) })"

definition parse_signatures :: "byte list \<Rightarrow> exts \<Rightarrow> (ParseError + exts) option" where
  "parse_signatures sex a =
     (if length sex < 2 then Some (Inl (LengthErr 20))
      else do {
        ssaLen \<leftarrow> Uint16 sex;
        t \<leftarrow> slice_from 2 sex;
        vs \<leftarrow> read_step2 t 0 (unat ssaLen);
        Some (Inr (a\<lparr>x_sigs := x_sigs a @ vs\<rparr>)) })"

definition parse_extension :: "u16 \<Rightarrow> byte list \<Rightarrow> exts \<Rightarrow> (ParseError + exts) option" where
  "parse_extension exType sex a =
     (if exType = 0 then parse_sni sex a
      else if exType = 10 then parse_curves sex a
      else if exType = 11 then parse_formats sex a
      else if exType = 43 then parse_versions sex a
      else if exType = 13 then parse_signatures sex a
      else Some (Inr a))"

text \<open>One iteration of the loop: the result of the loop, or the rest to go on with. The last slice
  expression adds in 16 bits.\<close>

definition ext_step :: "byte list \<Rightarrow> exts \<Rightarrow> ((ParseError + exts) + (byte list \<times> exts)) option" where
  "ext_step exs a =
     (if length exs = 0 then Some (Inl (Inr a))
      else if length exs < 4 then Some (Inl (Inl (LengthErr 11)))
      else do {
        exType \<leftarrow> u16_at exs 0;
        exLen \<leftarrow> u16_at exs 2;
        let a = a\<lparr>x_extensions := x_extensions a @ [exType]\<rparr>;
        if length exs < 4 + unat exLen then Some (Inl (Inl (LengthErr 12)))
        else do {
          r \<leftarrow> parse_extension exType (take (unat exLen) (drop 4 exs)) a;
          case r of
            Inl e \<Rightarrow> Some (Inl (Inl e))
          | Inr a \<Rightarrow> do { exs \<leftarrow> slice_from (unat (4 + exLen)) exs; Some (Inr (exs, a)) } } })"

partial_function (option) ext_loop :: "byte list \<Rightarrow> exts \<Rightarrow> (ParseError + exts) option option" where
  "ext_loop exs a =
     (case ext_step exs a of
        None \<Rightarrow> Some None
      | Some (Inl r) \<Rightarrow> Some (Some r)
      | Some (Inr (exs', a')) \<Rightarrow> ext_loop exs' a')"

type_synonym parsed = "(ParseError option \<times> ClientHello) option option"

definition parseExtensions :: "ClientHello \<Rightarrow> byte list \<Rightarrow> parsed" where
  "parseExtensions j exs =
     (if length exs = 0 then Some (Some (None, j))
      else if length exs < 2 then Some (Some (Some (LengthErr 9), j))
      else case (do { exsLen \<leftarrow> u16_at exs 0; exs \<leftarrow> slice_from 2 exs; Some (exsLen, exs) }) of
        None \<Rightarrow> Some None
      | Some (exsLen, exs) \<Rightarrow>
          if length exs < unat exsLen then Some (Some (Some (LengthErr 10), j))
          else case ext_loop exs no_exts of
            None \<Rightarrow> None
          | Some None \<Rightarrow> Some None
          | Some (Some (Inl e)) \<Rightarrow> Some (Some (Some e, j))
          | Some (Some (Inr a)) \<Rightarrow> Some (Some (None, j\<lparr>ch_ServerName := x_sni a, ch_Extensions := x_extensions a,
              ch_EllipticCurves := x_curves a, ch_EllipticCurvePF := x_pf a, ch_Versions := x_versions a,
              ch_SignatureAlgorithms := x_sigs a\<rparr>)))"

subsection \<open>Handshake and record\<close>

definition version_supported :: "u16 \<Rightarrow> bool" where
  "version_supported v \<longleftrightarrow> v AND 0xFFFC = 0x0300 \<or> v = 0x0304"

text \<open>The part of \<open>parseHandshake\<close> before the extensions: the error or the extension bytes.\<close>

definition handshake_prefix :: "ClientHello \<Rightarrow> byte list \<Rightarrow> (ClientHello \<times> (ParseError + byte list)) option" where
  "handshake_prefix j hs =
     (if length hs < 39 then Some (j, Inl (LengthErr 3))
      else do {
        handshType \<leftarrow> index_at hs 0;
        if handshType \<noteq> 1 then Some (j, Inl HandshakeTypeErr)
        else do {
          h1 \<leftarrow> index_at hs 1; h2 \<leftarrow> index_at hs 2; h3 \<leftarrow> index_at hs 3;
          let handshakeLen = (push_bit 16 (ucast h1) OR push_bit 8 (ucast h2) OR ucast h3 :: u32);
          if length hs - 4 \<noteq> unat handshakeLen then Some (j, Inl (LengthErr 4))
          else do {
            tlsVersion \<leftarrow> u16_at hs 4;
            if \<not> version_supported tlsVersion then Some (j, Inl (VersionErr 2))
            else do {
              let j = j\<lparr>ch_Version := tlsVersion\<rparr>;
              sessionIDLen \<leftarrow> index_at hs 38;
              if length hs < 39 + unat sessionIDLen then Some (j, Inl (LengthErr 5))
              else do {
                cs \<leftarrow> slice_from (39 + unat sessionIDLen) hs;
                if length cs < 2 then Some (j, Inl (LengthErr 6))
                else do {
                  csLen \<leftarrow> u16_at cs 0;
                  if length cs < 2 + unat csLen + 1 then Some (j, Inl (LengthErr 7))
                  else do {
                    cipherSuites \<leftarrow> read_pairs cs 2 (unat (csLen div 2));
                    let j = j\<lparr>ch_CipherSuites := cipherSuites\<rparr>;
                    compressMethodLen \<leftarrow> index_at cs (2 + unat csLen);
                    if length cs < 2 + unat csLen + 1 + unat compressMethodLen then Some (j, Inl (LengthErr 8))
                    else do {
                      exs \<leftarrow> slice_from (2 + unat csLen + 1 + unat compressMethodLen) cs;
                      Some (j, Inr exs) } } } } } } } })"

definition parseHandshake :: "ClientHello \<Rightarrow> byte list \<Rightarrow> parsed" where
  "parseHandshake j hs =
     (case handshake_prefix j hs of
        None \<Rightarrow> Some None
      | Some (j, Inl e) \<Rightarrow> Some (Some (Some e, j))
      | Some (j, Inr exs) \<Rightarrow> parseExtensions j exs)"

text \<open>The part of \<open>parseSegment\<close> before the handshake: the error or the handshake bytes.\<close>

definition segment_prefix :: "byte list \<Rightarrow> (ParseError + byte list) option" where
  "segment_prefix segment =
     (if length segment < 5 then Some (Inl (LengthErr 1))
      else do {
        contType \<leftarrow> index_at segment 0;
        if contType \<noteq> 22 then Some (Inl ContentTypeErr)
        else do {
          tlsRecordVersion \<leftarrow> u16_at segment 1;
          if \<not> version_supported tlsRecordVersion then Some (Inl (VersionErr 1))
          else do {
            segmentLen \<leftarrow> u16_at segment 3;
            rest \<leftarrow> slice_from 5 segment;
            if length rest < unat segmentLen then Some (Inl (LengthErr 2))
            else Some (Inr (take (unat segmentLen) rest)) } } })"

definition parseSegment :: "ClientHello \<Rightarrow> byte list \<Rightarrow> parsed" where
  "parseSegment j segment =
     (case segment_prefix segment of
        None \<Rightarrow> Some None
      | Some (Inl e) \<Rightarrow> Some (Some (Some e, j))
      | Some (Inr hs) \<Rightarrow> parseHandshake j hs)"

definition Compute :: "byte list \<Rightarrow> parsed" where
  "Compute payload = parseSegment empty_hello payload"

subsection \<open>Comparing and printing hellos\<close>

definition sortedExtensions :: "ClientHello \<Rightarrow> u16 list" where
  "sortedExtensions j = sort (ch_Extensions j)"

definition Equals :: "ClientHello \<Rightarrow> ClientHello \<Rightarrow> bool \<Rightarrow> bool" where
  "Equals j another ignoreExtensionsSequence \<longleftrightarrow>
     (if ch_Version j \<noteq> ch_Version another then False
      else if ch_CipherSuites j \<noteq> ch_CipherSuites another then False
      else if \<not> ignoreExtensionsSequence \<and> ch_Extensions j \<noteq> ch_Extensions another then False
      else if ignoreExtensionsSequence \<and> ch_Extensions j \<noteq> sortedExtensions another then False
      else if ch_EllipticCurves j \<noteq> ch_EllipticCurves another then False
      else if ch_EllipticCurvePF j \<noteq> ch_EllipticCurvePF another then False
      else if ch_SignatureAlgorithms j \<noteq> ch_SignatureAlgorithms another then False
      else True)"

text \<open>\<open>strconv.AppendUint\<close> in base ten, and \<open>b[len(b)-1] = v\<close>.\<close>

fun digits :: "nat \<Rightarrow> byte list" where
  "digits n = (if n < 10 then [of_nat (48 + n)] else digits (n div 10) @ [of_nat (48 + n mod 10)])"

declare digits.simps [simp del]

definition set_last :: "byte list \<Rightarrow> byte \<Rightarrow> byte list option" where
  "set_last b v = (if b = [] then None else Some (b[length b - 1 := v]))"

text \<open>The loop over the values of one field, and the field.\<close>

fun marshal_values :: "u16 list \<Rightarrow> byte list \<Rightarrow> byte list" where
  "marshal_values [] b = b"
| "marshal_values (val # vals) b =
     (if val AND 0x0F0F \<noteq> 0x0A0A then marshal_values vals b
      else marshal_values vals (b @ digits (unat val) @ [45]))"

definition marshal_field :: "u16 list \<Rightarrow> byte list \<Rightarrow> byte list option" where
  "marshal_field vals b = (if length vals \<noteq> 0 then set_last (marshal_values vals b) 44 else Some (b @ [44]))"

fun marshal_formats :: "u8 list \<Rightarrow> byte list \<Rightarrow> byte list" where
  "marshal_formats [] b = b"
| "marshal_formats (val # vals) b = marshal_formats vals (b @ digits (unat val) @ [45])"

definition marshalJA3 :: "ClientHello \<Rightarrow> byte list option" where
  "marshalJA3 j =
     do {
       let b = digits (unat (ch_Version j)) @ [44];
       b \<leftarrow> marshal_field (ch_CipherSuites j) b;
       b \<leftarrow> marshal_field (ch_Extensions j) b;
       b \<leftarrow> marshal_field (ch_EllipticCurves j) b;
       if length (ch_EllipticCurvePF j) \<noteq> 0 then do {
         let b = marshal_formats (ch_EllipticCurvePF j) b;
         if b = [] then None else Some (take (length b - 1) b) }
       else Some b }"

subsection \<open>Reading\<close>

lemma drop_two: "i + 2 \<le> length b \<Longrightarrow> drop i b = b ! i # b ! Suc i # drop (i + 2) b"
  using Cons_nth_drop_Suc [of i b] Cons_nth_drop_Suc [of "Suc i" b] by simp

lemma u16_at_rd16 [panic_simps]: "i + 2 \<le> length b \<Longrightarrow> u16_at b i = Some (rd16 (drop i b))"
  using drop_two [of i b] by (simp add: u16_at_def index_at_def rd16_def)

lemma read_pairs_total: "i + 2 * n \<le> length b \<Longrightarrow> \<exists>vs. read_pairs b i n = Some vs"
proof (induction n arbitrary: i)
  case (Suc n)
  obtain vs where "read_pairs b (i + 2) n = Some vs" using Suc.IH [of "i + 2"] Suc.prems by auto
  then show ?case using Suc.prems by (simp add: panic_simps)
qed simp

text \<open>The step-two loop rounds the byte count up to an even one, and panics exactly if that is too long.\<close>

lemma read_step2_panics: "read_step2 b i n = None \<longleftrightarrow> i < n \<and> length b < i + 2 * ((n - i + 1) div 2)"
proof (induction b i n rule: read_step2.induct)
  case (1 b i n)
  show ?case
  proof (cases "i < n")
    case True
    have half: "2 * ((n - i + 1) div 2) = (if i + 2 < n then 2 + 2 * ((n - (i + 2) + 1) div 2) else 2)"
    proof (cases "i + 2 < n")
      case True
      then obtain k where "n = i + 2 + k" using less_imp_add_positive by blast
      then show ?thesis using True by simp
    next
      case False
      then have "n - i = 1 \<or> n - i = 2" using \<open>i < n\<close> by auto
      then show ?thesis using False by auto
    qed
    show ?thesis
    proof (cases "i + 2 \<le> length b")
      case len: True
      then have u: "slice_from i b = Some (drop i b)" "Uint16 (drop i b) = Some (rd16 (drop i b))" by (simp_all add: panic_simps)
      have "read_step2 b i n = None \<longleftrightarrow> read_step2 b (i + 2) n = None"
        by (subst read_step2.simps) (simp add: True u split: bind_splits)
      also have "\<dots> \<longleftrightarrow> i + 2 < n \<and> length b < i + 2 + 2 * ((n - (i + 2) + 1) div 2)" by (rule 1 [OF True u])
      finally show ?thesis using True len half by auto
    next
      case False
      have "Uint16 (drop i b) = None" using False by (cases "drop i b" rule: Uint16.cases) (auto dest: arg_cong [where f = length])
      then have "read_step2 b i n = None" by (subst read_step2.simps) (simp add: True slice_from_def)
      then show ?thesis using False True half by auto
    qed
  next
    case False
    then show ?thesis by (subst read_step2.simps) simp
  qed
qed

text \<open>Reading back lists of 16-bit values.\<close>

definition be16s :: "u16 list \<Rightarrow> byte list" where
  "be16s vs = concat (map be16 vs)"

lemma length_be16s [simp]: "length (be16s vs) = 2 * length vs"
  by (induction vs) (simp_all add: be16s_def)

lemma rd16_be16 [be_simps]: "rd16 (be16 v @ r) = v"
  by (simp add: rd16_def be_simps)

lemma read_pairs_be16s: "read_pairs (pre @ be16s vs @ post) (length pre) (length vs) = Some vs"
proof (induction vs arbitrary: pre)
  case (Cons v vs)
  have "read_pairs ((pre @ be16 v) @ be16s vs @ post) (length (pre @ be16 v)) (length vs) = Some vs" by (rule Cons.IH)
  then show ?case by (simp add: be16s_def panic_simps be_simps)
qed simp

lemma read_step2_be16s: "read_step2 (pre @ be16s vs @ post) (length pre) (length pre + 2 * length vs) = Some vs"
proof (induction vs arbitrary: pre)
  case Nil
  then show ?case by (simp add: read_step2.simps)
next
  case (Cons v vs)
  have "read_step2 ((pre @ be16 v) @ be16s vs @ post) (length (pre @ be16 v)) (length (pre @ be16 v) + 2 * length vs) = Some vs" by (rule Cons.IH)
  then show ?case by (subst read_step2.simps) (simp add: be16s_def panic_simps be_simps)
qed

subsection \<open>When an extension panics\<close>

text \<open>The declared length of the list in an extension of supported versions or signature algorithms is not checked
  against the extension.\<close>

definition overruns :: "u16 \<Rightarrow> byte list \<Rightarrow> bool" where
  "overruns t sex \<longleftrightarrow>
     t = 43 \<and> 1 \<le> length sex \<and> length sex < 1 + 2 * ((unat (sex ! 0) + 1) div 2) \<or>
     t = 13 \<and> 2 \<le> length sex \<and> length sex < 2 + 2 * ((unat (rd16 sex) + 1) div 2)"

lemma parse_extension_panics: "parse_extension t sex a = None \<longleftrightarrow> overruns t sex"
proof -
  have "parse_sni sex a \<noteq> None" by (simp add: parse_sni_def panic_simps)
  moreover have "parse_curves sex a \<noteq> None"
  proof (cases "2 \<le> length sex \<and> length sex - 2 = unat (rd16 sex)")
    case True
    then obtain vs where "read_pairs (drop 2 sex) 0 (unat (rd16 sex) div 2) = Some vs"
      using read_pairs_total [of 0 "unat (rd16 sex) div 2" "drop 2 sex"] by auto
    then show ?thesis using True by (simp add: parse_curves_def panic_simps unat_div)
  qed (auto simp: parse_curves_def panic_simps)
  moreover have "parse_formats sex a \<noteq> None" by (auto simp: parse_formats_def index_at_def slice_from_def Suc_le_eq)
  moreover have "parse_versions sex a = None \<longleftrightarrow> overruns 43 sex"
  proof (cases sex)
    case (Cons b bs)
    have "parse_versions sex a = None \<longleftrightarrow> read_step2 bs 0 (unat b) = None"
      by (auto simp: parse_versions_def Cons index_at_def slice_from_def split: bind_splits)
    then show ?thesis by (auto simp: read_step2_panics overruns_def Cons)
  qed (simp add: parse_versions_def overruns_def)
  moreover have "parse_signatures sex a = None \<longleftrightarrow> overruns 13 sex"
  proof (cases "length sex < 2")
    case False
    then have "parse_signatures sex a = None \<longleftrightarrow> read_step2 (drop 2 sex) 0 (unat (rd16 sex)) = None"
      by (auto simp: parse_signatures_def panic_simps split: bind_splits)
    then show ?thesis using False by (auto simp: read_step2_panics overruns_def)
  qed (simp add: parse_signatures_def overruns_def)
  ultimately show ?thesis by (auto simp: parse_extension_def overruns_def)
qed

subsection \<open>The loop over the extensions\<close>

text \<open>One extension on the wire.\<close>

definition ext_bytes :: "u16 \<Rightarrow> byte list \<Rightarrow> byte list" where
  "ext_bytes t sex = be16 t @ be16 (of_nat (length sex)) @ sex"

lemma length_ext_bytes [simp]: "length (ext_bytes t sex) = 4 + length sex"
  by (simp add: ext_bytes_def)

lemma ext_step_bytes:
  assumes "length (ext_bytes t sex @ rest) < 2 ^ 16"
  shows "ext_step (ext_bytes t sex @ rest) a =
    (case parse_extension t sex (a\<lparr>x_extensions := x_extensions a @ [t]\<rparr>) of
       None \<Rightarrow> None | Some (Inl e) \<Rightarrow> Some (Inl (Inl e)) | Some (Inr a) \<Rightarrow> Some (Inr (rest, a)))"
proof -
  let ?n = "of_nat (length sex) :: u16" and ?b = "ext_bytes t sex @ rest"
  have n: "unat ?n = length sex" using assms by (simp add: unat_of_nat take_bit_nat_eq_self)
  have n4: "unat (4 + ?n) = 4 + length sex"
    using assms n by (subst unat_add_lem [THEN iffD1]) simp_all
  have d2: "drop 2 ?b = be16 ?n @ sex @ rest" by (simp add: ext_bytes_def)
  have t: "u16_at ?b 0 = Some t" "u16_at ?b 2 = Some ?n"
    using d2 by (simp_all add: panic_simps be_simps ext_bytes_def)
  have d4: "drop 4 ?b = sex @ rest" by (simp add: ext_bytes_def)
  have s: "slice_from (4 + length sex) ?b = Some rest" by (simp add: panic_simps)
  show ?thesis
    unfolding ext_step_def t d4 by (simp add: n n4 s) (simp add: Option.bind_eq_None_conv split: option.split sum.split)
qed

lemma ext_cases:
  obtains (short) e where "\<And>a. ext_step exs a = Some (Inl (e a))"
  | (ext) t sex rest where "exs = ext_bytes t sex @ rest"
proof (cases "4 \<le> length exs \<and> 4 + unat (rd16 (drop 2 exs)) \<le> length exs")
  case True
  let ?n = "unat (rd16 (drop 2 exs))"
  have "exs = be16 (rd16 exs) @ drop 2 exs" "drop 2 exs = be16 (rd16 (drop 2 exs)) @ drop 4 exs"
    using True be16_rd16 [of exs] be16_rd16 [of "drop 2 exs"] by auto
  then have "exs = be16 (rd16 exs) @ be16 (rd16 (drop 2 exs)) @ take ?n (drop 4 exs) @ drop ?n (drop 4 exs)"
    by (simp only: append_take_drop_id)
  moreover have "length (take ?n (drop 4 exs)) = ?n" using True by auto
  then have "of_nat (length (take ?n (drop 4 exs))) = rd16 (drop 2 exs)" by (simp del: length_take)
  ultimately have "exs = ext_bytes (rd16 exs) (take ?n (drop 4 exs)) @ drop ?n (drop 4 exs)" by (simp add: ext_bytes_def)
  then show thesis by (rule ext)
next
  case False
  then have "ext_step exs a = Some (Inl (if length exs = 0 then Inr a else if length exs < 4 then Inl (LengthErr 11) else Inl (LengthErr 12)))" for a
    by (auto simp: ext_step_def panic_simps)
  then show thesis by (rule short)
qed

lemma ext_loop_outcome:
  assumes "length exs < 2 ^ 16"
  shows "ext_loop exs a \<noteq> None \<and>
    (ext_loop exs a = Some None \<longrightarrow> (\<exists>pre t sex post. exs = pre @ ext_bytes t sex @ post \<and> overruns t sex))"
  using assms
proof (induction "length exs" arbitrary: exs a rule: less_induct)
  case less
  show ?case
  proof (cases rule: ext_cases [of exs])
    case (short e)
    then show ?thesis by (subst (1 2) ext_loop.simps) simp
  next
    case (ext t sex rest)
    let ?a = "a\<lparr>x_extensions := x_extensions a @ [t]\<rparr>"
    note step = ext_step_bytes [OF less.prems [unfolded ext], of a, folded ext]
    show ?thesis
    proof (cases "parse_extension t sex ?a")
      case None
      then have "overruns t sex" by (simp add: parse_extension_panics)
      then have "\<exists>pre t sex post. exs = pre @ ext_bytes t sex @ post \<and> overruns t sex" using ext by (metis append_Nil)
      then show ?thesis by (subst (1 2) ext_loop.simps) (simp add: step None)
    next
      case (Some r)
      show ?thesis
      proof (cases r)
        case (Inl e)
        then show ?thesis by (subst (1 2) ext_loop.simps) (simp add: step Some)
      next
        case (Inr a')
        have "ext_loop rest a' \<noteq> None \<and>
          (ext_loop rest a' = Some None \<longrightarrow> (\<exists>pre t sex post. rest = pre @ ext_bytes t sex @ post \<and> overruns t sex))"
          using less.prems ext by (intro less.hyps) simp_all
        moreover have "ext_loop exs a = ext_loop rest a'" by (subst ext_loop.simps) (simp add: step Some Inr)
        ultimately show ?thesis using ext by (metis append.assoc)
      qed
    qed
  qed
qed

lemma segment_prefix_total:
  "segment_prefix p \<noteq> None" "segment_prefix p = Some (Inr hs) \<Longrightarrow> length hs < 2 ^ 16 \<and> (\<exists>pre post. p = pre @ hs @ post)"
proof -
  show "segment_prefix p \<noteq> None" by (auto simp: segment_prefix_def panic_simps simp del: length_greater_0_conv)
  assume "segment_prefix p = Some (Inr hs)"
  then obtain n :: u16 where hs: "hs = take (unat n) (drop 5 p)"
    by (auto simp: segment_prefix_def slice_from_def split: if_splits bind_splits)
  have "p = take 5 p @ hs @ drop (unat n) (drop 5 p)" unfolding hs by (simp only: append_take_drop_id)
  moreover have "unat n < 2 ^ 16" by (rule order_less_le_trans [OF unsigned_less]) simp
  then have "length hs < 2 ^ 16" by (simp add: hs min.strict_coboundedI2)
  ultimately show "length hs < 2 ^ 16 \<and> (\<exists>pre post. p = pre @ hs @ post)" by blast
qed

lemma handshake_prefix_total:
  "handshake_prefix j hs \<noteq> None" "handshake_prefix j hs = Some (j', Inr exs) \<Longrightarrow> \<exists>pre. hs = pre @ exs"
proof -
  have ciphers: "\<exists>vs. read_pairs cs 2 (unat (n div 2)) = Some vs" if "2 + unat n + 1 \<le> length cs" for cs and n :: u16
    using that by (intro read_pairs_total) (simp add: unat_div)
  show "handshake_prefix j hs \<noteq> None"
    using ciphers [of "rd16 (drop (39 + unat (hs ! 38)) hs)" "drop (39 + unat (hs ! 38)) hs"]
    by (auto simp: handshake_prefix_def panic_simps Let_def simp del: length_greater_0_conv)
  assume "handshake_prefix j hs = Some (j', Inr exs)"
  then obtain m n where "exs = drop m (drop n hs)"
    by (auto simp: handshake_prefix_def slice_from_def Let_def split: if_splits bind_splits)
  then show "\<exists>pre. hs = pre @ exs" by (metis append_take_drop_id drop_drop)
qed

lemma parseExtensions_outcome:
  assumes "length exs < 2 ^ 16"
  shows "parseExtensions j exs \<noteq> None \<and>
    (parseExtensions j exs = Some None \<longrightarrow> (\<exists>pre t sex post. exs = pre @ ext_bytes t sex @ post \<and> overruns t sex))"
proof (cases "2 \<le> length exs \<and> unat (rd16 exs) \<le> length (drop 2 exs)")
  case True
  have o: "ext_loop (drop 2 exs) no_exts \<noteq> None" "ext_loop (drop 2 exs) no_exts = Some None \<Longrightarrow>
      \<exists>pre t sex post. drop 2 exs = pre @ ext_bytes t sex @ post \<and> overruns t sex"
    using ext_loop_outcome [of "drop 2 exs" no_exts] assms by auto
  have p: "parseExtensions j exs = None \<longleftrightarrow> ext_loop (drop 2 exs) no_exts = None"
    "parseExtensions j exs = Some None \<longleftrightarrow> ext_loop (drop 2 exs) no_exts = Some None"
    using True by (auto simp: parseExtensions_def panic_simps split: option.splits sum.splits)
  have "\<exists>pre t sex post. exs = pre @ ext_bytes t sex @ post \<and> overruns t sex" if "ext_loop (drop 2 exs) no_exts = Some None"
    using o(2) [OF that] by (metis append.assoc append_take_drop_id)
  then show ?thesis using o(1) p by simp
next
  case False
  then show ?thesis by (auto simp: parseExtensions_def panic_simps)
qed

subsection \<open>Client hellos on the wire\<close>

text \<open>The extensions the parser knows, others, and what a parser should keep of each.\<close>

datatype ext =
    ServerNameExt "byte list"
  | GroupsExt "u16 list"
  | FormatsExt "u8 list"
  | VersionsExt "u16 list"
  | SignaturesExt "u16 list"
  | OtherExt u16 "byte list"

fun ext_type :: "ext \<Rightarrow> u16" where
  "ext_type (ServerNameExt n) = 0"
| "ext_type (GroupsExt vs) = 10"
| "ext_type (FormatsExt fs) = 11"
| "ext_type (VersionsExt vs) = 43"
| "ext_type (SignaturesExt vs) = 13"
| "ext_type (OtherExt t b) = t"

fun ext_body :: "ext \<Rightarrow> byte list" where
  "ext_body (ServerNameExt n) = be16 (of_nat (length n + 3)) @ [0] @ be16 (of_nat (length n)) @ n"
| "ext_body (GroupsExt vs) = be16 (of_nat (2 * length vs)) @ be16s vs"
| "ext_body (FormatsExt fs) = [of_nat (length fs)] @ fs"
| "ext_body (VersionsExt vs) = [of_nat (2 * length vs)] @ be16s vs"
| "ext_body (SignaturesExt vs) = be16 (of_nat (2 * length vs)) @ be16s vs"
| "ext_body (OtherExt t b) = b"

fun ext_wf :: "ext \<Rightarrow> bool" where
  "ext_wf (FormatsExt fs) \<longleftrightarrow> length fs < 256"
| "ext_wf (VersionsExt vs) \<longleftrightarrow> length vs < 128"
| "ext_wf (OtherExt t b) \<longleftrightarrow> t \<notin> {0, 10, 11, 43, 13}"
| "ext_wf _ \<longleftrightarrow> True"

fun keep_ext :: "ext \<Rightarrow> exts \<Rightarrow> exts" where
  "keep_ext (ServerNameExt n) a = a\<lparr>x_sni := n\<rparr>"
| "keep_ext (GroupsExt vs) a = a\<lparr>x_curves := vs\<rparr>"
| "keep_ext (FormatsExt fs) a = a\<lparr>x_pf := fs\<rparr>"
| "keep_ext (VersionsExt vs) a = a\<lparr>x_versions := x_versions a @ vs\<rparr>"
| "keep_ext (SignaturesExt vs) a = a\<lparr>x_sigs := x_sigs a @ vs\<rparr>"
| "keep_ext (OtherExt t b) a = a"

lemma unat_of_nat_16: "n < 2 ^ 16 \<Longrightarrow> unat (of_nat n :: u16) = n"
  by (simp add: unat_of_nat take_bit_nat_eq_self)

lemma unat_of_nat_8: "n < 2 ^ 8 \<Longrightarrow> unat (of_nat n :: u8) = n"
  by (simp add: unat_of_nat take_bit_nat_eq_self)

lemma parse_extension_body:
  assumes "ext_wf e" "length (ext_body e) < 2 ^ 16"
  shows "parse_extension (ext_type e) (ext_body e) a = Some (Inr (keep_ext e a))"
proof (cases e)
  case (ServerNameExt n)
  have "drop 3 (ext_body e) = be16 (of_nat (length n)) @ n" "drop 5 (ext_body e) = n" "ext_body e ! 2 = 0" "5 \<le> length (ext_body e)"
    by (simp_all add: ServerNameExt nth_append)
  moreover have "unat (of_nat (length n) :: u16) = length n" using assms(2) by (intro unat_of_nat_16) (simp add: ServerNameExt)
  ultimately show ?thesis
    using ServerNameExt by (simp add: parse_extension_def parse_sni_def panic_simps be_simps del: ext_body.simps)
next
  case (GroupsExt vs)
  have n: "unat (of_nat (2 * length vs) :: u16) = 2 * length vs" using assms(2) by (intro unat_of_nat_16) (simp add: GroupsExt)
  then have "unat (of_nat (2 * length vs) div 2 :: u16) = length vs" by (simp add: unat_div)
  moreover have "drop 2 (ext_body e) = be16s vs" "rd16 (ext_body e) = of_nat (2 * length vs)" "2 \<le> length (ext_body e)"
    by (simp_all add: GroupsExt be_simps)
  ultimately show ?thesis
    using GroupsExt n read_pairs_be16s [of "[]" vs "[]"]
    by (simp add: parse_extension_def parse_curves_def panic_simps del: ext_body.simps)
next
  case (FormatsExt fs)
  have "unat (of_nat (length fs) :: u8) = length fs" using assms(1) by (intro unat_of_nat_8) (simp add: FormatsExt)
  then show ?thesis using FormatsExt by (simp add: parse_extension_def parse_formats_def index_at_def slice_from_def)
next
  case (VersionsExt vs)
  have "unat (of_nat (2 * length vs) :: u8) = 2 * length vs" using assms(1) by (intro unat_of_nat_8) (simp add: VersionsExt)
  then show ?thesis
    using VersionsExt read_step2_be16s [of "[]" vs "[]"] by (simp add: parse_extension_def parse_versions_def index_at_def slice_from_def)
next
  case (SignaturesExt vs)
  have "unat (of_nat (2 * length vs) :: u16) = 2 * length vs" using assms(2) by (intro unat_of_nat_16) (simp add: SignaturesExt)
  then show ?thesis
    using SignaturesExt read_step2_be16s [of "[]" vs "[]"] by (simp add: parse_extension_def parse_signatures_def be_simps panic_simps)
next
  case (OtherExt t b)
  then show ?thesis using assms(1) by (simp add: parse_extension_def)
qed

definition exts_bytes :: "ext list \<Rightarrow> byte list" where
  "exts_bytes es = concat (map (\<lambda>e. ext_bytes (ext_type e) (ext_body e)) es)"

fun keep_exts :: "ext list \<Rightarrow> exts \<Rightarrow> exts" where
  "keep_exts [] a = a"
| "keep_exts (e # es) a = keep_exts es (keep_ext e (a\<lparr>x_extensions := x_extensions a @ [ext_type e]\<rparr>))"

lemma ext_loop_bytes:
  assumes "\<forall>e\<in>set es. ext_wf e" "length (exts_bytes es) < 2 ^ 16"
  shows "ext_loop (exts_bytes es) a = Some (Some (Inr (keep_exts es a)))"
  using assms
proof (induction es arbitrary: a)
  case Nil
  show ?case by (subst ext_loop.simps) (simp add: exts_bytes_def ext_step_def)
next
  case (Cons e es)
  let ?a = "a\<lparr>x_extensions := x_extensions a @ [ext_type e]\<rparr>"
  have b: "exts_bytes (e # es) = ext_bytes (ext_type e) (ext_body e) @ exts_bytes es" by (simp add: exts_bytes_def)
  have "parse_extension (ext_type e) (ext_body e) ?a = Some (Inr (keep_ext e ?a))"
    using Cons.prems b by (intro parse_extension_body) simp_all
  then have "ext_step (exts_bytes (e # es)) a = Some (Inr (exts_bytes es, keep_ext e ?a))"
    unfolding b using Cons.prems(2) [unfolded b] by (simp add: ext_step_bytes)
  then have "ext_loop (exts_bytes (e # es)) a = ext_loop (exts_bytes es) (keep_ext e ?a)" by (subst ext_loop.simps) simp
  also have "\<dots> = Some (Some (Inr (keep_exts es (keep_ext e ?a))))" using Cons.prems b by (intro Cons.IH) simp_all
  finally show ?case by simp
qed

text \<open>A whole record with a client hello.\<close>

record hello =
  h_recordVersion :: u16
  h_version :: u16
  h_random :: "byte list"
  h_session :: "byte list"
  h_ciphers :: "u16 list"
  h_compression :: "byte list"
  h_exts :: "ext list"

definition hello_exts :: "hello \<Rightarrow> byte list" where
  "hello_exts h = (if h_exts h = [] then [] else be16 (of_nat (length (exts_bytes (h_exts h)))) @ exts_bytes (h_exts h))"

definition hello_suites :: "hello \<Rightarrow> byte list" where
  "hello_suites h = be16 (of_nat (2 * length (h_ciphers h))) @ be16s (h_ciphers h) @
     [of_nat (length (h_compression h))] @ h_compression h @ hello_exts h"

definition hello_body :: "hello \<Rightarrow> byte list" where
  "hello_body h = be16 (h_version h) @ h_random h @ [of_nat (length (h_session h))] @ h_session h @ hello_suites h"

definition hello_bytes :: "hello \<Rightarrow> byte list" where
  "hello_bytes h = [22] @ be16 (h_recordVersion h) @ be16 (of_nat (4 + length (hello_body h))) @
     [1, 0] @ be16 (of_nat (length (hello_body h))) @ hello_body h"

definition hello_sized :: "hello \<Rightarrow> bool" where
  "hello_sized h \<longleftrightarrow> version_supported (h_recordVersion h) \<and> version_supported (h_version h) \<and> length (h_random h) = 32 \<and>
     length (h_session h) < 256 \<and> length (h_compression h) < 256 \<and> 4 + length (hello_body h) < 2 ^ 16"

definition hello_wf :: "hello \<Rightarrow> bool" where
  "hello_wf h \<longleftrightarrow> hello_sized h \<and> (\<forall>e\<in>set (h_exts h). ext_wf e)"

definition hello_fields :: "hello \<Rightarrow> ClientHello" where
  "hello_fields h = (let a = keep_exts (h_exts h) no_exts in
     \<lparr>ch_Version = h_version h, ch_CipherSuites = h_ciphers h, ch_Extensions = x_extensions a, ch_EllipticCurves = x_curves a,
      ch_EllipticCurvePF = x_pf a, ch_Versions = x_versions a, ch_SignatureAlgorithms = x_sigs a, ch_ServerName = x_sni a\<rparr>)"

lemma parseExtensions_bytes:
  assumes "\<forall>e\<in>set (h_exts h). ext_wf e" "length (hello_exts h) < 2 ^ 16" "j = empty_hello\<lparr>ch_Version := h_version h, ch_CipherSuites := h_ciphers h\<rparr>"
  shows "parseExtensions j (hello_exts h) = Some (Some (None, hello_fields h))"
proof (cases "h_exts h = []")
  case True
  then show ?thesis by (simp add: parseExtensions_def hello_exts_def hello_fields_def assms(3) empty_hello_def no_exts_def)
next
  case False
  let ?x = "exts_bytes (h_exts h)"
  have x: "hello_exts h = be16 (of_nat (length ?x)) @ ?x" using False by (simp add: hello_exts_def)
  have "length ?x < 2 ^ 16" using assms(2) x by simp
  moreover from this have "unat (of_nat (length ?x) :: u16) = length ?x" by (rule unat_of_nat_16)
  ultimately show ?thesis
    using ext_loop_bytes [OF assms(1), of no_exts] x
    by (simp add: parseExtensions_def panic_simps be_simps hello_fields_def assms(3) empty_hello_def Let_def)
qed

lemma length24: "(push_bit 16 (ucast (0 :: byte)) OR push_bit 8 (ucast (ucast (drop_bit 8 v) :: byte)) OR ucast (ucast v :: byte) :: u32) = ucast (v :: u16)"
  by (rule bit_word_eqI) (auto simp: bit_simps dest: bit_imp_le_length)

lemma handshake_prefix_bytes:
  assumes wf: "hello_sized h"
  shows "handshake_prefix empty_hello ([1, 0] @ be16 (of_nat (length (hello_body h))) @ hello_body h) =
    Some (empty_hello\<lparr>ch_Version := h_version h, ch_CipherSuites := h_ciphers h\<rparr>, Inr (hello_exts h))"
proof -
  let ?hs = "[1, 0] @ be16 (of_nat (length (hello_body h))) @ hello_body h" and ?n = "of_nat (length (hello_body h)) :: u16"
  let ?sid = "length (h_session h)" and ?cs = "hello_suites h"
  have len: "length (hello_body h) = 35 + ?sid + length ?cs" "length ?hs = 39 + ?sid + length ?cs"
    using wf by (simp_all add: hello_body_def hello_sized_def)
  have n: "unat ?n = length (hello_body h)" using wf by (intro unat_of_nat_16) (simp add: hello_sized_def)
  have h: "?hs ! 0 = 1" "?hs ! 1 = 0" "?hs ! 2 = ucast (drop_bit 8 ?n)" "?hs ! 3 = ucast ?n"
    by (simp_all add: be16_def)
  have "drop 4 ?hs = be16 (h_version h) @ h_random h @ [of_nat ?sid] @ h_session h @ ?cs" by (simp add: hello_body_def)
  then have v: "u16_at ?hs 4 = Some (h_version h)" using len by (simp add: panic_simps be_simps)
  have "?hs ! 38 = hello_body h ! 34" by (simp add: nth_append)
  also have "\<dots> = of_nat ?sid" using wf by (simp add: hello_body_def hello_sized_def nth_append)
  finally have sid: "unat (?hs ! 38) = ?sid" using wf by (simp add: hello_sized_def unat_of_nat_8)
  have "?hs = ([1, 0] @ be16 ?n @ be16 (h_version h) @ h_random h @ [of_nat ?sid] @ h_session h) @ ?cs" (is "_ = ?pre @ _")
    by (simp add: hello_body_def)
  moreover have "length ?pre = 39 + ?sid" using wf by (simp add: hello_sized_def)
  ultimately have cs: "drop (39 + ?sid) ?hs = ?cs" by (metis append_eq_conv_conj)
  have csn: "unat (of_nat (2 * length (h_ciphers h)) :: u16) = 2 * length (h_ciphers h)"
    using wf by (intro unat_of_nat_16) (simp add: hello_sized_def hello_body_def hello_suites_def)
  have c: "u16_at ?cs 0 = Some (of_nat (2 * length (h_ciphers h)))" "?cs ! (2 + 2 * length (h_ciphers h)) = of_nat (length (h_compression h))"
    "drop (2 + 2 * length (h_ciphers h) + 1 + length (h_compression h)) ?cs = hello_exts h"
    "length ?cs = 3 + 2 * length (h_ciphers h) + length (h_compression h) + length (hello_exts h)"
    by (simp_all add: hello_suites_def panic_simps be_simps nth_append)
  have suites: "read_pairs ?cs 2 (length (h_ciphers h)) = Some (h_ciphers h)"
    using read_pairs_be16s [of "be16 (of_nat (2 * length (h_ciphers h)))"] by (simp add: hello_suites_def)
  have comp: "unat (of_nat (length (h_compression h)) :: u8) = length (h_compression h)"
    using wf by (simp add: hello_sized_def unat_of_nat_8)
  have hl: "unat (push_bit 16 (ucast (?hs ! 1)) OR push_bit 8 (ucast (?hs ! 2)) OR ucast (?hs ! 3) :: u32) = length (hello_body h)"
    unfolding h length24 using wf by (simp add: n unsigned_ucast_eq hello_sized_def take_bit_nat_eq_self)
  have vs: "version_supported (h_version h)" using wf by (simp add: hello_sized_def)
  define hs where "hs = ?hs"
  note facts = len(2) h(1) hl v sid cs [folded sid] c suites csn comp [folded c(2)]
  note facts' = facts [folded hs_def]
  show ?thesis
    unfolding hs_def [symmetric] handshake_prefix_def using facts' len(1) vs
    by (simp add: index_at_def slice_from_def unat_div Let_def)
qed

lemma segment_prefix_bytes:
  assumes wf: "hello_sized h"
  shows "segment_prefix (hello_bytes h @ rest) = Some (Inr ([1, 0] @ be16 (of_nat (length (hello_body h))) @ hello_body h))"
proof -
  let ?n = "4 + length (hello_body h)" and ?p = "hello_bytes h @ rest"
  let ?hs = "[1, 0] @ be16 (of_nat (length (hello_body h))) @ hello_body h"
  have n: "unat (of_nat ?n :: u16) = ?n" using wf by (intro unat_of_nat_16) (simp add: hello_sized_def)
  have p: "?p = [22] @ be16 (h_recordVersion h) @ be16 (of_nat ?n) @ ?hs @ rest" by (simp add: hello_bytes_def)
  have "?p ! 0 = 22" "u16_at ?p 1 = Some (h_recordVersion h)" "u16_at ?p 3 = Some (of_nat ?n)" "drop 5 ?p = ?hs @ rest" "5 \<le> length ?p"
    unfolding p by (simp_all add: panic_simps be_simps del: of_nat_add)
  moreover have hs: "length ?hs = ?n" by simp
  then have "take ?n (?hs @ rest) = ?hs" by (metis append_eq_conv_conj)
  moreover have "?n \<le> length (?hs @ rest)" by simp
  ultimately show ?thesis
    using wf n unfolding segment_prefix_def hello_sized_def
    by (simp add: index_at_def slice_from_def hello_bytes_def del: of_nat_add)
qed

lemma Compute_bytes:
  assumes "hello_sized h"
  shows "Compute (hello_bytes h @ rest) =
    parseExtensions (empty_hello\<lparr>ch_Version := h_version h, ch_CipherSuites := h_ciphers h\<rparr>) (hello_exts h)"
  by (simp add: Compute_def parseSegment_def segment_prefix_bytes [OF assms] parseHandshake_def handshake_prefix_bytes [OF assms, simplified])

lemma Compute_hello:
  assumes wf: "hello_wf h"
  shows "Compute (hello_bytes h @ rest) = Some (Some (None, hello_fields h))"
proof -
  have sized: "hello_sized h" using wf by (simp add: hello_wf_def)
  have "length (hello_exts h) < 2 ^ 16" using sized by (simp add: hello_sized_def hello_body_def hello_suites_def)
  then show ?thesis
    unfolding Compute_bytes [OF sized] using wf by (intro parseExtensions_bytes refl) (simp_all add: hello_wf_def)
qed

text \<open>C36. Parsing a client hello, whatever follows its record, gives back what it was made of: version, cipher suites,
  the types of all extensions in order, server name, groups, point formats, versions and signature algorithms.\<close>

theorem Compute_roundtrip:
  assumes "hello_wf h"
  shows "Compute (hello_bytes h @ rest) = Some (Some (None, hello_fields h))"
  using assms by (rule Compute_hello)

definition small_hello :: hello where
  "small_hello = \<lparr>h_recordVersion = 0x0301, h_version = 0x0303, h_random = replicate 32 7, h_session = [1, 2],
     h_ciphers = [0x1301, 0x1302], h_compression = [0],
     h_exts = [ServerNameExt [97, 46, 98], OtherExt 0x0A0A [], GroupsExt [29, 23], VersionsExt [0x0304], SignaturesExt [0x0403], FormatsExt [0]]\<rparr>"

theorem Compute_roundtrip_witness:
  "hello_wf small_hello \<and> (\<exists>j. Compute (hello_bytes small_hello) = Some (Some (None, j)) \<and> ch_ServerName j = [97, 46, 98] \<and>
     ch_Extensions j = [0, 0x0A0A, 10, 43, 13, 11] \<and> ch_CipherSuites j = [0x1301, 0x1302])"
proof -
  have wf: "hello_wf small_hello"
    by (simp add: hello_wf_def hello_sized_def small_hello_def version_supported_def hello_body_def hello_suites_def hello_exts_def exts_bytes_def)
  show ?thesis
    using Compute_roundtrip [OF wf, of "[]"] wf by (simp add: hello_fields_def Let_def small_hello_def no_exts_def)
qed


text \<open>A hello with a one-byte \<open>supported_versions\<close> extension that announces two bytes.\<close>

definition short_hello :: hello where
  "short_hello = small_hello\<lparr>h_exts := [OtherExt 43 [2]]\<rparr>"


subsection \<open>The JA3 string\<close>

definition greases :: "u16 list \<Rightarrow> u16 list" where
  "greases vs = filter (\<lambda>v. v AND 0x0F0F = 0x0A0A) vs"

fun dashes :: "byte list list \<Rightarrow> byte list" where
  "dashes [] = []"
| "dashes [x] = x"
| "dashes (x # xs) = x @ 45 # dashes xs"

definition field_text :: "u16 list \<Rightarrow> byte list" where
  "field_text vs =
     (if vs = [] then [44] else if greases vs = [] then [] else dashes (map (\<lambda>v. digits (unat v)) (greases vs)) @ [44])"

lemma concat_dashes: "xs \<noteq> [] \<Longrightarrow> concat (map (\<lambda>x. x @ [45]) xs) = dashes xs @ [45]"
  by (induction xs rule: dashes.induct) simp_all

lemma marshal_values_dashes:
  "marshal_values vs b = b @ concat (map (\<lambda>x. x @ [45]) (map (\<lambda>v. digits (unat v)) (greases vs)))"
  by (induction vs arbitrary: b) (simp_all add: greases_def)

lemma marshal_formats_dashes: "marshal_formats vs b = b @ concat (map (\<lambda>x. x @ [45]) (map (\<lambda>v. digits (unat v)) vs))"
  by (induction vs arbitrary: b) simp_all

lemma marshal_field_text: "marshal_field vs (b @ [44]) = Some (b @ [44] @ field_text vs) \<and> (\<exists>b'. b @ [44] @ field_text vs = b' @ [44])"
proof (cases "vs = [] \<or> greases vs = []")
  case True
  then show ?thesis by (auto simp: marshal_field_def field_text_def marshal_values_dashes set_last_def)
next
  case False
  then have "marshal_values vs (b @ [44]) = b @ [44] @ dashes (map (\<lambda>v. digits (unat v)) (greases vs)) @ [45]"
    using concat_dashes [of "map (\<lambda>v. digits (unat v)) (greases vs)"] by (simp add: marshal_values_dashes)
  then show ?thesis using False by (simp add: marshal_field_def field_text_def set_last_def list_update_append)
qed

text \<open>C38. The string that \<open>marshalJA3\<close> makes, in full: version, cipher suites, extensions and groups end in a comma each and
  the point formats follow. Of the three lists it has the reserved GREASE values only, and a list that has values but
  no reserved one leaves no trace, not even its comma.\<close>

theorem marshalJA3_text:
  "marshalJA3 j = Some (digits (unat (ch_Version j)) @ [44] @ field_text (ch_CipherSuites j) @ field_text (ch_Extensions j) @
     field_text (ch_EllipticCurves j) @ dashes (map (\<lambda>v. digits (unat v)) (ch_EllipticCurvePF j)))"
proof -
  let ?v = "digits (unat (ch_Version j))" and ?p = "dashes (map (\<lambda>v. digits (unat v)) (ch_EllipticCurvePF j))"
  note f = marshal_field_text [of "ch_CipherSuites j" ?v]
  then obtain b1 where b1: "?v @ [44] @ field_text (ch_CipherSuites j) = b1 @ [44]" by blast
  note g = marshal_field_text [of "ch_Extensions j" b1]
  then obtain b2 where b2: "b1 @ [44] @ field_text (ch_Extensions j) = b2 @ [44]" by blast
  note h = marshal_field_text [of "ch_EllipticCurves j" b2]
  have pf: "marshal_formats (ch_EllipticCurvePF j) b = b @ ?p @ [45]" if "ch_EllipticCurvePF j \<noteq> []" for b
    using that concat_dashes [of "map (\<lambda>v. digits (unat v)) (ch_EllipticCurvePF j)"] by (simp add: marshal_formats_dashes)
  have "marshalJA3 j = Some ((b2 @ [44] @ field_text (ch_EllipticCurves j)) @ ?p)"
    using f g h b1 b2 pf by (auto simp: marshalJA3_def Let_def)
  also have "(b2 @ [44] @ field_text (ch_EllipticCurves j)) @ ?p = ((b1 @ [44] @ field_text (ch_Extensions j)) @ field_text (ch_EllipticCurves j)) @ ?p"
    using b2 by simp
  also have "\<dots> = (((?v @ [44] @ field_text (ch_CipherSuites j)) @ field_text (ch_Extensions j)) @ field_text (ch_EllipticCurves j)) @ ?p"
    using b1 by simp
  finally show ?thesis by simp
qed

text \<open>Ignoring the order of the extensions, a stored hello is compared by its sorted extension types.\<close>

lemma Equals_any_order:
  assumes "mset xs = mset (ch_Extensions another)"
  shows "Equals j (another\<lparr>ch_Extensions := xs\<rparr>) True = Equals j another True"
proof -
  have "sort xs = sort (ch_Extensions another)" using assms by (intro properties_for_sort) simp_all
  then show ?thesis by (simp add: Equals_def sortedExtensions_def)
qed

end
