(* ===== verification/QuicSniff.thy ===== *)
theory QuicSniff
  imports Ja3
begin

section \<open>The QUIC sniffer (\<open>common/sniff/quic.go\<close>, \<open>internal/qtls\<close>)\<close>

text \<open>
  \<open>QUICClientHello\<close> removes the protection of an Initial packet, whose keys anyone can compute, collects
  the fragments of its CRYPTO frames, adds those kept from earlier packets, puts them in order and
  parses the client hello.

  A \<open>bytes.Reader\<close> is the list of the bytes not yet read; seeking beyond its end leaves it empty. An error is
  a value \<open>Inl\<close>, a panic \<open>None\<close>, and where the loop that orders the fragments is involved one more
  option says whether the call returns. HKDF, the AES block cipher and AES-GCM are parameters. A decrypted
  packet is a slice of a larger array; slice expressions may reach beyond its length up to its
  capacity, so the bytes behind it (\<open>spare\<close>) are part of the state.
\<close>

type_synonym 'a result = "(string + 'a) option"

definition read_then :: "string + 'a \<Rightarrow> ('a \<Rightarrow> 'b result) \<Rightarrow> 'b result" where
  "read_then r f = (case r of Inl e \<Rightarrow> Some (Inl e) | Inr x \<Rightarrow> f x)"

definition fail :: "string \<Rightarrow> 'a result" where
  "fail e = Some (Inl e)"

subsection \<open>Readers\<close>

definition ReadByte :: "byte list \<Rightarrow> string + (byte \<times> byte list)" where
  "ReadByte r = (case r of [] \<Rightarrow> Inl ''EOF'' | b # r \<Rightarrow> Inr (b, r))"

text \<open>\<open>io.ReadFull\<close> and \<open>io.CopyN\<close> to \<open>io.Discard\<close>, which differ in the error only.\<close>

definition ReadFull :: "nat \<Rightarrow> byte list \<Rightarrow> string + (byte list \<times> byte list)" where
  "ReadFull n r = (if length r < n then Inl (if r = [] then ''EOF'' else ''unexpected EOF'') else Inr (take n r, drop n r))"

definition Discard :: "nat \<Rightarrow> byte list \<Rightarrow> string + byte list" where
  "Discard n r = (if length r < n then Inl ''EOF'' else Inr (drop n r))"

text \<open>\<open>ReadUvarint\<close>: the first two bits say whether one, two, four or eight bytes follow.\<close>

fun uvarint_bytes :: "nat \<Rightarrow> u64 \<Rightarrow> byte list \<Rightarrow> string + (u64 \<times> byte list)" where
  "uvarint_bytes 0 v r = Inr (v, r)"
| "uvarint_bytes (Suc n) v [] = Inl ''EOF''"
| "uvarint_bytes (Suc n) v (b # r) = uvarint_bytes n (push_bit 8 v + ucast b) r"

definition ReadUvarint :: "byte list \<Rightarrow> string + (u64 \<times> byte list)" where
  "ReadUvarint r =
     (case ReadByte r of
        Inl e \<Rightarrow> Inl e
      | Inr (firstByte, r) \<Rightarrow>
          let len = 2 ^ unat (drop_bit 6 (firstByte AND 0xC0)); b1 = firstByte AND (0xFF - 0xC0)
          in uvarint_bytes (len - 1) (ucast b1) r)"

subsection \<open>Keys\<close>

record quic_crypto =
  k_Extract :: "byte list \<Rightarrow> byte list \<Rightarrow> byte list"
  k_Expand :: "byte list \<Rightarrow> byte list \<Rightarrow> nat \<Rightarrow> byte list"
  k_Encrypt :: "byte list \<Rightarrow> byte list \<Rightarrow> byte list"
  k_Open :: "byte list \<Rightarrow> byte list \<Rightarrow> byte list \<Rightarrow> byte list \<Rightarrow> byte list option"

definition ascii :: "string \<Rightarrow> byte list" where
  "ascii s = map (\<lambda>c. of_nat (of_char c)) s"

definition VersionDraft29 :: u32 where "VersionDraft29 = 0xff00001d"
definition Version1 :: u32 where "Version1 = 0x1"
definition Version2 :: u32 where "Version2 = 0x6b3343cf"

definition SaltOld :: "byte list" where
  "SaltOld = [0xaf, 0xbf, 0xec, 0x28, 0x99, 0x93, 0xd2, 0x4c, 0x9e, 0x97, 0x86, 0xf1, 0x9c, 0x61, 0x11, 0xe0, 0x43, 0x90, 0xa8, 0x99]"

definition SaltV1 :: "byte list" where
  "SaltV1 = [0x38, 0x76, 0x2c, 0xf7, 0xf5, 0x59, 0x34, 0xb3, 0x4d, 0x17, 0x9a, 0xe6, 0xa4, 0xc8, 0x0c, 0xad, 0xcc, 0xbb, 0x7f, 0x0a]"

definition SaltV2 :: "byte list" where
  "SaltV2 = [0x0d, 0xed, 0xe3, 0xde, 0xf7, 0x00, 0xa6, 0xdb, 0x81, 0x93, 0x81, 0xbe, 0x6e, 0x26, 0x9d, 0xcb, 0xf9, 0xbd, 0x2e, 0xd9]"

definition HKDFExpandLabel :: "quic_crypto \<Rightarrow> byte list \<Rightarrow> byte list \<Rightarrow> string \<Rightarrow> nat \<Rightarrow> byte list option" where
  "HKDFExpandLabel k secret context label n =
     (let b = be16 (of_nat n) @ [of_nat (6 + length label)] @ ascii ''tls13 '' @ ascii label @ [of_nat (length context)] @ context;
          out = k_Expand k secret b n
      in if length out \<noteq> n then None else Some out)"

text \<open>\<open>AEADAESGCMTLS13\<close> and the \<open>Open\<close> of its result: the nonce is mixed into the last eight bytes of the mask.\<close>

definition xor_nonce :: "byte list \<Rightarrow> byte list \<Rightarrow> byte list" where
  "xor_nonce nonceMask nonce = take 4 nonceMask @ map2 (XOR) (drop 4 nonceMask) nonce"

definition aead_Open :: "quic_crypto \<Rightarrow> byte list \<Rightarrow> byte list \<Rightarrow> byte list \<Rightarrow> byte list \<Rightarrow> byte list \<Rightarrow> byte list option option" where
  "aead_Open k key nonceMask nonce data aad =
     (if length nonceMask \<noteq> 12 then None else Some (k_Open k key (xor_nonce nonceMask nonce) data aad))"

definition be64 :: "u32 \<Rightarrow> byte list" where
  "be64 v = be32 0 @ be32 v"

subsection \<open>The header and the protection of a packet\<close>

record quic_header =
  qh_version :: u32
  qh_destConnID :: "byte list"
  qh_packetLen :: u64
  qh_hdrLen :: nat
  qh_pnBytes :: "byte list"

definition bad_packet_type :: "u8 \<Rightarrow> u32 \<Rightarrow> bool" where
  "bad_packet_type packetType version \<longleftrightarrow>
     packetType = 0 \<and> version = Version2 \<or> packetType = 2 \<and> version \<noteq> Version2 \<or> packetType > 2"

text \<open>Type, version and connection ids; then token, length and sample.\<close>

definition quic_read_ids :: "byte list \<Rightarrow> (u32 \<times> byte list \<times> byte list) result" where
  "quic_read_ids packet =
     read_then (ReadByte packet) (\<lambda>(typeByte, r).
     if typeByte AND 0x40 = 0 then fail ''bad type byte'' else
     read_then (ReadFull 4 r) (\<lambda>(vb, r). do {
     version \<leftarrow> Uint32 vb;
     if version \<noteq> VersionDraft29 \<and> version \<noteq> Version1 \<and> version \<noteq> Version2 then fail ''bad version'' else
     if bad_packet_type (drop_bit 4 (typeByte AND 0x30)) version then fail ''bad packet type'' else
     read_then (ReadByte r) (\<lambda>(destConnIDLen, r).
     if destConnIDLen = 0 \<or> destConnIDLen > 20 then fail ''bad destination connection id length'' else
     read_then (ReadFull (unat destConnIDLen) r) (\<lambda>(destConnID, r).
     read_then (ReadByte r) (\<lambda>(srcConnIDLen, r).
     read_then (Discard (unat srcConnIDLen) r) (\<lambda>r. Some (Inr (version, destConnID, r)))))) }))"

definition quic_read_header :: "byte list \<Rightarrow> quic_header result" where
  "quic_read_header packet = do {
     ids \<leftarrow> quic_read_ids packet;
     read_then ids (\<lambda>(version, destConnID, r).
     read_then (ReadUvarint r) (\<lambda>(tokenLen, r).
     read_then (Discard (unat tokenLen) r) (\<lambda>r.
     read_then (ReadUvarint r) (\<lambda>(packetLen, r).
     let hdrLen = length packet - length r in
     if hdrLen + unat packetLen > length packet then fail ''invalid argument'' else
     read_then (Discard 4 r) (\<lambda>r.
     read_then (ReadFull 16 r) (\<lambda>(pnBytes, r).
     Some (Inr \<lparr>qh_version = version, qh_destConnID = destConnID, qh_packetLen = packetLen, qh_hdrLen = hdrLen,
       qh_pnBytes = pnBytes\<rparr>))))))) }"

definition salt_of :: "u32 \<Rightarrow> byte list" where
  "salt_of version = (if version = Version1 then SaltV1 else if version = Version2 then SaltV2 else SaltOld)"

text \<open>Removing the header protection: four bits of the first byte and four bytes after the header.\<close>

fun xor_at :: "nat \<Rightarrow> byte list \<Rightarrow> byte list \<Rightarrow> byte list option" where
  "xor_at i [] b = Some b"
| "xor_at i (m # ms) b = do { x \<leftarrow> index_at b i; xor_at (Suc i) ms (b[i := x XOR m]) }"

definition packet_number :: "nat \<Rightarrow> nat \<Rightarrow> byte list \<Rightarrow> u32 result" where
  "packet_number n hdrLen b =
     (if n = 1 then do { x \<leftarrow> index_at b hdrLen; Some (Inr (ucast x)) }
      else if n = 2 then do { x \<leftarrow> slice_from hdrLen b; v \<leftarrow> Uint16 x; Some (Inr (ucast v)) }
      else if n = 3 then do {
        x \<leftarrow> index_at b (hdrLen + 2); y \<leftarrow> index_at b (hdrLen + 1); z \<leftarrow> index_at b hdrLen;
        Some (Inr (ucast x OR push_bit 8 (ucast y) OR push_bit 16 (ucast z))) }
      else if n = 4 then do { x \<leftarrow> slice_from hdrLen b; v \<leftarrow> Uint32 x; Some (Inr v) }
      else fail ''bad packet number length'')"

text \<open>The slice expression \<open>b[i:j]\<close>, and \<open>copy(b[i:j], src)\<close>.\<close>

definition slice :: "nat \<Rightarrow> nat \<Rightarrow> 'a list \<Rightarrow> 'a list option" where
  "slice i j b = (if i \<le> j \<and> j \<le> length b then Some (take (j - i) (drop i b)) else None)"

definition copy_slice :: "nat \<Rightarrow> nat \<Rightarrow> 'a list \<Rightarrow> 'a list \<Rightarrow> 'a list option" where
  "copy_slice i j src b =
     (if i \<le> j \<and> j \<le> length b
      then let n = min (j - i) (length src) in Some (take i b @ take n src @ drop (i + n) b) else None)"

text \<open>The decrypted bytes and the bytes behind them in the same array.\<close>

definition open_packet :: "quic_crypto \<Rightarrow> byte list \<Rightarrow> quic_header \<Rightarrow> (byte list \<times> byte list) result" where
  "open_packet k packet h =
     (let version = qh_version h; hdrLen = qh_hdrLen h; packetLen = unat (qh_packetLen h); two = (version = Version2);
          initialSecret = k_Extract k (qh_destConnID h) (salt_of version) in do {
      secret \<leftarrow> HKDFExpandLabel k initialSecret [] ''client in'' 32;
      hpKey \<leftarrow> HKDFExpandLabel k secret [] (if two then ''quicv2 hp'' else ''quic hp'') 16;
      let mask = k_Encrypt k hpKey (qh_pnBytes h);
      m0 \<leftarrow> index_at mask 0;
      newPacket \<leftarrow> xor_at 0 [m0 AND 0xF] packet;
      ms \<leftarrow> slice 1 5 mask;
      newPacket \<leftarrow> xor_at hdrLen ms newPacket;
      b0 \<leftarrow> index_at newPacket 0;
      let pnLen = unat ((b0 AND 0x3) + 1);
      if hdrLen + pnLen > packetLen + hdrLen then fail ''invalid argument'' else do {
      pn \<leftarrow> packet_number pnLen hdrLen newPacket;
      read_then pn (\<lambda>packetNumber. do {
      let extHdrLen = hdrLen + pnLen;
      src \<leftarrow> slice_from extHdrLen packet;
      newPacket \<leftarrow> copy_slice extHdrLen (hdrLen + 4) src newPacket;
      data \<leftarrow> slice extHdrLen (packetLen + hdrLen) newPacket;
      key \<leftarrow> HKDFExpandLabel k secret [] (if two then ''quicv2 key'' else ''quic key'') 16;
      iv \<leftarrow> HKDFExpandLabel k secret [] (if two then ''quicv2 iv'' else ''quic iv'') 12;
      aad \<leftarrow> slice 0 extHdrLen newPacket;
      opened \<leftarrow> aead_Open k key iv (be64 packetNumber) data aad;
      case opened of
        None \<Rightarrow> fail ''cipher: message authentication failed''
      | Some decrypted \<Rightarrow> Some (Inr (decrypted, drop (extHdrLen + length decrypted) newPacket)) }) } })"

subsection \<open>Frames\<close>

record qCryptoFragment =
  q_offset :: u64
  q_length :: u64
  q_payload :: "byte list"

text \<open>Numbers that are read and not used. The ranges of an acknowledgement have two each.\<close>

fun skip_uvarints :: "nat \<Rightarrow> byte list \<Rightarrow> string + byte list" where
  "skip_uvarints 0 r = Inr r"
| "skip_uvarints (Suc n) r = (case ReadUvarint r of Inl e \<Rightarrow> Inl e | Inr (_, r) \<Rightarrow> skip_uvarints n r)"

definition ack_frame :: "u8 \<Rightarrow> byte list \<Rightarrow> byte list result" where
  "ack_frame frameType r =
     read_then (skip_uvarints 2 r) (\<lambda>r.
     read_then (ReadUvarint r) (\<lambda>(ackRangeCount, r).
     read_then (skip_uvarints 1 r) (\<lambda>r.
     read_then (skip_uvarints (2 * unat ackRangeCount) r) (\<lambda>r.
     if frameType = 3 then read_then (skip_uvarints 3 r) (\<lambda>r. Some (Inr r)) else Some (Inr r)))))"

text \<open>A CRYPTO frame: \<open>decrypted[index : index+length]\<close> may reach into the spare capacity, and panics beyond it.\<close>

definition crypto_frame :: "byte list \<Rightarrow> byte list \<Rightarrow> byte list \<Rightarrow> (qCryptoFragment \<times> byte list) result" where
  "crypto_frame decrypted spare r =
     read_then (ReadUvarint r) (\<lambda>(off, r).
     read_then (ReadUvarint r) (\<lambda>(len, r).
     let index = length decrypted - length r in do {
     payload \<leftarrow> slice index (index + unat len) (decrypted @ spare);
     Some (Inr (\<lparr>q_offset = off, q_length = len, q_payload = payload\<rparr>, drop (unat len) r)) }))"

definition close_frame :: "byte list \<Rightarrow> byte list result" where
  "close_frame r =
     read_then (skip_uvarints 2 r) (\<lambda>r.
     read_then (ReadUvarint r) (\<lambda>(len, r). Some (Inr (drop (unat len) r))))"

text \<open>The body of the \<open>switch\<close>: the new fragments and the rest.\<close>

definition read_frame :: "byte list \<Rightarrow> byte list \<Rightarrow> u8 \<Rightarrow> byte list \<Rightarrow> (qCryptoFragment list \<times> byte list) result" where
  "read_frame decrypted spare frameType r =
     (if frameType = 0 \<or> frameType = 1 then Some (Inr ([], r))
      else if frameType = 2 \<or> frameType = 3 then do { x \<leftarrow> ack_frame frameType r; read_then x (\<lambda>r. Some (Inr ([], r))) }
      else if frameType = 6 then do { x \<leftarrow> crypto_frame decrypted spare r; read_then x (\<lambda>(f, r). Some (Inr ([f], r))) }
      else if frameType = 0x1c then do { x \<leftarrow> close_frame r; read_then x (\<lambda>r. Some (Inr ([], r))) }
      else fail ''invalid argument'')"

text \<open>No frame leaves more than it was read from.\<close>

lemma uvarint_bytes_shrinks: "uvarint_bytes n v r = Inr (x, r') \<Longrightarrow> length r' \<le> length r"
  by (induction n v r rule: uvarint_bytes.induct) auto

lemma ReadUvarint_shrinks: "ReadUvarint r = Inr (x, r') \<Longrightarrow> length r' < length r"
  by (auto simp: ReadUvarint_def ReadByte_def Let_def split: list.splits sum.splits dest: uvarint_bytes_shrinks)

lemma skip_uvarints_shrinks: "skip_uvarints n r = Inr r' \<Longrightarrow> length r' \<le> length r"
proof (induction n arbitrary: r)
  case (Suc n)
  then obtain v b where "ReadUvarint r = Inr (v, b)" "skip_uvarints n b = Inr r'" by (auto split: sum.splits)
  then show ?case using Suc.IH [of b] ReadUvarint_shrinks [of r v b] by linarith
qed simp

lemma read_then_Some_Inr: "read_then x f = Some (Inr y) \<longleftrightarrow> (\<exists>z. x = Inr z \<and> f z = Some (Inr y))"
  by (cases x) (auto simp: read_then_def)

lemma ack_frame_shrinks: "ack_frame t r = Some (Inr r') \<Longrightarrow> length r' \<le> length r"
  by (auto simp: ack_frame_def read_then_Some_Inr simp del: skip_uvarints.simps split: if_splits
      dest!: skip_uvarints_shrinks ReadUvarint_shrinks)

lemma crypto_frame_shrinks: "crypto_frame decrypted spare r = Some (Inr (f, r')) \<Longrightarrow> length r' \<le> length r"
  by (auto simp: crypto_frame_def read_then_Some_Inr Let_def split: bind_splits dest!: ReadUvarint_shrinks)

lemma close_frame_shrinks: "close_frame r = Some (Inr r') \<Longrightarrow> length r' \<le> length r"
  by (auto simp: close_frame_def read_then_Some_Inr simp del: skip_uvarints.simps dest!: skip_uvarints_shrinks ReadUvarint_shrinks)

lemma read_frame_shrinks: "read_frame decrypted spare t r = Some (Inr (fs, r')) \<Longrightarrow> length r' \<le> length r"
  by (auto simp: read_frame_def fail_def read_then_Some_Inr split: if_splits bind_splits
      dest: ack_frame_shrinks crypto_frame_shrinks close_frame_shrinks)

text \<open>The loop, with the types of all frames.\<close>

function frames_loop :: "byte list \<Rightarrow> byte list \<Rightarrow> byte list \<Rightarrow> (u8 list \<times> qCryptoFragment list) result" where
  "frames_loop decrypted spare r =
     (case r of
        [] \<Rightarrow> Some (Inr ([], []))
      | frameType # r1 \<Rightarrow>
          (case read_frame decrypted spare frameType r1 of
             None \<Rightarrow> None
           | Some (Inl e) \<Rightarrow> Some (Inl e)
           | Some (Inr (fs, r2)) \<Rightarrow>
               (case frames_loop decrypted spare r2 of
                  None \<Rightarrow> None
                | Some (Inl e) \<Rightarrow> Some (Inl e)
                | Some (Inr (types, fragments)) \<Rightarrow> Some (Inr (frameType # types, fs @ fragments)))))"
  by auto
termination frames_loop
  by (relation "measure (\<lambda>(d, s, r). length r)") (auto dest: read_frame_shrinks)

declare frames_loop.simps [simp del]

subsection \<open>Putting the fragments in order\<close>

definition frame_length :: "qCryptoFragment list \<Rightarrow> u64" where
  "frame_length fragments = sum_list (map q_length fragments)"

text \<open>\<open>buf.Buffer.Write\<close> appends what fits; what it does otherwise is a parameter.\<close>

definition buffer_Write :: "(byte list \<Rightarrow> byte list \<Rightarrow> byte list) \<Rightarrow> nat \<Rightarrow> byte list \<Rightarrow> byte list \<Rightarrow> byte list" where
  "buffer_Write short capacity p b = (if length b + length p \<le> capacity then b @ p else short p b)"

partial_function (option) find_loop ::
  "(byte list \<Rightarrow> byte list \<Rightarrow> byte list) \<Rightarrow> nat \<Rightarrow> qCryptoFragment list \<Rightarrow> u64 \<Rightarrow> byte list \<Rightarrow> byte list option" where
  "find_loop short capacity fragments index b =
     (case find (\<lambda>f. q_offset f = index) fragments of
        None \<Rightarrow> Some b
      | Some f \<Rightarrow> find_loop short capacity fragments (q_offset f + q_length f) (buffer_Write short capacity (q_payload f) b))"

definition reassemble :: "(byte list \<Rightarrow> byte list \<Rightarrow> byte list) \<Rightarrow> qCryptoFragment list \<Rightarrow> byte list option" where
  "reassemble short fragments =
     (let frameLen = frame_length fragments
      in find_loop short (5 + unat frameLen) fragments 0 ([0x16] @ be16 0x0303 @ be16 (ucast frameLen)))"

subsection \<open>The client\<close>

record sniff_metadata =
  m_Protocol :: string
  m_Domain :: "byte list"
  m_Client :: string
  m_SniffContext :: "qCryptoFragment list option"

definition isZero :: "u8 list \<Rightarrow> bool" where
  "isZero xs \<longleftrightarrow> (\<forall>x\<in>set xs. x = 0)"

definition frame_count :: "u8 list \<Rightarrow> u8 \<Rightarrow> nat" where
  "frame_count xs v = length (filter (\<lambda>x. x = v) xs)"

definition isQUICGo :: "ClientHello \<Rightarrow> bool" where
  "isQUICGo j \<longleftrightarrow> 0x11EC \<in> set (ch_EllipticCurves j) \<or> 0xFF01 \<in> set (ch_Extensions j)"

definition is_safari :: "ClientHello \<Rightarrow> bool" where
  "is_safari j \<longleftrightarrow>
     length (ch_Versions j) = 2 \<and> (ch_Versions j ! 0) AND 0x0F0F = 0x0A0A \<and>
     length (ch_EllipticCurves j) = 5 \<and> (ch_EllipticCurves j ! 0) AND 0x0F0F = 0x0A0A \<or>
     ch_CipherSuites j = [0x1302] \<and> ch_EllipticCurves j = [29] \<and> ch_SignatureAlgorithms j = [0x0403]"

text \<open>The \<open>for\<close> loop over the cases, which ends in its first round.\<close>

definition quic_client :: "u8 list \<Rightarrow> ClientHello \<Rightarrow> string option" where
  "quic_client types j =
     (if length types = 1 then Some ''firefox''
      else do {
        t0 \<leftarrow> index_at types 0;
        if t0 = 6 \<and> isZero (drop 1 types) \<and> is_safari j then Some ''safari''
        else do {
          tl \<leftarrow> index_at types (length types - 1);
          if tl = 6 \<and> isZero (take (length types - 1) types) then Some ''quic-go''
          else if frame_count types 6 > 1 \<or> frame_count types 1 > 0
          then Some (if isQUICGo j then ''quic-go'' else ''chromium'')
          else Some ''unknown'' } })"

text \<open>From the frames on: the error, if any, and the metadata; \<open>Some None\<close> is a panic, \<open>None\<close> a call that does not return.\<close>

definition sniff_hello ::
  "(byte list \<Rightarrow> byte list \<Rightarrow> byte list) \<Rightarrow> u8 list \<Rightarrow> qCryptoFragment list \<Rightarrow> sniff_metadata \<Rightarrow> (string option \<times> sniff_metadata) option option" where
  "sniff_hello short types fragments m =
     (let fragments = (case m_SniffContext m of None \<Rightarrow> fragments | Some old \<Rightarrow> fragments @ old);
          m = m\<lparr>m_SniffContext := None, m_Protocol := ''quic''\<rparr> in
      case reassemble short fragments of
        None \<Rightarrow> None
      | Some b \<Rightarrow>
          (case Compute b of
             None \<Rightarrow> None
           | Some None \<Rightarrow> Some None
           | Some (Some (Some e, j)) \<Rightarrow> Some (Some (Some ''need more data'', m\<lparr>m_SniffContext := Some fragments\<rparr>))
           | Some (Some (None, j)) \<Rightarrow>
               let m = m\<lparr>m_Domain := ch_ServerName j\<rparr> in
               if m_Client m = [] then
                 (case quic_client types j of None \<Rightarrow> Some None | Some c \<Rightarrow> Some (Some (None, m\<lparr>m_Client := c\<rparr>)))
               else Some (Some (None, m))))"

definition QUICClientHello ::
  "quic_crypto \<Rightarrow> (byte list \<Rightarrow> byte list \<Rightarrow> byte list) \<Rightarrow> sniff_metadata \<Rightarrow> byte list \<Rightarrow> (string option \<times> sniff_metadata) option option" where
  "QUICClientHello k short m packet =
     (case (do {
        x \<leftarrow> quic_read_header packet;
        read_then x (\<lambda>h. do {
        y \<leftarrow> open_packet k packet h;
        read_then y (\<lambda>(decrypted, spare). frames_loop decrypted spare decrypted) }) }) of
        None \<Rightarrow> Some None
      | Some (Inl e) \<Rightarrow> Some (Some (Some e, m))
      | Some (Inr (types, fragments)) \<Rightarrow> sniff_hello short types fragments m)"

subsection \<open>Removing the protection\<close>

text \<open>What the ciphers are relied on for: the sizes of their results.\<close>

definition crypto_ok :: "quic_crypto \<Rightarrow> bool" where
  "crypto_ok k \<longleftrightarrow> (\<forall>s i n. length (k_Expand k s i n) = n) \<and> (\<forall>key b. length b = 16 \<longrightarrow> length (k_Encrypt k key b) = 16)"

lemma read_then_None: "read_then x f = None \<longleftrightarrow> (\<exists>z. x = Inr z \<and> f z = None)"
  by (cases x) (auto simp: read_then_def)

lemma Discard_shrinks: "Discard n r = Inr r' \<Longrightarrow> length r' + n = length r"
  by (auto simp: Discard_def split: if_splits)

lemma ReadFull_shrinks: "ReadFull n r = Inr (b, r') \<Longrightarrow> length r' + n = length r \<and> length b = n"
  by (auto simp: ReadFull_def split: if_splits)

lemma ReadByte_shrinks: "ReadByte r = Inr (b, r') \<Longrightarrow> length r' + 1 = length r"
  by (auto simp: ReadByte_def split: list.splits)

lemma quic_read_ids_total: "quic_read_ids p \<noteq> None"
proof
  assume "quic_read_ids p = None"
  then show False
    by (auto simp: quic_read_ids_def read_then_None fail_def panic_simps split: if_splits bind_splits dest!: ReadFull_shrinks)
qed

lemma quic_read_ids_shrinks:
  assumes "quic_read_ids p = Some (Inr (v, i, r))"
  shows "length r < length p"
proof -
  obtain t r1 vb r2 n r3 r4 m r5 where
    "ReadByte p = Inr (t, r1)" "ReadFull 4 r1 = Inr (vb, r2)" "ReadByte r2 = Inr (n, r3)" "ReadFull (unat n) r3 = Inr (i, r4)"
    "ReadByte r4 = Inr (m, r5)" "Discard (unat m) r5 = Inr r"
    using assms by (auto simp: quic_read_ids_def read_then_Some_Inr fail_def split: if_splits bind_splits)
  then show ?thesis
    using ReadByte_shrinks [of p t r1] ReadFull_shrinks [of 4 r1 vb r2] ReadByte_shrinks [of r2 n r3] ReadFull_shrinks [of "unat n" r3 i r4]
      ReadByte_shrinks [of r4 m r5] Discard_shrinks [of "unat m" r5 r] by linarith
qed

lemma quic_read_header_total: "quic_read_header p \<noteq> None"
proof
  assume "quic_read_header p = None"
  then show False
    using quic_read_ids_total [of p] by (auto simp: quic_read_header_def read_then_None fail_def Let_def split: if_splits bind_splits)
qed

lemma quic_read_header_sizes:
  assumes "quic_read_header p = Some (Inr h)"
  shows "qh_hdrLen h + unat (qh_packetLen h) \<le> length p" "qh_hdrLen h + 20 \<le> length p" "length (qh_pnBytes h) = 16"
proof -
  obtain v i r0 t r1 r2 n r3 r4 pn r5 where
    "quic_read_ids p = Some (Inr (v, i, r0))" "ReadUvarint r0 = Inr (t, r1)" "Discard (unat t) r1 = Inr r2" "ReadUvarint r2 = Inr (n, r3)"
    "Discard 4 r3 = Inr r4" "ReadFull 16 r4 = Inr (pn, r5)" and n: "length p - length r3 + unat n \<le> length p"
    and h: "h = \<lparr>qh_version = v, qh_destConnID = i, qh_packetLen = n, qh_hdrLen = length p - length r3, qh_pnBytes = pn\<rparr>"
    using assms by (auto simp: quic_read_header_def read_then_Some_Inr fail_def Let_def split: if_splits bind_splits)
  then have "length r3 < length p" "20 \<le> length r3" "length pn = 16"
    using quic_read_ids_shrinks [of p v i r0] ReadUvarint_shrinks [of r0 t r1] Discard_shrinks [of "unat t" r1 r2] ReadUvarint_shrinks [of r2 n r3]
      Discard_shrinks [of 4 r3 r4] ReadFull_shrinks [of 16 r4 pn r5] by linarith+
  then show "qh_hdrLen h + unat (qh_packetLen h) \<le> length p" "qh_hdrLen h + 20 \<le> length p" "length (qh_pnBytes h) = 16"
    using n h by simp_all
qed

lemma xor_at_total: "i + length ms \<le> length b \<Longrightarrow> \<exists>b'. xor_at i ms b = Some b' \<and> length b' = length b"
proof (induction ms arbitrary: i b)
  case (Cons m ms)
  then obtain b' where "xor_at (Suc i) ms (b[i := b ! i XOR m]) = Some b' \<and> length b' = length b"
    using Cons.IH [of "Suc i" "b[i := b ! i XOR m]"] by auto
  then show ?case using Cons.prems by (simp add: panic_simps)
qed simp

lemma HKDFExpandLabel_total: "crypto_ok k \<Longrightarrow> \<exists>out. HKDFExpandLabel k s c l n = Some out \<and> length out = n"
  by (simp add: HKDFExpandLabel_def crypto_ok_def Let_def)

lemma packet_number_total: "\<lbrakk>hdrLen + 4 \<le> length b; n \<le> 4\<rbrakk> \<Longrightarrow> packet_number n hdrLen b \<noteq> None"
  by (auto simp: packet_number_def fail_def panic_simps)

lemma pn_length: "unat ((b AND 0x3) + 1 :: u8) \<le> 4"
proof -
  have "b AND 0x3 = take_bit 2 b" by (simp add: take_bit_eq_mask mask_eq_exp_minus_1)
  then have "unat (b AND 0x3) < 2 ^ 2" by (metis take_bit_nat_less_exp unsigned_take_bit_eq)
  then show ?thesis by (simp add: unat_word_ariths)
qed

lemma slice_total: "\<lbrakk>i \<le> j; j \<le> length b\<rbrakk> \<Longrightarrow> \<exists>s. slice i j b = Some s \<and> length s = j - i"
  by (simp add: slice_def)

lemma copy_slice_total: "\<lbrakk>i \<le> j; j \<le> length b\<rbrakk> \<Longrightarrow> \<exists>b'. copy_slice i j src b = Some b' \<and> length b' = length b"
  by (auto simp: copy_slice_def Let_def)

lemma open_packet_total:
  assumes k: "crypto_ok k" and h: "quic_read_header p = Some (Inr h)"
  shows "open_packet k p h \<noteq> None"
proof -
  note sizes = quic_read_header_sizes [OF h]
  let ?s = "k_Extract k (qh_destConnID h) (salt_of (qh_version h))" and ?two = "qh_version h = Version2"
  obtain secret where s: "HKDFExpandLabel k ?s [] ''client in'' 32 = Some secret" using HKDFExpandLabel_total [OF k] by blast
  obtain hp where hp: "HKDFExpandLabel k secret [] (if ?two then ''quicv2 hp'' else ''quic hp'') 16 = Some hp"
    using HKDFExpandLabel_total [OF k] by blast
  obtain key where key: "HKDFExpandLabel k secret [] (if ?two then ''quicv2 key'' else ''quic key'') 16 = Some key"
    using HKDFExpandLabel_total [OF k] by blast
  obtain iv where iv: "HKDFExpandLabel k secret [] (if ?two then ''quicv2 iv'' else ''quic iv'') 12 = Some iv" "length iv = 12"
    using HKDFExpandLabel_total [OF k] by blast
  define mask where "mask = k_Encrypt k hp (qh_pnBytes h)"
  have m: "length mask = 16" using k sizes(3) by (simp add: crypto_ok_def mask_def)
  obtain q where q: "xor_at 0 [mask ! 0 AND 0xF] p = Some q" "length q = length p" using xor_at_total [of 0 "[mask ! 0 AND 0xF]" p] sizes(2) by auto
  obtain ms where ms: "slice 1 5 mask = Some ms" "length ms = 4" using m slice_total [of 1 5 mask] by auto
  obtain q' where q': "xor_at (qh_hdrLen h) ms q = Some q'" "length q' = length p"
    using xor_at_total [of "qh_hdrLen h" ms q] ms(2) q(2) sizes(2) by auto
  define pnLen where "pnLen = unat ((q' ! 0 AND 0x3) + 1)"
  have pn: "pnLen \<le> 4" unfolding pnLen_def by (rule pn_length)
  obtain r where r: "packet_number pnLen (qh_hdrLen h) q' = Some r" using packet_number_total [of "qh_hdrLen h" q' pnLen] pn q'(2) sizes(2) by auto
  have i0: "index_at mask 0 = Some (mask ! 0)" "index_at q' 0 = Some (q' ! 0)"
    using m q'(2) sizes(2) by (simp_all add: index_at_def del: length_greater_0_conv)
  let ?ext = "qh_hdrLen h + pnLen" and ?stop = "unat (qh_packetLen h) + qh_hdrLen h"
  have start: "open_packet k p h = (if ?ext > ?stop then fail ''invalid argument'' else
      read_then r (\<lambda>packetNumber. do {
        src \<leftarrow> slice_from ?ext p;
        b \<leftarrow> copy_slice ?ext (qh_hdrLen h + 4) src q';
        data \<leftarrow> slice ?ext ?stop b;
        aad \<leftarrow> slice 0 ?ext b;
        opened \<leftarrow> aead_Open k key iv (be64 packetNumber) data aad;
        case opened of
          None \<Rightarrow> fail ''cipher: message authentication failed''
        | Some decrypted \<Rightarrow> Some (Inr (decrypted, drop (?ext + length decrypted) b)) }))"
    by (simp only: open_packet_def Let_def s hp key iv(1) mask_def [symmetric] i0 q(1) ms(1) q'(1) pnLen_def [symmetric] r Option.bind.bind_lunit)
  show ?thesis
  proof (cases "?ext \<le> ?stop")
    case True
    have src: "slice_from ?ext p = Some (drop ?ext p)" using True sizes(1) by (simp add: slice_from_def)
    obtain b where b: "copy_slice ?ext (qh_hdrLen h + 4) (drop ?ext p) q' = Some b" "length b = length p"
      using copy_slice_total [of ?ext "qh_hdrLen h + 4" q'] pn q'(2) sizes(2) by auto
    obtain data aad where "slice ?ext ?stop b = Some data" "slice 0 ?ext b = Some aad"
      using slice_total [of ?ext ?stop b] slice_total [of 0 ?ext b] True b(2) sizes(1) by auto
    then show ?thesis
      using True unfolding start by (auto simp: src b(1) aead_Open_def iv(2) read_then_None fail_def split: option.splits)
  qed (simp add: start fail_def)
qed

subsection \<open>When the sniffer panics\<close>

text \<open>The loop over the frames panics only on a CRYPTO frame longer than what is left of the array.\<close>

definition overlong_crypto :: "byte list \<Rightarrow> byte list \<Rightarrow> bool" where
  "overlong_crypto decrypted spare \<longleftrightarrow>
     (\<exists>r off r1 len r2. ReadUvarint r = Inr (off, r1) \<and> ReadUvarint r1 = Inr (len, r2) \<and> length r \<le> length decrypted \<and>
        unat len > length r2 + length spare)"

lemma crypto_frame_panics:
  assumes "crypto_frame decrypted spare r = None" "length r \<le> length decrypted"
  shows "overlong_crypto decrypted spare"
proof -
  obtain off r1 len r2 where r: "ReadUvarint r = Inr (off, r1)" "ReadUvarint r1 = Inr (len, r2)"
    and n: "slice (length decrypted - length r2) (length decrypted - length r2 + unat len) (decrypted @ spare) = None"
    using assms(1) by (auto simp: crypto_frame_def read_then_None Let_def split: bind_splits)
  have "length r2 \<le> length decrypted" using ReadUvarint_shrinks [OF r(1)] ReadUvarint_shrinks [OF r(2)] assms(2) by linarith
  then have "unat len > length r2 + length spare" using n by (auto simp: slice_def split: if_splits)
  then show ?thesis using r assms(2) unfolding overlong_crypto_def by blast
qed

lemma read_frame_panics:
  assumes "read_frame decrypted spare t r = None" "length r \<le> length decrypted"
  shows "overlong_crypto decrypted spare"
proof -
  have "ack_frame t r \<noteq> None" "close_frame r \<noteq> None" by (auto simp: ack_frame_def close_frame_def read_then_def split: sum.splits)
  then have "crypto_frame decrypted spare r = None"
    using assms(1) by (auto simp: read_frame_def fail_def read_then_None split: if_splits bind_splits)
  then show ?thesis using assms(2) by (rule crypto_frame_panics)
qed

lemma frames_loop_panics:
  assumes "frames_loop decrypted spare r = None" "length r \<le> length decrypted"
  shows "overlong_crypto decrypted spare"
  using assms
proof (induction decrypted spare r rule: frames_loop.induct)
  case (1 decrypted spare r)
  obtain t r1 where r: "r = t # r1" using 1(2) by (cases r) (simp_all add: frames_loop.simps)
  show ?case
  proof (cases "read_frame decrypted spare t r1")
    case None
    then show ?thesis using 1(3) r by (intro read_frame_panics [of _ _ t r1]) simp_all
  next
    case (Some x)
    obtain fs r2 where x: "x = Inr (fs, r2)" using 1(2) Some r by (cases x) (auto simp: frames_loop.simps [of decrypted spare "t # r1"])
    have "frames_loop decrypted spare r2 = None"
      using 1(2) Some r x by (simp add: frames_loop.simps [of decrypted spare "t # r1"] split: option.splits sum.splits prod.splits)
    moreover have "length r2 \<le> length decrypted" using read_frame_shrinks [of decrypted spare t r1 fs r2] Some x 1(3) r by simp
    ultimately show ?thesis using 1(1) [OF r Some x refl] by blast
  qed
qed


definition plain_crypto :: "byte list \<Rightarrow> quic_crypto" where
  "plain_crypto frames = \<lparr>k_Extract = \<lambda>s t. [], k_Expand = \<lambda>s i n. replicate n 0, k_Encrypt = \<lambda>key b. replicate 16 0,
     k_Open = \<lambda>key nonce c aad. Some frames\<rparr>"

definition initial_packet :: "byte list" where
  "initial_packet = [0x40, 0, 0, 0, 1, 1, 0, 0, 0, 20] @ replicate 20 0"

definition fresh_metadata :: sniff_metadata where
  "fresh_metadata = \<lparr>m_Protocol = [], m_Domain = [], m_Client = [], m_SniffContext = None\<rparr>"


subsection \<open>Reassembly\<close>

text \<open>The fragments of a message cut into pieces.\<close>

definition fragment :: "nat \<Rightarrow> byte list \<Rightarrow> qCryptoFragment" where
  "fragment off p = \<lparr>q_offset = of_nat off, q_length = of_nat (length p), q_payload = p\<rparr>"

fun fragments_from :: "nat \<Rightarrow> byte list list \<Rightarrow> qCryptoFragment list" where
  "fragments_from off [] = []"
| "fragments_from off (p # ps) = fragment off p # fragments_from (off + length p) ps"

text \<open>What can be read from the start when only some of the fragments are there.\<close>

fun present :: "qCryptoFragment list \<Rightarrow> nat \<Rightarrow> byte list list \<Rightarrow> byte list" where
  "present fs off [] = []"
| "present fs off (p # ps) = (if fragment off p \<in> set fs then p @ present fs (off + length p) ps else [])"

lemma unat_of_nat_64: "n < 2 ^ 64 \<Longrightarrow> unat (of_nat n :: u64) = n"
  by (simp add: unat_of_nat take_bit_nat_eq_self)

lemma fragments_offsets:
  assumes "f \<in> set (fragments_from off ps)" "[] \<notin> set ps" "off + length (concat ps) < 2 ^ 64"
  shows "off \<le> unat (q_offset f) \<and> unat (q_offset f) + length (q_payload f) \<le> off + length (concat ps) \<and> q_payload f \<noteq> [] \<and>
    unat (q_length f) = length (q_payload f)"
  using assms
proof (induction ps arbitrary: off)
  case (Cons p ps)
  show ?case
  proof (cases "f = fragment off p")
    case True
    then show ?thesis using Cons.prems by (auto simp: fragment_def unat_of_nat_64)
  next
    case False
    then show ?thesis using Cons.IH [of "off + length p"] Cons.prems by auto
  qed
qed simp

lemma fragments_distinct:
  assumes "[] \<notin> set ps" "off + length (concat ps) < 2 ^ 64"
  shows "distinct (map q_offset (fragments_from off ps))"
  using assms
proof (induction ps arbitrary: off)
  case (Cons p ps)
  have "q_offset f \<noteq> of_nat off" if "f \<in> set (fragments_from (off + length p) ps)" for f
    using fragments_offsets [OF that] Cons.prems unat_of_nat_64 [of off] by fastforce
  then show ?case using Cons by (force simp: fragment_def)
qed simp

lemma find_offset:
  assumes "distinct (map q_offset fs)" "f \<in> set fs" "q_offset f = i"
  shows "find (\<lambda>f. q_offset f = i) fs = Some f"
  using assms by (induction fs) (auto simp: image_iff)

lemma find_loop_present:
  assumes sub: "set fs \<subseteq> set (fragments_from 0 (qs @ ps))" and d: "distinct (map q_offset fs)"
    and ne: "[] \<notin> set (qs @ ps)" and len: "length (concat (qs @ ps)) < 2 ^ 64"
    and off: "off = length (concat qs)" and cap: "length b + length (present fs off ps) \<le> cap"
  shows "find_loop short cap fs (of_nat off) b = Some (b @ present fs off ps)"
  using assms
proof (induction ps arbitrary: qs off b)
  case Nil
  have "q_offset f \<noteq> of_nat off" if "f \<in> set fs" for f
    using fragments_offsets [of f 0 "qs"] that Nil unat_of_nat_64 [of off] by fastforce
  then have "find (\<lambda>f. q_offset f = of_nat off) fs = None" by (simp add: find_None_iff)
  then show ?case by (subst find_loop.simps) simp
next
  case (Cons p ps)
  have split: "fragments_from o' (xs @ ys) = fragments_from o' xs @ fragments_from (o' + length (concat xs)) ys" for o' xs ys
    by (induction xs arbitrary: o') (simp_all add: add.assoc)
  show ?case
  proof (cases "fragment off p \<in> set fs")
    case True
    have "find (\<lambda>f. q_offset f = of_nat off) fs = Some (fragment off p)"
      using Cons.prems(2) True by (intro find_offset) (simp_all add: fragment_def)
    moreover have "find_loop short cap fs (of_nat (off + length p)) (b @ p) = Some ((b @ p) @ present fs (off + length p) ps)"
      using Cons.prems True by (intro Cons.IH [of "qs @ [p]"]) simp_all
    ultimately show ?thesis
      using Cons.prems(6) True by (subst find_loop.simps) (simp add: fragment_def buffer_Write_def)
  next
    case False
    have "q_offset f \<noteq> of_nat off" if "f \<in> set fs" for f
    proof
      assume o: "q_offset f = of_nat off"
      have "fragment off p \<in> set (fragments_from 0 (qs @ p # ps))" using Cons.prems(5) by (simp add: split)
      moreover have "f \<in> set (fragments_from 0 (qs @ p # ps))" using that Cons.prems(1) by blast
      moreover have "q_offset f = q_offset (fragment off p)" using o by (simp add: fragment_def)
      moreover have "distinct (map q_offset (fragments_from 0 (qs @ p # ps)))" using Cons.prems(3,4) by (intro fragments_distinct) simp_all
      ultimately have "f = fragment off p" by (auto simp: distinct_map inj_on_def)
      then show False using that False by simp
    qed
    then have "find (\<lambda>f. q_offset f = of_nat off) fs = None" by (simp add: find_None_iff)
    then show ?thesis using False by (subst find_loop.simps) simp
  qed
qed

text \<open>The bytes present are no more than the fragments there are.\<close>

lemma present_length:
  assumes "[] \<notin> set ps" "off + length (concat ps) < 2 ^ 64"
  shows "length (present fs off ps) \<le> (\<Sum>f \<in> {f \<in> set fs. off \<le> unat (q_offset f)}. length (q_payload f))"
  using assms
proof (induction ps arbitrary: off)
  case (Cons p ps)
  let ?S = "\<lambda>off. {f \<in> set fs. off \<le> unat (q_offset f)}"
  show ?case
  proof (cases "fragment off p \<in> set fs")
    case True
    have o: "unat (q_offset (fragment off p)) = off" using Cons.prems by (simp add: fragment_def unat_of_nat_64)
    have "p \<noteq> []" using Cons.prems by auto
    have "length (present fs off (p # ps)) \<le> length p + (\<Sum>f \<in> ?S (off + length p). length (q_payload f))"
      using True Cons.IH [of "off + length p"] Cons.prems by simp
    also have "\<dots> = (\<Sum>f \<in> insert (fragment off p) (?S (off + length p)). length (q_payload f))"
      using o \<open>p \<noteq> []\<close> by (subst sum.insert) (simp_all add: fragment_def)
    also have "\<dots> \<le> (\<Sum>f \<in> ?S off. length (q_payload f))"
      using True o by (intro sum_mono2) auto
    finally show ?thesis .
  qed simp
qed simp

definition payload_length :: "qCryptoFragment list \<Rightarrow> nat" where
  "payload_length fs = sum_list (map (\<lambda>f. length (q_payload f)) fs)"

lemma payload_length_from: "payload_length (fragments_from off ps) = length (concat ps)"
  by (induction ps arbitrary: off) (simp_all add: payload_length_def fragment_def)

lemma present_fits:
  assumes "distinct fs" "[] \<notin> set ps" "length (concat ps) < 2 ^ 64"
  shows "length (present fs 0 ps) \<le> payload_length fs"
  using present_length [of ps 0 fs] assms by (simp add: payload_length_def sum_list_distinct_conv_sum_set)

lemma payload_length_mset: "mset fs \<subseteq># mset gs \<Longrightarrow> payload_length fs \<le> payload_length gs"
  unfolding payload_length_def sum_mset_sum_list [symmetric] mset_map
  by (metis image_mset_union sum_mset.union le_add1 mset_subset_eq_exists_conv)

lemma frame_length_payload:
  assumes "\<forall>f \<in> set fs. unat (q_length f) = length (q_payload f)" "payload_length fs < 2 ^ 64"
  shows "unat (frame_length fs) = payload_length fs"
  using assms
proof (induction fs)
  case (Cons f fs)
  have "unat (q_length f + frame_length fs) = unat (q_length f) + unat (frame_length fs)"
    using Cons by (intro unat_add_lem [THEN iffD1]) (simp add: payload_length_def)
  then show ?case using Cons by (simp add: payload_length_def frame_length_def)
qed (simp add: frame_length_def payload_length_def)

lemma distinct_sub_mset:
  assumes "mset xs \<subseteq># mset ys" "distinct ys"
  shows "distinct xs"
proof -
  obtain zs where "mset ys = mset xs + mset zs" using assms(1) by (metis ex_mset mset_subset_eq_exists_conv)
  then have "mset ys = mset (xs @ zs)" by simp
  then have "distinct (xs @ zs)" using assms(2) by (metis mset_eq_imp_distinct_iff)
  then show ?thesis by simp
qed

text \<open>Some of the fragments of a message: what the loop reads, and the record header it is given.\<close>

lemma reassemble_present:
  assumes sub: "mset fs \<subseteq># mset (fragments_from 0 ps)" and ne: "[] \<notin> set ps" and len: "length (concat ps) < 2 ^ 16"
  shows "reassemble short fs = Some ([0x16] @ be16 0x0303 @ be16 (of_nat (payload_length fs)) @ present fs 0 ps)"
    "length (present fs 0 ps) \<le> payload_length fs" "payload_length fs \<le> length (concat ps)"
proof -
  have d: "distinct (map q_offset (fragments_from 0 ps))" using ne len by (intro fragments_distinct) simp_all
  have "mset (map q_offset fs) \<subseteq># mset (map q_offset (fragments_from 0 ps))" using sub by (simp add: image_mset_subseteq_mono)
  then have df: "distinct (map q_offset fs)" using d by (rule distinct_sub_mset)
  then have "distinct fs" by (rule distinct_map [THEN iffD1, THEN conjunct1])
  then show fits: "length (present fs 0 ps) \<le> payload_length fs" using ne len by (intro present_fits) simp_all
  show pl: "payload_length fs \<le> length (concat ps)" using payload_length_mset [OF sub] by (simp add: payload_length_from)
  have set: "set fs \<subseteq> set (fragments_from 0 ps)" using sub by (metis set_mset_mono set_mset_mset)
  then have "\<forall>f \<in> set fs. unat (q_length f) = length (q_payload f)" using fragments_offsets [of _ 0 ps] ne len by fastforce
  then have u: "unat (frame_length fs) = payload_length fs" using pl len by (intro frame_length_payload) simp_all
  then have c: "ucast (frame_length fs) = (of_nat (payload_length fs) :: u16)" by (metis of_nat_unat)
  show "reassemble short fs = Some ([0x16] @ be16 0x0303 @ be16 (of_nat (payload_length fs)) @ present fs 0 ps)"
    unfolding reassemble_def Let_def u c
    using find_loop_present [of fs "[]" ps 0 "[0x16] @ be16 0x0303 @ be16 (of_nat (payload_length fs))" "5 + payload_length fs" short] set df ne len fits
    by simp
qed

subsection \<open>Complete and incomplete hellos\<close>

lemma present_cases:
  assumes "[] \<notin> set ps"
  shows "set (fragments_from off ps) \<subseteq> set fs \<and> present fs off ps = concat ps \<or>
    \<not> set (fragments_from off ps) \<subseteq> set fs \<and> (\<exists>rest. rest \<noteq> [] \<and> concat ps = present fs off ps @ rest)"
  using assms by (induction ps arbitrary: off) auto

definition hello_handshake :: "hello \<Rightarrow> byte list" where
  "hello_handshake h = [1, 0] @ be16 (of_nat (length (hello_body h))) @ hello_body h"

definition crypto_record :: "nat \<Rightarrow> byte list \<Rightarrow> byte list" where
  "crypto_record n c = [0x16] @ be16 0x0303 @ be16 (of_nat n) @ c"

lemma version_supported_0303: "version_supported 0x0303"
  by (simp add: version_supported_def)

lemma Compute_complete:
  assumes "hello_wf h"
  shows "Compute (crypto_record (length (hello_handshake h)) (hello_handshake h)) = Some (Some (None, hello_fields h))"
proof -
  let ?h = "h\<lparr>h_recordVersion := 0x0303\<rparr>"
  have b: "hello_body ?h = hello_body h" by (simp add: hello_body_def hello_suites_def hello_exts_def)
  have "hello_wf ?h" using assms b by (simp add: hello_wf_def hello_sized_def version_supported_0303)
  moreover have "crypto_record (length (hello_handshake h)) (hello_handshake h) = hello_bytes ?h"
    by (simp add: crypto_record_def hello_handshake_def hello_bytes_def b)
  moreover have "hello_fields ?h = hello_fields h" by (simp add: hello_fields_def)
  ultimately show ?thesis using Compute_hello [of ?h "[]"] by simp
qed

lemma segment_prefix_record:
  assumes "n < 2 ^ 16" "length c \<le> n"
  shows "segment_prefix (crypto_record n c) = Some (if length c < n then Inl (LengthErr 2) else Inr c)"
proof -
  let ?p = "crypto_record n c"
  have "unat (of_nat n :: u16) = n" using assms(1) by (rule unat_of_nat_16)
  moreover have "?p ! 0 = 22" "u16_at ?p 1 = Some 0x0303" "u16_at ?p 3 = Some (of_nat n)" "drop 5 ?p = c" "length ?p = 5 + length c"
    by (simp_all add: crypto_record_def panic_simps be_simps)
  ultimately show ?thesis
    using assms(2) version_supported_0303 by (simp add: segment_prefix_def index_at_def slice_from_def del: length_greater_0_conv)
qed

lemma Compute_incomplete:
  assumes wf: "hello_sized h" and c: "hello_handshake h = c @ rest" "rest \<noteq> []" and n: "n < 2 ^ 16" "length c \<le> n"
  shows "\<exists>e j. Compute (crypto_record n c) = Some (Some (Some e, j))"
proof (cases "length c < n \<or> length c < 39")
  case True
  then show ?thesis
    using segment_prefix_record [OF n] by (auto simp: Compute_def parseSegment_def parseHandshake_def handshake_prefix_def)
next
  case False
  let ?n = "of_nat (length (hello_body h)) :: u16"
  have un: "unat ?n = length (hello_body h)" using wf by (intro unat_of_nat_16) (simp add: hello_sized_def)
  have nth: "c ! i = hello_handshake h ! i" if "i < 4" for i using c(1) that False by (simp add: nth_append)
  have h: "c ! 0 = 1" "c ! 1 = 0" "c ! 2 = ucast (drop_bit 8 ?n)" "c ! 3 = ucast ?n"
    using nth [of 0] nth [of 1] nth [of 2] nth [of 3] by (simp_all add: hello_handshake_def be16_def)
  have "unat (push_bit 16 (ucast (c ! 1)) OR push_bit 8 (ucast (c ! 2)) OR ucast (c ! 3) :: u32) = length (hello_body h)"
    unfolding h length24 using wf by (simp add: un unsigned_ucast_eq hello_sized_def take_bit_nat_eq_self)
  moreover have "length c < 4 + length (hello_body h)"
    using arg_cong [OF c(1), of length] c(2) by (cases rest) (simp_all add: hello_handshake_def)
  then have "length c - 4 \<noteq> length (hello_body h)" using False by linarith
  ultimately have "handshake_prefix empty_hello c = Some (empty_hello, Inl (LengthErr 4))"
    using False h(1) by (simp add: handshake_prefix_def index_at_def Let_def del: length_greater_0_conv)
  then show ?thesis
    using False segment_prefix_record [OF n] by (simp add: Compute_def parseSegment_def parseHandshake_def)
qed

lemma quic_client_total: "types \<noteq> [] \<Longrightarrow> \<exists>c. quic_client types j = Some c"
  by (auto simp: quic_client_def index_at_def)

text \<open>Fragments kept from earlier packets.\<close>

definition saved :: "sniff_metadata \<Rightarrow> qCryptoFragment list" where
  "saved m = (case m_SniffContext m of None \<Rightarrow> [] | Some old \<Rightarrow> old)"

lemma sniff_hello_record:
  assumes "mset (new @ saved m) \<subseteq># mset (fragments_from 0 ps)" "[] \<notin> set ps" "length (concat ps) < 2 ^ 16"
  shows "reassemble short (new @ saved m) =
    Some (crypto_record (payload_length (new @ saved m)) (present (new @ saved m) 0 ps))"
    "(case m_SniffContext m of None \<Rightarrow> new | Some old \<Rightarrow> new @ old) = new @ saved m"
  using reassemble_present(1) [OF assms, of short] by (simp_all add: crypto_record_def saved_def split: option.split)

lemma distinct_subset_mset: "\<lbrakk>distinct xs; set xs \<subseteq> set ys\<rbrakk> \<Longrightarrow> mset xs \<subseteq># mset ys"
  by (metis List.finite_set mset_set_set mset_set_set_mset_msubset set_mset_mset subset_imp_msubset_mset_set subset_mset.order_trans)

lemma sniff_incomplete:
  assumes sized: "hello_sized h" and ps: "concat ps = hello_handshake h" "[] \<notin> set ps" and sub: "mset (new @ saved m) \<subset># mset (fragments_from 0 ps)"
  shows "sniff_hello short types new m =
    Some (Some (Some ''need more data'', m\<lparr>m_Protocol := ''quic'', m_SniffContext := Some (new @ saved m)\<rparr>))"
proof -
  let ?fs = "new @ saved m" and ?all = "fragments_from 0 ps"
  have len: "length (concat ps) < 2 ^ 16" using sized ps(1) by (simp add: hello_handshake_def hello_sized_def)
  have le: "mset ?fs \<subseteq># mset ?all" using sub by (rule subset_mset.less_imp_le)
  note rec = sniff_hello_record(1) [OF le ps(2) len, of short] sniff_hello_record(2) [OF le ps(2) len]
    and pres = reassemble_present(2,3) [OF le ps(2) len]
  have "distinct ?all" using fragments_distinct [of ps 0] ps(2) len by (simp add: distinct_map)
  then have "\<not> set ?all \<subseteq> set ?fs" using distinct_subset_mset [of ?all ?fs] sub by (auto simp: subset_mset.less_le_not_le)
  then obtain rest where "rest \<noteq> []" "concat ps = present ?fs 0 ps @ rest" using present_cases [OF ps(2), of 0 ?fs] by blast
  then obtain e j where "Compute (crypto_record (payload_length ?fs) (present ?fs 0 ps)) = Some (Some (Some e, j))"
    using Compute_incomplete [OF sized, of "present ?fs 0 ps" rest "payload_length ?fs"] ps(1) pres len by auto
  then show ?thesis by (simp add: sniff_hello_def Let_def rec)
qed

lemma sniff_complete:
  assumes wf: "hello_wf h" and ps: "concat ps = hello_handshake h" "[] \<notin> set ps"
    and all: "mset (new @ saved m) = mset (fragments_from 0 ps)" "types \<noteq> []"
  shows "\<exists>c. sniff_hello short types new m = Some (Some (None, m\<lparr>m_Protocol := ''quic'', m_SniffContext := None,
    m_Domain := ch_ServerName (hello_fields h), m_Client := c\<rparr>))"
proof -
  let ?fs = "new @ saved m" and ?all = "fragments_from 0 ps"
  have len: "length (concat ps) < 2 ^ 16" using wf ps(1) by (simp add: hello_handshake_def hello_sized_def hello_wf_def)
  have le: "mset ?fs \<subseteq># mset ?all" using all(1) by simp
  note rec = sniff_hello_record(1) [OF le ps(2) len, of short] sniff_hello_record(2) [OF le ps(2) len]
  have "set ?all = set ?fs" using all(1) by (metis mset_eq_setD)
  then have "present ?fs 0 ps = hello_handshake h" using present_cases [OF ps(2), of 0 ?fs] ps(1) by auto
  moreover have "payload_length ?fs = length (hello_handshake h)"
    using all(1) payload_length_mset [of ?fs ?all] payload_length_mset [of ?all ?fs] payload_length_from [of 0 ps] ps(1) by simp
  ultimately have C: "Compute (crypto_record (payload_length ?fs) (present ?fs 0 ps)) = Some (Some (None, hello_fields h))"
    using Compute_complete [OF wf] by simp
  obtain c where c: "quic_client types (hello_fields h) = Some c" using quic_client_total [OF all(2)] by blast
  show ?thesis
    by (rule exI [of _ "if m_Client m = [] then c else m_Client m"]) (simp add: sniff_hello_def Let_def rec C c)
qed

text \<open>C39. A client hello that is cut into pieces in any way, and whose pieces arrive in any order in one or several packets:
  while pieces are missing the sniffer asks for more and keeps the fragments it has; once all are there it reports the protocol and the server name
  of the hello.\<close>

theorem quic_sniff_fragments:
  assumes "hello_wf h" "concat ps = hello_handshake h" "[] \<notin> set ps"
  shows "(mset (new @ saved m) \<subset># mset (fragments_from 0 ps) \<longrightarrow>
      sniff_hello short types new m =
        Some (Some (Some ''need more data'', m\<lparr>m_Protocol := ''quic'', m_SniffContext := Some (new @ saved m)\<rparr>))) \<and>
    (mset (new @ saved m) = mset (fragments_from 0 ps) \<and> types \<noteq> [] \<longrightarrow>
      (\<exists>c. sniff_hello short types new m = Some (Some (None, m\<lparr>m_Protocol := ''quic'', m_SniffContext := None,
         m_Domain := ch_ServerName (hello_fields h), m_Client := c\<rparr>))))"
  using sniff_incomplete [of h ps new m short types] sniff_complete [of h ps new m types short] assms by (auto simp: hello_wf_def)

text \<open>The second piece arrives first, the first one in the next packet.\<close>

definition two_pieces :: "byte list list" where
  "two_pieces = [take 10 (hello_handshake small_hello), drop 10 (hello_handshake small_hello)]"

theorem quic_sniff_fragments_witness:
  "\<exists>f1 f2 m. fragments_from 0 two_pieces = [f1, f2] \<and>
     sniff_hello (\<lambda>p b. b) [6] [f2] fresh_metadata = Some (Some (Some ''need more data'', m)) \<and>
     (\<exists>m'. sniff_hello (\<lambda>p b. b) [6, 0] [f1] m = Some (Some (None, m')) \<and> m_Domain m' = [97, 46, 98])"
proof -
  let ?fs = "fragments_from 0 two_pieces"
  have h: "length (hello_handshake small_hello) > 10" by (simp add: hello_handshake_def small_hello_def hello_body_def)
  have wf: "hello_wf small_hello"
    by (simp add: hello_wf_def hello_sized_def small_hello_def version_supported_def hello_body_def hello_suites_def hello_exts_def exts_bytes_def)
  have ps: "concat two_pieces = hello_handshake small_hello" "[] \<notin> set two_pieces" using h by (auto simp: two_pieces_def)
  obtain f1 f2 where f: "?fs = [f1, f2]" by (simp add: two_pieces_def)
  note sniff = quic_sniff_fragments [OF wf ps, unfolded f]
  let ?m = "fresh_metadata\<lparr>m_Protocol := ''quic'', m_SniffContext := Some [f2]\<rparr>"
  have "sniff_hello (\<lambda>p b. b) [6] [f2] fresh_metadata = Some (Some (Some ''need more data'', ?m))"
    using sniff [of "[f2]" fresh_metadata "\<lambda>p b. b" "[6]"] by (simp add: saved_def fresh_metadata_def)
  moreover have "\<exists>m'. sniff_hello (\<lambda>p b. b) [6, 0] [f1] ?m = Some (Some (None, m')) \<and> m_Domain m' = [97, 46, 98]"
    using sniff [of "[f1]" ?m "\<lambda>p b. b" "[6, 0]"] by (auto simp: saved_def hello_fields_def Let_def small_hello_def no_exts_def)
  ultimately show ?thesis using f by blast
qed

text \<open>An empty CRYPTO frame at the position the loop is at is found again and again.\<close>

lemma empty_fragment_diverges:
  assumes "find (\<lambda>f. q_offset f = i) fs = Some f" "q_length f = 0"
  shows "find_loop short capacity fs i b = None"
proof (rule ccontr)
  have i: "q_offset f = i" using assms(1) by (auto simp: find_Some_iff)
  assume "find_loop short capacity fs i b \<noteq> None"
  then obtain y where "find_loop short capacity fs i b = Some y" by auto
  then have "find (\<lambda>f. q_offset f = i) fs = Some f \<longrightarrow> \<not> (q_offset f = i \<and> q_length f = 0)"
    by (rule find_loop.raw_induct [where P = "\<lambda>short capacity fs i b y. find (\<lambda>f. q_offset f = i) fs = Some f \<longrightarrow> \<not> (q_offset f = i \<and> q_length f = 0)", rotated])
      (auto split: option.splits, blast)
  then show False using assms i by simp
qed

lemma empty_crypto_frame_diverges: "QUICClientHello (plain_crypto [6, 0, 0]) short fresh_metadata initial_packet = None"
proof -
  have "quic_read_header initial_packet = Some (Inr \<lparr>qh_version = 1, qh_destConnID = [0], qh_packetLen = 20, qh_hdrLen = 10, qh_pnBytes = replicate 16 0\<rparr>)"
    by code_simp
  moreover have "\<exists>spare. open_packet (plain_crypto [6, 0, 0]) initial_packet \<lparr>qh_version = 1, qh_destConnID = [0], qh_packetLen = 20, qh_hdrLen = 10, qh_pnBytes = replicate 16 0\<rparr>
     = Some (Inr ([6, 0, 0], spare))"
    by (rule exI) code_simp
  moreover have "frames_loop [6, 0, 0] spare [6, 0, 0] = Some (Inr ([6], [\<lparr>q_offset = 0, q_length = 0, q_payload = []\<rparr>]))" for spare
    by (simp add: frames_loop.simps read_frame_def crypto_frame_def ReadUvarint_def ReadByte_def read_then_def slice_def)
  moreover have "sniff_hello short [6] [\<lparr>q_offset = 0, q_length = 0, q_payload = []\<rparr>] fresh_metadata = None"
    by (simp add: sniff_hello_def reassemble_def fresh_metadata_def Let_def empty_fragment_diverges)
  ultimately show ?thesis by (auto simp: QUICClientHello_def read_then_def)
qed

end
