(* ===== verification/KcpSegment.thy ===== *)
theory KcpSegment
  imports Prelude
begin

section \<open>mKCP wire format (\<open>transport/v2raykcp/segment.go\<close>, \<open>output.go\<close>)\<close>

text \<open>
  The three segment types of the protocol, their serialisation into a caller-supplied buffer, the
  parser \<open>ReadSegment\<close> and the buffer-reusing \<open>SimpleSegmentWriter\<close>. A payload is the contents of a
  \<open>buf.Buffer\<close> of the \<open>sing\<close> library, which is not part of this repository: what a fresh buffer
  holds after \<open>Reset\<close> and \<open>Write(d)\<close> is the parameter \<open>bufWrite\<close> of the parser (the library may
  truncate at the buffer's capacity); a nil payload is \<^const>\<open>None\<close>. \<open>ByteSize\<close> is a natural
  number here: the \<open>int32\<close> of the source cannot overflow on buffers that exist.
\<close>

type_synonym Command = byte
type_synonym SegmentOption = byte

definition CommandACK :: Command where "CommandACK = 0"
definition CommandData :: Command where "CommandData = 1"
definition CommandTerminate :: Command where "CommandTerminate = 2"
definition CommandPing :: Command where "CommandPing = 3"
definition SegmentOptionClose :: SegmentOption where "SegmentOptionClose = 1"

lemmas command_defs = CommandACK_def CommandData_def CommandTerminate_def CommandPing_def

record DataSegment =
  ds_Conv :: u16
  ds_Option :: SegmentOption
  ds_Timestamp :: u32
  ds_Number :: u32
  ds_SendingNext :: u32
  ds_payload :: "byte list option"
  ds_timeout :: u32
  ds_transmit :: u32

record AckSegment =
  as_Conv :: u16
  as_Option :: SegmentOption
  as_ReceivingWindow :: u32
  as_ReceivingNext :: u32
  as_Timestamp :: u32
  as_NumberList :: "u32 list"

record CmdOnlySegment =
  cs_Conv :: u16
  cs_Cmd :: Command
  cs_Option :: SegmentOption
  cs_SendingNext :: u32
  cs_ReceivingNext :: u32
  cs_PeerRTO :: u32

datatype Segment = SegData DataSegment | SegAck AckSegment | SegCmd CmdOnlySegment

definition NewDataSegment :: DataSegment where
  "NewDataSegment = \<lparr>ds_Conv = 0, ds_Option = 0, ds_Timestamp = 0, ds_Number = 0,
     ds_SendingNext = 0, ds_payload = None, ds_timeout = 0, ds_transmit = 0\<rparr>"

definition ackNumberLimit :: nat where "ackNumberLimit = 128"

definition NewAckSegment :: AckSegment where
  "NewAckSegment = \<lparr>as_Conv = 0, as_Option = 0, as_ReceivingWindow = 0, as_ReceivingNext = 0,
     as_Timestamp = 0, as_NumberList = []\<rparr>"

definition NewCmdOnlySegment :: CmdOnlySegment where
  "NewCmdOnlySegment = \<lparr>cs_Conv = 0, cs_Cmd = 0, cs_Option = 0, cs_SendingNext = 0,
     cs_ReceivingNext = 0, cs_PeerRTO = 0\<rparr>"

subsection \<open>Accessors\<close>

fun Conversation :: "Segment \<Rightarrow> u16" where
  "Conversation (SegData s) = ds_Conv s"
| "Conversation (SegAck s) = as_Conv s"
| "Conversation (SegCmd s) = cs_Conv s"

fun seg_Command :: "Segment \<Rightarrow> Command" where
  "seg_Command (SegData s) = CommandData"
| "seg_Command (SegAck s) = CommandACK"
| "seg_Command (SegCmd s) = cs_Cmd s"

definition PutTimestamp :: "u32 \<Rightarrow> AckSegment \<Rightarrow> AckSegment" where
  "PutTimestamp timestamp s =
     (if timestamp - as_Timestamp s < 0x7FFFFFFF then s\<lparr>as_Timestamp := timestamp\<rparr> else s)"

definition PutNumber :: "u32 \<Rightarrow> AckSegment \<Rightarrow> AckSegment" where
  "PutNumber number s = s\<lparr>as_NumberList := as_NumberList s @ [number]\<rparr>"

definition IsFull :: "AckSegment \<Rightarrow> bool" where
  "IsFull s \<longleftrightarrow> length (as_NumberList s) = ackNumberLimit"

definition Ack_IsEmpty :: "AckSegment \<Rightarrow> bool" where
  "Ack_IsEmpty s \<longleftrightarrow> length (as_NumberList s) = 0"

subsection \<open>Sizes and serialisation\<close>

text \<open>\<open>ByteSize\<close> and \<open>Serialize\<close> of a data segment dereference the payload buffer: nil panics.\<close>

fun ByteSize :: "Segment \<Rightarrow> nat option" where
  "ByteSize (SegData s) = map_option (\<lambda>p. 2 + 1 + 1 + 4 + 4 + 4 + 2 + length p) (ds_payload s)"
| "ByteSize (SegAck s) = Some (2 + 1 + 1 + 4 + 4 + 4 + 1 + length (as_NumberList s) * 4)"
| "ByteSize (SegCmd s) = Some (2 + 1 + 1 + 4 + 4 + 4)"

definition Data_Serialize :: "DataSegment \<Rightarrow> byte list \<Rightarrow> byte list option" where
  "Data_Serialize s b = do {
     b \<leftarrow> PutUint16 0 (ds_Conv s) b;
     b \<leftarrow> put_at 2 [CommandData] b;
     b \<leftarrow> put_at 3 [ds_Option s] b;
     b \<leftarrow> PutUint32 4 (ds_Timestamp s) b;
     b \<leftarrow> PutUint32 8 (ds_Number s) b;
     b \<leftarrow> PutUint32 12 (ds_SendingNext s) b;
     p \<leftarrow> ds_payload s;
     b \<leftarrow> PutUint16 16 (word_of_nat (length p)) b;
     copy_at 18 p b }"

fun put_numbers :: "nat \<Rightarrow> u32 list \<Rightarrow> byte list \<Rightarrow> byte list option" where
  "put_numbers n [] b = Some b"
| "put_numbers n (number # ns) b = do {
     b \<leftarrow> PutUint32 n number b;
     put_numbers (n + 4) ns b }"

definition Ack_Serialize :: "AckSegment \<Rightarrow> byte list \<Rightarrow> byte list option" where
  "Ack_Serialize s b = do {
     b \<leftarrow> PutUint16 0 (as_Conv s) b;
     b \<leftarrow> put_at 2 [CommandACK] b;
     b \<leftarrow> put_at 3 [as_Option s] b;
     b \<leftarrow> PutUint32 4 (as_ReceivingWindow s) b;
     b \<leftarrow> PutUint32 8 (as_ReceivingNext s) b;
     b \<leftarrow> PutUint32 12 (as_Timestamp s) b;
     b \<leftarrow> put_at 16 [word_of_nat (length (as_NumberList s))] b;
     put_numbers 17 (as_NumberList s) b }"

definition Cmd_Serialize :: "CmdOnlySegment \<Rightarrow> byte list \<Rightarrow> byte list option" where
  "Cmd_Serialize s b = do {
     b \<leftarrow> PutUint16 0 (cs_Conv s) b;
     b \<leftarrow> put_at 2 [cs_Cmd s] b;
     b \<leftarrow> put_at 3 [cs_Option s] b;
     b \<leftarrow> PutUint32 4 (cs_SendingNext s) b;
     b \<leftarrow> PutUint32 8 (cs_ReceivingNext s) b;
     PutUint32 12 (cs_PeerRTO s) b }"

fun Serialize :: "Segment \<Rightarrow> byte list \<Rightarrow> byte list option" where
  "Serialize (SegData s) b = Data_Serialize s b"
| "Serialize (SegAck s) b = Ack_Serialize s b"
| "Serialize (SegCmd s) b = Cmd_Serialize s b"

text \<open>
  \<open>SimpleSegmentWriter.Write\<close>: the buffer of the writer is reused from packet to packet and only
  grown when the segment is larger. The result is the new buffer and the packet handed to the
  underlying writer.
\<close>

definition SegmentWriter_Write :: "byte list \<Rightarrow> Segment \<Rightarrow> (byte list \<times> byte list) option" where
  "SegmentWriter_Write buffer seg = do {
     segSize \<leftarrow> ByteSize seg;
     let buffer = (if segSize > length buffer then replicate segSize 0 else buffer);
     out \<leftarrow> Serialize seg (take segSize buffer);
     Some (out @ drop segSize buffer, out) }"

subsection \<open>Parsing\<close>

text \<open>
  \<open>parse\<close> returns \<open>(bool, []byte)\<close>: \<^term>\<open>Some None\<close> is the \<open>false, nil\<close> of the source,
  \<^term>\<open>Some (Some (s, rest))\<close> the success value with the receiver \<open>s\<close> filled in, and
  \<^const>\<open>None\<close> a panic.
\<close>

definition Data_parse ::
  "(byte list \<Rightarrow> byte list) \<Rightarrow> u16 \<Rightarrow> SegmentOption \<Rightarrow> byte list
     \<Rightarrow> (DataSegment \<times> byte list) option option" where
  "Data_parse bufWrite conv opt data =
     (if length data < 15 then Some None
      else do {
        timestamp \<leftarrow> Uint32 data;
        data \<leftarrow> slice_from 4 data;
        number \<leftarrow> Uint32 data;
        data \<leftarrow> slice_from 4 data;
        sendingNext \<leftarrow> Uint32 data;
        data \<leftarrow> slice_from 4 data;
        dataLen \<leftarrow> map_option unat (Uint16 data);
        data \<leftarrow> slice_from 2 data;
        if length data < dataLen then Some None
        else do {
          rest \<leftarrow> slice_from dataLen data;
          Some (Some (NewDataSegment\<lparr>ds_Conv := conv, ds_Option := opt,
             ds_Timestamp := timestamp, ds_Number := number, ds_SendingNext := sendingNext,
             ds_payload := Some (bufWrite (take dataLen data))\<rparr>, rest)) } })"

fun parse_numbers :: "nat \<Rightarrow> AckSegment \<Rightarrow> byte list \<Rightarrow> (AckSegment \<times> byte list) option" where
  "parse_numbers 0 s buf = Some (s, buf)"
| "parse_numbers (Suc count) s buf = do {
     number \<leftarrow> Uint32 buf;
     buf \<leftarrow> slice_from 4 buf;
     parse_numbers count (PutNumber number s) buf }"

definition Ack_parse ::
  "u16 \<Rightarrow> SegmentOption \<Rightarrow> byte list \<Rightarrow> (AckSegment \<times> byte list) option option" where
  "Ack_parse conv opt buf =
     (if length buf < 13 then Some None
      else do {
        receivingWindow \<leftarrow> Uint32 buf;
        buf \<leftarrow> slice_from 4 buf;
        receivingNext \<leftarrow> Uint32 buf;
        buf \<leftarrow> slice_from 4 buf;
        timestamp \<leftarrow> Uint32 buf;
        buf \<leftarrow> slice_from 4 buf;
        count \<leftarrow> map_option unat (index_at buf 0);
        buf \<leftarrow> slice_from 1 buf;
        if length buf < count * 4 then Some None
        else map_option Some (parse_numbers count
          (NewAckSegment\<lparr>as_Conv := conv, as_Option := opt,
             as_ReceivingWindow := receivingWindow, as_ReceivingNext := receivingNext,
             as_Timestamp := timestamp\<rparr>) buf) })"

definition Cmd_parse ::
  "u16 \<Rightarrow> Command \<Rightarrow> SegmentOption \<Rightarrow> byte list \<Rightarrow> (CmdOnlySegment \<times> byte list) option option"
where
  "Cmd_parse conv cmd opt buf =
     (if length buf < 12 then Some None
      else do {
        sendingNext \<leftarrow> Uint32 buf;
        buf \<leftarrow> slice_from 4 buf;
        receivingNext \<leftarrow> Uint32 buf;
        buf \<leftarrow> slice_from 4 buf;
        peerRTO \<leftarrow> Uint32 buf;
        buf \<leftarrow> slice_from 4 buf;
        Some (Some (NewCmdOnlySegment\<lparr>cs_Conv := conv, cs_Cmd := cmd, cs_Option := opt,
           cs_SendingNext := sendingNext, cs_ReceivingNext := receivingNext,
           cs_PeerRTO := peerRTO\<rparr>, buf)) })"

definition ReadSegment ::
  "(byte list \<Rightarrow> byte list) \<Rightarrow> byte list \<Rightarrow> (Segment \<times> byte list) option option" where
  "ReadSegment bufWrite buf =
     (if length buf < 4 then Some None
      else do {
        conv \<leftarrow> Uint16 buf;
        buf \<leftarrow> slice_from 2 buf;
        cmd \<leftarrow> index_at buf 0;
        opt \<leftarrow> index_at buf 1;
        buf \<leftarrow> slice_from 2 buf;
        if cmd = CommandData
        then map_option (map_option (apfst SegData)) (Data_parse bufWrite conv opt buf)
        else if cmd = CommandACK
        then map_option (map_option (apfst SegAck)) (Ack_parse conv opt buf)
        else map_option (map_option (apfst SegCmd)) (Cmd_parse conv cmd opt buf) })"

subsection \<open>The reference encoding\<close>

text \<open>The byte layout of each segment type as one expression, which \<open>Serialize\<close> is proved to
  produce whatever the buffer held before.\<close>

fun encode :: "Segment \<Rightarrow> byte list" where
  "encode (SegData s) = be16 (ds_Conv s) @ [CommandData, ds_Option s] @ be32 (ds_Timestamp s) @
     be32 (ds_Number s) @ be32 (ds_SendingNext s) @
     (case ds_payload s of None \<Rightarrow> [] | Some p \<Rightarrow> be16 (word_of_nat (length p)) @ p)"
| "encode (SegAck s) = be16 (as_Conv s) @ [CommandACK, as_Option s] @ be32 (as_ReceivingWindow s) @
     be32 (as_ReceivingNext s) @ be32 (as_Timestamp s) @
     [word_of_nat (length (as_NumberList s))] @ concat (map be32 (as_NumberList s))"
| "encode (SegCmd s) = be16 (cs_Conv s) @ [cs_Cmd s, cs_Option s] @ be32 (cs_SendingNext s) @
     be32 (cs_ReceivingNext s) @ be32 (cs_PeerRTO s)"

lemma length_concat_be32 [simp]: "length (concat (map be32 ns)) = length ns * 4"
  by (induction ns) auto

lemma length_encode: "ByteSize seg = Some n \<Longrightarrow> length (encode seg) = n"
  by (cases seg) auto

lemma put_seq_numbers: "put_numbers n ns = put_seq n (map be32 ns)"
  by (induction ns arbitrary: n) (auto simp: PutUint32_def intro!: ext)

lemma Cmd_Serialize_encode:
  "length b = 16 \<Longrightarrow> Cmd_Serialize s b = Some (encode (SegCmd s))"
  using put_seq_concat [of b "[be16 (cs_Conv s), [cs_Cmd s], [cs_Option s],
      be32 (cs_SendingNext s), be32 (cs_ReceivingNext s), be32 (cs_PeerRTO s)]"]
  by (simp add: Cmd_Serialize_def PutUint16_def PutUint32_def eval_nat_numeral)

lemma Data_Serialize_encode:
  assumes "ds_payload s = Some p" "length b = 18 + length p"
  shows "Data_Serialize s b = Some (encode (SegData s))"
proof -
  let ?cs = "[be16 (ds_Conv s), [CommandData], [ds_Option s], be32 (ds_Timestamp s),
    be32 (ds_Number s), be32 (ds_SendingNext s), be16 (word_of_nat (length p)), p]"
  have "Data_Serialize s b = put_seq 0 ?cs b"
    using assms by (auto simp: Data_Serialize_def PutUint16_def PutUint32_def copy_at_put_at eval_nat_numeral
        intro!: put_at_length_bind)
  also have "\<dots> = Some (concat ?cs)"
    using assms(2) by (intro put_seq_concat) simp
  finally show ?thesis using assms(1) by simp
qed

lemma Ack_Serialize_encode:
  assumes "length b = 17 + length (as_NumberList s) * 4"
  shows "Ack_Serialize s b = Some (encode (SegAck s))"
proof -
  let ?cs = "[be16 (as_Conv s), [CommandACK], [as_Option s], be32 (as_ReceivingWindow s),
    be32 (as_ReceivingNext s), be32 (as_Timestamp s), [word_of_nat (length (as_NumberList s))]]
    @ map be32 (as_NumberList s)"
  have "Ack_Serialize s b = put_seq 0 ?cs b"
    by (simp add: Ack_Serialize_def PutUint16_def PutUint32_def put_seq_numbers eval_nat_numeral)
  also have "\<dots> = Some (concat ?cs)"
    using assms by (intro put_seq_concat) simp
  finally show ?thesis by simp
qed

lemma Serialize_encode:
  assumes "ByteSize seg = Some n" "length b = n"
  shows "Serialize seg b = Some (encode seg)"
proof (cases seg)
  case (SegData s)
  with assms show ?thesis by (auto simp: Data_Serialize_encode simp del: encode.simps)
next
  case (SegAck s)
  with assms show ?thesis by (auto simp: Ack_Serialize_encode simp del: encode.simps)
next
  case (SegCmd s)
  with assms show ?thesis by (simp add: Cmd_Serialize_encode del: encode.simps)
qed

lemma parse_numbers_encode:
  "parse_numbers (length ns) s (concat (map be32 ns) @ r) = Some (s\<lparr>as_NumberList := as_NumberList s @ ns\<rparr>, r)"
  by (induction ns arbitrary: s) (auto simp: be_simps PutNumber_def)

lemma Data_parse_encode:
  assumes "length p < 65536" "bufWrite p = p" "p @ r \<noteq> []"
  shows "Data_parse bufWrite conv opt (be32 ts @ be32 n @ be32 sn @ be16 (word_of_nat (length p)) @ p @ r)
    = Some (Some (NewDataSegment\<lparr>ds_Conv := conv, ds_Option := opt, ds_Timestamp := ts,
         ds_Number := n, ds_SendingNext := sn, ds_payload := Some p\<rparr>, r))"
proof -
  have "unat (word_of_nat (length p) :: u16) = length p"
    using assms(1) by (simp add: unat_of_nat)
  then show ?thesis using assms(2,3)
    by (auto simp: Data_parse_def be_simps slice_from_def)
qed

lemma Ack_parse_encode:
  assumes "length ns < 256"
  shows "Ack_parse conv opt (be32 rw @ be32 rn @ be32 ts @ [word_of_nat (length ns)] @ concat (map be32 ns) @ r)
    = Some (Some (NewAckSegment\<lparr>as_Conv := conv, as_Option := opt, as_ReceivingWindow := rw,
         as_ReceivingNext := rn, as_Timestamp := ts, as_NumberList := ns\<rparr>, r))"
proof -
  have "unat (word_of_nat (length ns) :: byte) = length ns"
    using assms by (simp add: unat_of_nat)
  then show ?thesis
    by (simp add: Ack_parse_def be_simps slice_from_def index_at_def parse_numbers_encode NewAckSegment_def)
qed

lemma Cmd_parse_encode:
  "Cmd_parse conv cmd opt (be32 sn @ be32 rn @ be32 rto @ r)
    = Some (Some (NewCmdOnlySegment\<lparr>cs_Conv := conv, cs_Cmd := cmd, cs_Option := opt,
         cs_SendingNext := sn, cs_ReceivingNext := rn, cs_PeerRTO := rto\<rparr>, r))"
  by (simp add: Cmd_parse_def be_simps)

lemma parse_numbers_Some:
  "count * 4 \<le> length buf \<Longrightarrow> \<exists>ns. length ns = count \<and> buf = concat (map be32 ns) @ drop (count * 4) buf \<and>
    parse_numbers count s buf = Some (s\<lparr>as_NumberList := as_NumberList s @ ns\<rparr>, drop (count * 4) buf)"
proof (induction count arbitrary: s buf)
  case (Suc count)
  have "count * 4 \<le> length (drop 4 buf)" using Suc.prems by simp
  then obtain ns where ns: "length ns = count"
    "drop 4 buf = concat (map be32 ns) @ drop (count * 4) (drop 4 buf)"
    "parse_numbers count (PutNumber (rd32 buf) s) (drop 4 buf) =
      Some ((PutNumber (rd32 buf) s)\<lparr>as_NumberList := as_NumberList (PutNumber (rd32 buf) s) @ ns\<rparr>,
        drop (count * 4) (drop 4 buf))"
    using Suc.IH by blast
  have "buf = be32 (rd32 buf) @ drop 4 buf" using Suc.prems be32_rd32 [of buf] by simp
  then have "buf = concat (map be32 (rd32 buf # ns)) @ drop (Suc count * 4) buf"
    using ns(2) by (simp add: add.commute)
  with ns Suc.prems show ?case
    by (intro exI [of _ "rd32 buf # ns"]) (simp add: panic_simps PutNumber_def add.commute)
qed simp

subsection \<open>What the parser accepts\<close>

text \<open>The retransmission bookkeeping of a data segment is local and does not travel.\<close>

fun wire_view :: "Segment \<Rightarrow> Segment" where
  "wire_view (SegData s) = SegData (s\<lparr>ds_timeout := 0, ds_transmit := 0\<rparr>)"
| "wire_view seg = seg"

text \<open>The segments a sender can put on the wire: payload and number list fit their length fields,
  and a command-only segment does not carry the command byte of another segment type. The parser
  wants one byte after the fixed part of a data segment, so an empty payload is not sendable.\<close>

fun wire_ok :: "(byte list \<Rightarrow> byte list) \<Rightarrow> Segment \<Rightarrow> bool" where
  "wire_ok bufWrite (SegData s) \<longleftrightarrow>
     (case ds_payload s of None \<Rightarrow> False
      | Some p \<Rightarrow> p \<noteq> [] \<and> length p < 65536 \<and> bufWrite p = p)"
| "wire_ok bufWrite (SegAck s) \<longleftrightarrow> length (as_NumberList s) < 256"
| "wire_ok bufWrite (SegCmd s) \<longleftrightarrow> cs_Cmd s \<noteq> CommandData \<and> cs_Cmd s \<noteq> CommandACK"

lemma wire_ok_ByteSize: "wire_ok bufWrite seg \<Longrightarrow> ByteSize seg = Some (length (encode seg))"
  by (cases seg) (auto split: option.splits)

lemma ReadSegment_encode:
  assumes "wire_ok bufWrite seg"
  shows "ReadSegment bufWrite (encode seg @ r) = Some (Some (wire_view seg, r))"
proof (cases seg)
  case (SegData s)
  with assms obtain p where p: "ds_payload s = Some p" "p \<noteq> []" "length p < 65536" "bufWrite p = p"
    by (auto split: option.splits)
  then show ?thesis
    using SegData Data_parse_encode [of p bufWrite r]
    by (simp add: ReadSegment_def be_simps slice_from_def index_at_def NewDataSegment_def)
next
  case (SegAck s)
  with assms show ?thesis
    using Ack_parse_encode [of "as_NumberList s"]
    by (simp add: ReadSegment_def be_simps slice_from_def index_at_def command_defs
        NewAckSegment_def)
next
  case (SegCmd s)
  with assms show ?thesis
    by (simp add: ReadSegment_def be_simps slice_from_def index_at_def Cmd_parse_encode
        NewCmdOnlySegment_def)
qed

lemma SegmentWriter_Write_encode:
  assumes "wire_ok bufWrite seg"
  shows "\<exists>buffer'. SegmentWriter_Write buffer seg = Some (buffer', encode seg)"
  using wire_ok_ByteSize [OF assms] Serialize_encode [OF wire_ok_ByteSize [OF assms]]
  by (simp add: SegmentWriter_Write_def Let_def)

lemma Data_parse_canonical:
  assumes "Data_parse bufWrite conv opt d = Some (Some (s, rest))" "\<And>d. bufWrite d = d"
  shows "\<exists>p. ds_payload s = Some p \<and> d = be32 (ds_Timestamp s) @ be32 (ds_Number s) @ be32 (ds_SendingNext s)
     @ be16 (word_of_nat (length p)) @ p @ rest \<and> ds_Conv s = conv \<and> ds_Option s = opt"
proof -
  have len: "15 \<le> length d" using assms(1) by (auto simp: Data_parse_def split: if_splits)
  define e where "e = drop 14 d"
  have e: "d = be32 (rd32 d) @ be32 (rd32 (drop 4 d)) @ be32 (rd32 (drop 8 d)) @ be16 (rd16 (drop 12 d)) @ e"
    using len be32_rd32 [of d] be32_rd32 [of "drop 4 d"] be32_rd32 [of "drop 8 d"] be16_rd16 [of "drop 12 d"]
    by (simp add: e_def)
  have "unat (rd16 (drop 12 d)) \<le> length e \<and>
      s = NewDataSegment\<lparr>ds_Conv := conv, ds_Option := opt,
             ds_Timestamp := rd32 d, ds_Number := rd32 (drop 4 d), ds_SendingNext := rd32 (drop 8 d),
             ds_payload := Some (take (unat (rd16 (drop 12 d))) e)\<rparr> \<and> rest = drop (unat (rd16 (drop 12 d))) e"
    using assms len by (auto simp: Data_parse_def panic_simps e_def split: if_splits)
  then show ?thesis using e by (auto simp: min_absorb2)
qed

lemma Ack_parse_canonical:
  assumes "Ack_parse conv opt d = Some (Some (s, rest))"
  shows "d = be32 (as_ReceivingWindow s) @ be32 (as_ReceivingNext s) @ be32 (as_Timestamp s) @
     [word_of_nat (length (as_NumberList s))] @ concat (map be32 (as_NumberList s)) @ rest \<and>
     as_Conv s = conv \<and> as_Option s = opt"
proof -
  have len: "13 \<le> length d" using assms by (auto simp: Ack_parse_def split: if_splits)
  define e where "e = drop 13 d"
  have e: "d = be32 (rd32 d) @ be32 (rd32 (drop 4 d)) @ be32 (rd32 (drop 8 d)) @ [d ! 12] @ e"
    using len be32_rd32 [of d] be32_rd32 [of "drop 4 d"] be32_rd32 [of "drop 8 d"]
      Cons_nth_drop_Suc [of 12 d]
    by (simp add: e_def)
  let ?s = "NewAckSegment\<lparr>as_Conv := conv, as_Option := opt, as_ReceivingWindow := rd32 d,
     as_ReceivingNext := rd32 (drop 4 d), as_Timestamp := rd32 (drop 8 d)\<rparr>"
  let ?n = "unat (d ! 12)"
  have pn: "?n * 4 \<le> length e" "parse_numbers ?n ?s e = Some (s, rest)"
    using assms len by (auto simp: Ack_parse_def panic_simps e_def split: if_splits)
  then obtain ns where ns: "length ns = ?n" "e = concat (map be32 ns) @ drop (?n * 4) e"
    "s = ?s\<lparr>as_NumberList := ns\<rparr>" "rest = drop (?n * 4) e"
    using parse_numbers_Some [OF pn(1), of ?s] by (auto simp: NewAckSegment_def)
  have "concat (map be32 ns) @ rest = e" using ns(2) by (simp only: ns(4))
  moreover have "word_of_nat (length ns) = d ! 12" by (simp add: ns(1))
  ultimately show ?thesis using e by (simp add: ns(3) del: length_map)
qed

lemma Cmd_parse_canonical:
  assumes "Cmd_parse conv cmd opt d = Some (Some (s, rest))"
  shows "d = be32 (cs_SendingNext s) @ be32 (cs_ReceivingNext s) @ be32 (cs_PeerRTO s) @ rest \<and>
     cs_Conv s = conv \<and> cs_Cmd s = cmd \<and> cs_Option s = opt"
proof -
  have len: "12 \<le> length d" using assms by (auto simp: Cmd_parse_def split: if_splits)
  have "d = be32 (rd32 d) @ be32 (rd32 (drop 4 d)) @ be32 (rd32 (drop 8 d)) @ drop 12 d"
    using len be32_rd32 [of d] be32_rd32 [of "drop 4 d"] be32_rd32 [of "drop 8 d"] by simp
  then show ?thesis
    using assms len by (auto simp: Cmd_parse_def panic_simps split: if_splits)
qed

lemma ReadSegment_total: "\<exists>r. ReadSegment bufWrite buf = Some r"
proof -
  have D: "\<exists>r. Data_parse bufWrite c opt d = Some r" for c opt d
    by (simp add: Data_parse_def panic_simps)
  have C: "\<exists>r. Cmd_parse c cmd opt d = Some r" for c cmd opt d
    by (simp add: Cmd_parse_def panic_simps)
  have A: "\<exists>r. Ack_parse c opt d = Some r" for c opt d
  proof -
    have "\<exists>r. parse_numbers n s b = Some r" if "n * 4 \<le> length b" for n s b
      using parse_numbers_Some [OF that] by blast
    then show ?thesis by (simp add: Ack_parse_def panic_simps not_less)
  qed
  from A C D show ?thesis
    by (simp add: ReadSegment_def panic_simps)
qed

lemma Data_parse_shrinks:
  "Data_parse bufWrite conv opt d = Some (Some (s, rest)) \<Longrightarrow> length rest + 14 \<le> length d"
  by (auto simp: Data_parse_def panic_simps split: if_splits)

lemma Ack_parse_shrinks:
  "Ack_parse conv opt d = Some (Some (s, rest)) \<Longrightarrow> length rest + 13 \<le> length d"
  by (drule Ack_parse_canonical, drule conjunct1, drule arg_cong [of _ _ length]) simp

lemma Cmd_parse_shrinks:
  "Cmd_parse conv cmd opt d = Some (Some (s, rest)) \<Longrightarrow> length rest + 12 \<le> length d"
  by (drule Cmd_parse_canonical, drule conjunct1, drule arg_cong [of _ _ length]) simp

lemma ReadSegment_shrinks:
  assumes "ReadSegment bufWrite buf = Some (Some (seg, rest))"
  shows "length rest + 16 \<le> length buf"
proof -
  have len: "4 \<le> length buf" using assms by (auto simp: ReadSegment_def split: if_splits)
  with assms show ?thesis
    by (auto simp: ReadSegment_def panic_simps split: if_splits
        dest!: Data_parse_shrinks Ack_parse_shrinks Cmd_parse_shrinks)
qed

subsection \<open>Properties\<close>

text \<open>C10. Parsing never panics: whatever bytes arrive from the network (and whatever the buffer
  library does with a payload), \<open>ReadSegment\<close> returns; every index and slice expression of the
  three \<open>parse\<close> methods stays inside the packet.\<close>

theorem ReadSegment_never_panics: "\<exists>r. ReadSegment bufWrite buf = Some r"
  by (rule ReadSegment_total)

text \<open>C8. What the segment writer sends, the parser reads back: for every sendable segment, the
  packet that \<open>SimpleSegmentWriter.Write\<close> emits does not depend on what its reused buffer held
  before, and \<open>ReadSegment\<close> on it (followed by any further segments \<open>r\<close>) returns the segment and
  leaves exactly \<open>r\<close>.\<close>

theorem SegmentWriter_roundtrip:
  assumes "wire_ok bufWrite seg"
  shows "\<exists>out. (\<forall>buffer. \<exists>buffer'. SegmentWriter_Write buffer seg = Some (buffer', out)) \<and>
     (\<forall>r. ReadSegment bufWrite (out @ r) = Some (Some (wire_view seg, r)))"
  using SegmentWriter_Write_encode [OF assms] ReadSegment_encode [OF assms] by blast

theorem SegmentWriter_roundtrip_witness:
  "let seg = SegAck (NewAckSegment\<lparr>as_Conv := 7, as_NumberList := [1, 2, 3]\<rparr>) in
   wire_ok id seg \<and>
   (\<exists>out. (\<forall>buffer. \<exists>buffer'. SegmentWriter_Write buffer seg = Some (buffer', out)) \<and>
     (\<forall>r. ReadSegment id (out @ r) = Some (Some (wire_view seg, r))))"
proof -
  let ?seg = "SegAck (NewAckSegment\<lparr>as_Conv := 7, as_NumberList := [1, 2, 3]\<rparr>)"
  have ok: "wire_ok id ?seg" by (simp add: NewAckSegment_def)
  show ?thesis using ok SegmentWriter_roundtrip [OF ok] by (simp add: Let_def)
qed



end
