(* ===== verification/KcpCrypt.thy ===== *)
theory KcpCrypt
  imports Prelude
begin

section \<open>mKCP packet obfuscation (\<open>transport/v2raykcp/crypt.go\<close>, \<open>header.go\<close>, \<open>errors.go\<close>)\<close>

text \<open>
  The legacy authenticator that wraps every datagram when no seed is configured, and the
  obfuscating headers put in front of it. \<open>cipher.AEAD\<close> is the record \<open>AEAD\<close>; its contract is the
  locale \<open>aead\<close>, which \<open>SimpleAuthenticator\<close> is shown to satisfy. AES-GCM and SHA-256 are not
  defined here: they are the functions \<open>sha256\<close> and \<open>gcm\<close> that \<open>NewAEADAESGCMBasedOnSeed\<close> takes,
  and what is proved of a seeded configuration assumes the AEAD contract of \<open>gcm\<close>. The random
  numbers that a new header draws are arguments of the constructors.
\<close>

datatype kcp_error = ErrIOTimeout | ErrClosedListener | ErrClosedConnection | NewError string

subsection \<open>FNV-1a (\<open>hash/fnv\<close>)\<close>

fun fnv32a :: "u32 \<Rightarrow> byte list \<Rightarrow> u32" where
  "fnv32a h [] = h"
| "fnv32a h (c # cs) = fnv32a ((h XOR ucast c) * 16777619) cs"

definition fnv_New32a :: u32 where "fnv_New32a = 2166136261"

subsection \<open>The XOR chains\<close>

definition xor_step :: "nat \<Rightarrow> byte list \<Rightarrow> byte list" where
  "xor_step i b = b[i := b ! i XOR b ! (i - 4)]"

function xorfwd_loop :: "nat \<Rightarrow> byte list \<Rightarrow> byte list" where
  "xorfwd_loop i b = (if i < length b then xorfwd_loop (Suc i) (xor_step i b) else b)"
  by auto

termination xorfwd_loop
  by (relation "measure (\<lambda>(i, b). length b - i)") (auto simp: xor_step_def)

declare xorfwd_loop.simps [simp del]

definition xorfwd :: "byte list \<Rightarrow> byte list" where "xorfwd b = xorfwd_loop 4 b"

text \<open>The backward loop counts an \<open>int\<close> down from \<open>len(b)-1\<close>; the argument is that index plus one.\<close>

fun xorbkd_loop :: "nat \<Rightarrow> byte list \<Rightarrow> byte list" where
  "xorbkd_loop 0 b = b"
| "xorbkd_loop (Suc i) b = (if i \<ge> 4 then xorbkd_loop i (xor_step i b) else b)"

definition xorbkd :: "byte list \<Rightarrow> byte list" where "xorbkd b = xorbkd_loop (length b) b"

subsection \<open>\<open>SimpleAuthenticator\<close>\<close>

definition pad4 :: "byte list \<Rightarrow> byte list" where
  "pad4 dst = (let xtra = 4 - length dst mod 4 in if xtra \<noteq> 4 then dst @ replicate xtra 0 else dst)"

definition cut4 :: "nat \<Rightarrow> byte list \<Rightarrow> byte list" where
  "cut4 dstLen dst = (if 4 - dstLen mod 4 \<noteq> 4 then take dstLen dst else dst)"

definition Simple_Seal :: "byte list \<Rightarrow> byte list \<Rightarrow> byte list option" where
  "Simple_Seal dst plain = do {
     dst \<leftarrow> PutUint16 4 (word_of_nat (length plain)) (dst @ [0, 0, 0, 0, 0, 0]);
     let dst = dst @ plain;
     hashed \<leftarrow> slice_from 4 dst;
     dst \<leftarrow> put_at 0 (be32 (fnv32a fnv_New32a hashed)) dst;
     Some (cut4 (length dst) (xorfwd (pad4 dst))) }"

text \<open>
  \<open>Open\<close> reads \<open>dst[:4]\<close> and \<open>dst[4:6]\<close>. A slice expression is bounded by the capacity and not by
  the length of its operand, so on fewer than six bytes the outcome depends on what the allocator
  returned; the model counts every such read as a panic.
\<close>

definition Simple_Open :: "byte list \<Rightarrow> byte list \<Rightarrow> (kcp_error + byte list) option" where
  "Simple_Open dst cipherText = do {
     let dst = dst @ cipherText;
     let dst = cut4 (length dst) (xorbkd (pad4 dst));
     hashed \<leftarrow> slice_from 4 dst;
     sum \<leftarrow> Uint32 dst;
     if sum \<noteq> fnv32a fnv_New32a hashed then Some (Inl (NewError ''invalid auth''))
     else do {
       len \<leftarrow> Uint16 hashed;
       body \<leftarrow> slice_from 6 dst;
       if length dst - 6 \<noteq> unat len then Some (Inl (NewError ''invalid auth''))
       else Some (Inr body) } }"

record AEAD =
  aead_NonceSize :: nat
  aead_Overhead :: nat
  aead_Seal :: "byte list \<Rightarrow> byte list \<Rightarrow> byte list option"
  aead_Open :: "byte list \<Rightarrow> byte list \<Rightarrow> (kcp_error + byte list) option"

text \<open>Both methods are only called with \<open>dst\<close> and \<open>extra\<close> nil; the record keeps the nonce and the
  text as arguments.\<close>

definition NewSimpleAuthenticator :: AEAD where
  "NewSimpleAuthenticator = \<lparr>aead_NonceSize = 0, aead_Overhead = 6,
     aead_Seal = (\<lambda>nonce. Simple_Seal []), aead_Open = (\<lambda>nonce. Simple_Open [])\<rparr>"

definition NewAEADAESGCMBasedOnSeed ::
  "(string \<Rightarrow> byte list) \<Rightarrow> (byte list \<Rightarrow> AEAD) \<Rightarrow> string \<Rightarrow> AEAD" where
  "NewAEADAESGCMBasedOnSeed sha256 gcm seed = gcm (take 16 (sha256 seed))"

subsection \<open>Obfuscating headers\<close>

record srtpHeader = srtp_header :: u16  srtp_number :: u16
record utpHeader = utp_header :: byte  utp_extension :: byte  utp_connectionID :: u16
record wechatVideoHeader = wechat_sn :: u32
record dtlsHeader = dtls_epoch :: u16  dtls_length :: u16  dtls_sequence :: u32

datatype PacketHeader = SRTP srtpHeader | UTP utpHeader | WechatVideo wechatVideoHeader
  | DTLS dtlsHeader | Wireguard

definition newSRTPHeader :: "u16 \<Rightarrow> srtpHeader" where
  "newSRTPHeader rnd16 = \<lparr>srtp_header = 0xB5E8, srtp_number = rnd16\<rparr>"

definition newUTPHeader :: "u16 \<Rightarrow> utpHeader" where
  "newUTPHeader rnd16 = \<lparr>utp_header = 1, utp_extension = 0, utp_connectionID = rnd16\<rparr>"

definition newWechatVideoHeader :: "u32 \<Rightarrow> wechatVideoHeader" where
  "newWechatVideoHeader rnd32 = \<lparr>wechat_sn = rnd32\<rparr>"

definition newDTLSHeader :: "u16 \<Rightarrow> dtlsHeader" where
  "newDTLSHeader rnd16 = \<lparr>dtls_epoch = rnd16, dtls_length = 17, dtls_sequence = 0\<rparr>"

definition NewPacketHeader :: "u16 \<Rightarrow> u32 \<Rightarrow> string \<Rightarrow> PacketHeader option" where
  "NewPacketHeader rnd16 rnd32 headerType =
     (if headerType = ''srtp'' then Some (SRTP (newSRTPHeader rnd16))
      else if headerType = ''utp'' then Some (UTP (newUTPHeader rnd16))
      else if headerType = ''wechat-video'' then Some (WechatVideo (newWechatVideoHeader rnd32))
      else if headerType = ''dtls'' then Some (DTLS (newDTLSHeader rnd16))
      else if headerType = ''wireguard'' then Some Wireguard
      else None)"

definition HeaderSize :: "string \<Rightarrow> nat" where
  "HeaderSize headerType =
     (if headerType \<in> {''srtp'', ''utp'', ''wireguard''} then 4
      else if headerType \<in> {''wechat-video'', ''dtls''} then 13 else 0)"

fun header_Size :: "PacketHeader \<Rightarrow> nat" where
  "header_Size (SRTP _) = 4"
| "header_Size (UTP _) = 4"
| "header_Size (WechatVideo _) = 13"
| "header_Size (DTLS _) = 13"
| "header_Size Wireguard = 4"

definition srtp_Serialize :: "srtpHeader \<Rightarrow> byte list \<Rightarrow> (srtpHeader \<times> byte list) option" where
  "srtp_Serialize s b = do {
     let s = s\<lparr>srtp_number := srtp_number s + 1\<rparr>;
     b \<leftarrow> PutUint16 0 (srtp_header s) b;
     b \<leftarrow> PutUint16 2 (srtp_number s) b;
     Some (s, b) }"

definition utp_Serialize :: "utpHeader \<Rightarrow> byte list \<Rightarrow> (utpHeader \<times> byte list) option" where
  "utp_Serialize u b = do {
     b \<leftarrow> PutUint16 0 (utp_connectionID u) b;
     b \<leftarrow> put_at 2 [utp_header u] b;
     b \<leftarrow> put_at 3 [utp_extension u] b;
     Some (u, b) }"

definition wechat_Serialize ::
  "wechatVideoHeader \<Rightarrow> byte list \<Rightarrow> (wechatVideoHeader \<times> byte list) option" where
  "wechat_Serialize vc b = do {
     let vc = vc\<lparr>wechat_sn := wechat_sn vc + 1\<rparr>;
     b \<leftarrow> put_at 0 [0xa1] b;
     b \<leftarrow> put_at 1 [0x08] b;
     b \<leftarrow> PutUint32 2 (wechat_sn vc) b;
     b \<leftarrow> put_at 6 [0x00] b;
     b \<leftarrow> put_at 7 [0x10] b;
     b \<leftarrow> put_at 8 [0x11] b;
     b \<leftarrow> put_at 9 [0x18] b;
     b \<leftarrow> put_at 10 [0x30] b;
     b \<leftarrow> put_at 11 [0x22] b;
     b \<leftarrow> put_at 12 [0x30] b;
     Some (vc, b) }"

definition dtls_next :: "dtlsHeader \<Rightarrow> dtlsHeader" where
  "dtls_next d = (let len = dtls_length d + 17 in
     d\<lparr>dtls_sequence := dtls_sequence d + 1, dtls_length := (if len > 100 then len - 50 else len)\<rparr>)"

definition dtls_Serialize :: "dtlsHeader \<Rightarrow> byte list \<Rightarrow> (dtlsHeader \<times> byte list) option" where
  "dtls_Serialize d b = do {
     b \<leftarrow> put_at 0 [23] b;
     b \<leftarrow> put_at 1 [254] b;
     b \<leftarrow> put_at 2 [253] b;
     b \<leftarrow> put_at 3 [ucast (drop_bit 8 (dtls_epoch d))] b;
     b \<leftarrow> put_at 4 [ucast (dtls_epoch d)] b;
     b \<leftarrow> put_at 5 [0] b;
     b \<leftarrow> put_at 6 [0] b;
     b \<leftarrow> put_at 7 [ucast (drop_bit 24 (dtls_sequence d))] b;
     b \<leftarrow> put_at 8 [ucast (drop_bit 16 (dtls_sequence d))] b;
     b \<leftarrow> put_at 9 [ucast (drop_bit 8 (dtls_sequence d))] b;
     b \<leftarrow> put_at 10 [ucast (dtls_sequence d)] b;
     b \<leftarrow> put_at 11 [ucast (drop_bit 8 (dtls_length d))] b;
     b \<leftarrow> put_at 12 [ucast (dtls_length d)] b;
     Some (dtls_next d, b) }"

definition wireguard_Serialize :: "byte list \<Rightarrow> byte list option" where
  "wireguard_Serialize b = do {
     b \<leftarrow> put_at 0 [0x04] b;
     b \<leftarrow> put_at 1 [0x00] b;
     b \<leftarrow> put_at 2 [0x00] b;
     put_at 3 [0x00] b }"

fun header_Serialize :: "PacketHeader \<Rightarrow> byte list \<Rightarrow> (PacketHeader \<times> byte list) option" where
  "header_Serialize (SRTP s) b = map_option (apfst SRTP) (srtp_Serialize s b)"
| "header_Serialize (UTP u) b = map_option (apfst UTP) (utp_Serialize u b)"
| "header_Serialize (WechatVideo w) b = map_option (apfst WechatVideo) (wechat_Serialize w b)"
| "header_Serialize (DTLS d) b = map_option (apfst DTLS) (dtls_Serialize d b)"
| "header_Serialize Wireguard b = map_option (Pair Wireguard) (wireguard_Serialize b)"

subsection \<open>The chains are inverse to each other\<close>

lemma length_xor_step [simp]: "length (xor_step i b) = length b"
  by (simp add: xor_step_def)

lemma xor_step_involution: "4 \<le> i \<Longrightarrow> xor_step i (xor_step i b) = b"
  by (cases "i < length b") (auto simp: xor_step_def xor.assoc list_update_beyond)

lemma length_fold_xor [simp]: "length (fold xor_step is b) = length b"
  by (induction "is" arbitrary: b) auto

lemma fold_xor_inverse:
  "\<forall>i \<in> set is. 4 \<le> i \<Longrightarrow> fold xor_step (rev is) (fold xor_step is b) = b"
  by (induction "is" arbitrary: b) (auto simp: xor_step_involution)

lemma fold_xor_prefix:
  "\<forall>i \<in> set is. i < length b \<Longrightarrow> fold xor_step is (b @ p) = fold xor_step is b @ p"
  by (induction "is" arbitrary: b)
    (auto simp: xor_step_def nth_append list_update_append)

lemma fold_xor_suffix:
  "\<forall>i \<in> set is. n \<le> i \<Longrightarrow> take n (fold xor_step is b) = take n b"
  by (induction "is" arbitrary: b) (auto simp: xor_step_def)

lemma xorfwd_loop_fold: "xorfwd_loop i b = fold xor_step [i..<length b] b"
proof (induction i b rule: xorfwd_loop.induct)
  case (1 i b)
  then show ?case
    by (cases "i < length b") (simp_all add: xorfwd_loop.simps [of i b] upt_conv_Cons)
qed

lemma xorbkd_loop_fold: "xorbkd_loop n b = fold xor_step (rev [4..<n]) b"
  by (induction n b rule: xorbkd_loop.induct) auto

lemma xorfwd_fold: "xorfwd b = fold xor_step [4..<length b] b"
  by (simp add: xorfwd_def xorfwd_loop_fold)

lemma xorbkd_fold: "xorbkd b = fold xor_step (rev [4..<length b]) b"
  by (simp add: xorbkd_def xorbkd_loop_fold)

lemma length_xorfwd [simp]: "length (xorfwd b) = length b"
  by (simp add: xorfwd_fold)

lemma length_xorbkd [simp]: "length (xorbkd b) = length b"
  by (simp add: xorbkd_fold)

lemma xorbkd_xorfwd: "xorbkd (xorfwd b) = b"
  by (simp add: xorbkd_fold) (simp add: xorfwd_fold fold_xor_inverse)

lemma xorfwd_xorbkd: "xorfwd (xorbkd b) = b"
  using fold_xor_inverse [of "rev [4..<length b]" b] by (simp add: xorfwd_fold xorbkd_fold)

lemma xorfwd_prefix: "take (length b) (xorfwd (b @ p)) = xorfwd b"
proof (cases "4 \<le> length b")
  case True
  then have "[4..<length (b @ p)] = [4..<length b] @ [length b..<length (b @ p)]"
    using upt_add_eq_append [of 4 "length b" "length p"] by simp
  then show ?thesis
    by (simp add: xorfwd_fold fold_xor_suffix fold_xor_prefix)
qed (simp add: xorfwd_fold fold_xor_suffix)

lemma xorbkd_prefix: "take (length b) (xorbkd (b @ p)) = xorbkd b"
proof (cases "4 \<le> length b")
  case True
  then have idx: "rev [4..<length (b @ p)] = rev [length b..<length (b @ p)] @ rev [4..<length b]"
    using upt_add_eq_append [of 4 "length b" "length p"] by simp
  let ?s = "fold xor_step (rev [length b..<length (b @ p)]) (b @ p)"
  have s: "take (length b) ?s = b" by (simp add: fold_xor_suffix)
  have "xorbkd (b @ p) = fold xor_step (rev [4..<length b]) (b @ drop (length b) ?s)"
    using append_take_drop_id [of "length b" ?s] unfolding xorbkd_fold idx s by simp
  then show ?thesis
    by (simp add: xorbkd_fold fold_xor_prefix)
qed (simp add: xorbkd_fold fold_xor_suffix)

text \<open>Padding to a multiple of four has no effect on the bytes that are kept.\<close>

lemma pad4_append: "\<exists>p. pad4 b = b @ p"
  by (auto simp: pad4_def Let_def)

lemma cut4_xor: "cut4 (length b) (xorfwd (pad4 b)) = xorfwd b"
  "cut4 (length b) (xorbkd (pad4 b)) = xorbkd b"
  by (auto simp: cut4_def pad4_def Let_def xorfwd_prefix xorbkd_prefix)

subsection \<open>Sealing and opening\<close>

definition auth_plain :: "byte list \<Rightarrow> byte list" where
  "auth_plain plain = be32 (fnv32a fnv_New32a (be16 (word_of_nat (length plain)) @ plain)) @
     be16 (word_of_nat (length plain)) @ plain"

lemma Simple_Seal_eq: "Simple_Seal [] plain = Some (xorfwd (auth_plain plain))"
proof -
  have "PutUint16 4 v [0, 0, 0, 0, 0, 0] = Some ([0, 0, 0, 0] @ be16 v)" for v
    by (simp add: PutUint16_def put_at_def)
  then show ?thesis
    by (simp add: Simple_Seal_def slice_from_def put_at_def cut4_xor auth_plain_def)
qed

lemma Simple_Open_eq:
  "Simple_Open [] c = do {
     let dst = xorbkd c;
     hashed \<leftarrow> slice_from 4 dst;
     sum \<leftarrow> Uint32 dst;
     if sum \<noteq> fnv32a fnv_New32a hashed then Some (Inl (NewError ''invalid auth''))
     else do {
       len \<leftarrow> Uint16 hashed;
       body \<leftarrow> slice_from 6 dst;
       if length dst - 6 \<noteq> unat len then Some (Inl (NewError ''invalid auth''))
       else Some (Inr body) } }"
  by (simp only: Simple_Open_def Let_def append_Nil cut4_xor)

lemma Simple_Open_Seal:
  assumes "length plain < 65536"
  shows "Simple_Open [] (xorfwd (auth_plain plain)) = Some (Inr plain)"
proof -
  have "unat (word_of_nat (length plain) :: u16) = length plain"
    using assms by (simp add: unat_of_nat)
  then show ?thesis
    by (simp add: Simple_Open_eq xorbkd_xorfwd auth_plain_def be_simps slice_from_def)
qed

lemma Simple_Open_canonical:
  assumes "Simple_Open [] c = Some (Inr plain)"
  shows "c = xorfwd (auth_plain plain) \<and> length plain < 65536"
proof -
  let ?d = "xorbkd c"
  have len: "6 \<le> length ?d"
    using assms
    by (auto simp: Simple_Open_eq Let_def slice_from_def bind_eq_Some_conv split: if_splits)
  have d: "?d = be32 (rd32 ?d) @ be16 (rd16 (drop 4 ?d)) @ drop 6 ?d"
    using len be32_rd32 [of ?d] be16_rd16 [of "drop 4 ?d"] by simp
  have eqs: "plain = drop 6 ?d" "length ?d - 6 = unat (rd16 (drop 4 ?d))"
    "rd32 ?d = fnv32a fnv_New32a (drop 4 ?d)"
    using assms len by (auto simp: Simple_Open_eq Let_def panic_simps split: if_splits)
  have l: "word_of_nat (length plain) = rd16 (drop 4 ?d)"
    using eqs(1,2) by simp
  have "drop 4 ?d = be16 (rd16 (drop 4 ?d)) @ drop 6 ?d"
    using len be16_rd16 [of "drop 4 ?d"] by simp
  then have "?d = auth_plain plain"
    using d eqs l by (simp add: auth_plain_def)
  moreover have "length plain < 65536"
    using eqs(1,2) unsigned_less [of "rd16 (drop 4 ?d)", where 'a = nat] by simp
  ultimately show ?thesis
    by (metis xorfwd_xorbkd)
qed

text \<open>C6. The legacy authenticator is a bijection between texts of at most 65535 bytes and the
  datagrams it accepts: \<open>Open\<close> succeeds with \<open>plain\<close> exactly on the datagram that \<open>Seal\<close> produces
  for \<open>plain\<close>, the padding to whole words notwithstanding. In particular \<open>Open(Seal(p)) = p\<close>.\<close>

theorem Open_accepts_exactly_sealed:
  "Simple_Open [] c = Some (Inr plain) \<longleftrightarrow>
     Simple_Seal [] plain = Some c \<and> length plain < 65536"
  using Simple_Open_Seal [of plain] Simple_Open_canonical [of c plain]
  by (auto simp: Simple_Seal_eq)

subsection \<open>The AEAD contract\<close>

text \<open>
  What the packet layer relies on: for texts below a length bound, sealing succeeds, lengthens the
  text by \<open>Overhead\<close> and is undone by opening under the same nonce; opening returns (a text or an
  error) on every input longer than the overhead.
\<close>

locale aead =
  fixes A :: AEAD and maxPlain :: nat
  assumes seal_open: "\<lbrakk>length nonce = aead_NonceSize A; length p < maxPlain\<rbrakk> \<Longrightarrow>
      \<exists>c. aead_Seal A nonce p = Some c \<and> length c = length p + aead_Overhead A \<and>
          aead_Open A nonce c = Some (Inr p)"
    and open_total: "\<lbrakk>length nonce = aead_NonceSize A; aead_Overhead A < length c\<rbrakk> \<Longrightarrow>
      \<exists>r. aead_Open A nonce c = Some r"

lemma length_auth_plain [simp]: "length (auth_plain p) = length p + 6"
  by (simp add: auth_plain_def)

lemma Simple_Open_total: "6 < length c \<Longrightarrow> \<exists>r. Simple_Open [] c = Some r"
  by (simp add: Simple_Open_eq Let_def panic_simps)

interpretation simple_aead: aead NewSimpleAuthenticator 65536
  by unfold_locales
    (auto simp: NewSimpleAuthenticator_def Simple_Seal_eq Simple_Open_Seal Simple_Open_total)

subsection \<open>Headers\<close>

text \<open>\<open>Serialize\<close> fills a buffer of the header's size, whatever it held, and keeps the kind of header.\<close>

lemma srtp_Serialize_eq:
  "length b = 4 \<Longrightarrow> srtp_Serialize s b = Some (s\<lparr>srtp_number := srtp_number s + 1\<rparr>,
     be16 (srtp_header s) @ be16 (srtp_number s + 1))"
  using put_seq_concat [of b "[be16 (srtp_header s), be16 (srtp_number s + 1)]"]
  by (auto simp: srtp_Serialize_def PutUint16_def bind_eq_Some_conv eval_nat_numeral)

lemma utp_Serialize_eq:
  "length b = 4 \<Longrightarrow> utp_Serialize u b =
     Some (u, be16 (utp_connectionID u) @ [utp_header u, utp_extension u])"
  using put_seq_concat [of b "[be16 (utp_connectionID u), [utp_header u], [utp_extension u]]"]
  by (auto simp: utp_Serialize_def PutUint16_def bind_eq_Some_conv eval_nat_numeral)

lemma wechat_Serialize_eq:
  "length b = 13 \<Longrightarrow> wechat_Serialize w b = Some (w\<lparr>wechat_sn := wechat_sn w + 1\<rparr>,
     [0xa1, 0x08] @ be32 (wechat_sn w + 1) @ [0x00, 0x10, 0x11, 0x18, 0x30, 0x22, 0x30])"
  using put_seq_concat [of b "[[0xa1], [0x08], be32 (wechat_sn w + 1), [0x00], [0x10], [0x11],
    [0x18], [0x30], [0x22], [0x30]]"]
  by (auto simp: wechat_Serialize_def PutUint32_def bind_eq_Some_conv eval_nat_numeral)

lemma dtls_Serialize_eq:
  "length b = 13 \<Longrightarrow> dtls_Serialize d b = Some (dtls_next d,
     [23, 254, 253] @ be16 (dtls_epoch d) @ [0, 0] @ be32 (dtls_sequence d) @ be16 (dtls_length d))"
  using put_seq_concat [of b "[[23], [254], [253], [ucast (drop_bit 8 (dtls_epoch d))],
    [ucast (dtls_epoch d)], [0], [0], [ucast (drop_bit 24 (dtls_sequence d))],
    [ucast (drop_bit 16 (dtls_sequence d))], [ucast (drop_bit 8 (dtls_sequence d))],
    [ucast (dtls_sequence d)], [ucast (drop_bit 8 (dtls_length d))], [ucast (dtls_length d)]]"]
  by (auto simp: dtls_Serialize_def bind_eq_Some_conv eval_nat_numeral be16_def be32_def)

lemma wireguard_Serialize_eq: "length b = 4 \<Longrightarrow> wireguard_Serialize b = Some [4, 0, 0, 0]"
  using put_seq_concat [of b "[[4], [0], [0], [0 :: byte]]"]
  by (simp add: wireguard_Serialize_def eval_nat_numeral)

lemmas header_Serialize_eqs = srtp_Serialize_eq utp_Serialize_eq wechat_Serialize_eq
  dtls_Serialize_eq wireguard_Serialize_eq

lemma header_Serialize_total:
  assumes "length b = header_Size h"
  shows "\<exists>h' out. header_Serialize h b = Some (h', out) \<and> length out = header_Size h \<and>
     header_Size h' = header_Size h"
  using assms by (cases h) (auto simp: header_Serialize_eqs)

lemma HeaderSize_NewPacketHeader:
  "HeaderSize t = (case NewPacketHeader r16 r32 t of None \<Rightarrow> 0 | Some h \<Rightarrow> header_Size h)"
  by (simp add: HeaderSize_def NewPacketHeader_def)

end
