(* ===== verification/KcpPacket.thy ===== *)
theory KcpPacket
  imports KcpSegment KcpCrypt
begin

section \<open>mKCP configuration and datagrams (\<open>config.go\<close>, \<open>dialer.go\<close>, \<open>option/v2ray_transport.go\<close>)\<close>

text \<open>
  The configuration with its defaults, and the two ends of the datagram path: \<open>kcpPacketWriter\<close>
  puts an obfuscating header, a nonce and the sealed segment into a datagram, \<open>kcpPacketReader\<close>
  strips them and parses the segments. The datagram is assembled in a \<open>buf.Buffer\<close> of the \<open>sing\<close>
  library: \<open>ext n\<close> stands for the bytes of the region that \<open>Extend(n)\<close> returns and
  \<open>packetWrite cur d\<close> for the contents after \<open>Write(d)\<close> on a buffer holding \<open>cur\<close>. The random nonce
  is an argument.
\<close>

record V2RayKCPOptions =
  opt_MTU :: u32
  opt_TTI :: u32
  opt_UplinkCapacity :: u32
  opt_DownlinkCapacity :: u32
  opt_Congestion :: bool
  opt_ReadBufferSize :: u32
  opt_WriteBufferSize :: u32
  opt_HeaderType :: string
  opt_Seed :: string

definition GetMTU :: "V2RayKCPOptions \<Rightarrow> u32" where
  "GetMTU k = (if opt_MTU k = 0 then 1350 else opt_MTU k)"

definition GetTTI :: "V2RayKCPOptions \<Rightarrow> u32" where
  "GetTTI k = (if opt_TTI k = 0 then 50 else opt_TTI k)"

definition GetUplinkCapacity :: "V2RayKCPOptions \<Rightarrow> u32" where
  "GetUplinkCapacity k = (if opt_UplinkCapacity k = 0 then 12 else opt_UplinkCapacity k)"

definition GetDownlinkCapacity :: "V2RayKCPOptions \<Rightarrow> u32" where
  "GetDownlinkCapacity k = (if opt_DownlinkCapacity k = 0 then 100 else opt_DownlinkCapacity k)"

definition opt_GetReadBufferSize :: "V2RayKCPOptions \<Rightarrow> u32" where
  "opt_GetReadBufferSize k = (if opt_ReadBufferSize k = 0 then 1 else opt_ReadBufferSize k)"

definition opt_GetWriteBufferSize :: "V2RayKCPOptions \<Rightarrow> u32" where
  "opt_GetWriteBufferSize k = (if opt_WriteBufferSize k = 0 then 1 else opt_WriteBufferSize k)"

definition opt_GetHeaderType :: "V2RayKCPOptions \<Rightarrow> string" where
  "opt_GetHeaderType k = (if opt_HeaderType k = [] then ''none'' else opt_HeaderType k)"

record Config =
  cfg_MTU :: u32
  cfg_TTI :: u32
  cfg_UplinkCapacity :: u32
  cfg_DownlinkCapacity :: u32
  cfg_Congestion :: bool
  cfg_ReadBufferSize :: u32
  cfg_WriteBufferSize :: u32
  cfg_HeaderType :: string
  cfg_Seed :: string

definition NewConfig :: "V2RayKCPOptions \<Rightarrow> Config" where
  "NewConfig options = \<lparr>
     cfg_MTU = GetMTU options,
     cfg_TTI = GetTTI options,
     cfg_UplinkCapacity = GetUplinkCapacity options,
     cfg_DownlinkCapacity = GetDownlinkCapacity options,
     cfg_Congestion = opt_Congestion options,
     cfg_ReadBufferSize = opt_GetReadBufferSize options,
     cfg_WriteBufferSize = opt_GetWriteBufferSize options,
     cfg_HeaderType = opt_GetHeaderType options,
     cfg_Seed = opt_Seed options\<rparr>"

text \<open>The getters are methods on \<open>*Config\<close>; every connection holds the non-nil result of
  \<open>NewConfig\<close>, so the nil branch of the source does not arise here.\<close>

definition GetMTUValue :: "Config \<Rightarrow> u32" where
  "GetMTUValue c = (if cfg_MTU c = 0 then 1350 else cfg_MTU c)"

definition GetTTIValue :: "Config \<Rightarrow> u32" where
  "GetTTIValue c = (if cfg_TTI c = 0 then 50 else cfg_TTI c)"

definition GetUplinkCapacityValue :: "Config \<Rightarrow> u32" where
  "GetUplinkCapacityValue c = (if cfg_UplinkCapacity c = 0 then 12 else cfg_UplinkCapacity c)"

definition GetDownlinkCapacityValue :: "Config \<Rightarrow> u32" where
  "GetDownlinkCapacityValue c =
     (if cfg_DownlinkCapacity c = 0 then 100 else cfg_DownlinkCapacity c)"

definition GetWriteBufferSize :: "Config \<Rightarrow> u32" where
  "GetWriteBufferSize c =
     (if cfg_WriteBufferSize c = 0 then 2 * 1024 * 1024 else cfg_WriteBufferSize c * 1024 * 1024)"

definition GetReadBufferSize :: "Config \<Rightarrow> u32" where
  "GetReadBufferSize c =
     (if cfg_ReadBufferSize c = 0 then 2 * 1024 * 1024 else cfg_ReadBufferSize c * 1024 * 1024)"

definition GetSecurity :: "(string \<Rightarrow> byte list) \<Rightarrow> (byte list \<Rightarrow> AEAD) \<Rightarrow> Config \<Rightarrow> AEAD" where
  "GetSecurity sha256 gcm c =
     (if cfg_Seed c \<noteq> [] then NewAEADAESGCMBasedOnSeed sha256 gcm (cfg_Seed c)
      else NewSimpleAuthenticator)"

definition GetHeaderType :: "Config \<Rightarrow> string" where
  "GetHeaderType c = (if cfg_HeaderType c = [] then ''none'' else cfg_HeaderType c)"

definition GetPacketHeader :: "u16 \<Rightarrow> u32 \<Rightarrow> Config \<Rightarrow> PacketHeader option" where
  "GetPacketHeader rnd16 rnd32 c = NewPacketHeader rnd16 rnd32 (GetHeaderType c)"

definition InFlightSize :: "u32 \<Rightarrow> Config \<Rightarrow> u32 option" where
  "InFlightSize capacity c = do {
     perSecond \<leftarrow> udiv (capacity * 1024 * 1024) (GetMTUValue c);
     ticks \<leftarrow> udiv 1000 (GetTTIValue c);
     size \<leftarrow> udiv perSecond ticks;
     Some (if size < 8 then 8 else size) }"

definition GetSendingInFlightSize :: "Config \<Rightarrow> u32 option" where
  "GetSendingInFlightSize c = InFlightSize (GetUplinkCapacityValue c) c"

definition GetReceivingInFlightSize :: "Config \<Rightarrow> u32 option" where
  "GetReceivingInFlightSize c = InFlightSize (GetDownlinkCapacityValue c) c"

definition GetSendingBufferSize :: "Config \<Rightarrow> u32 option" where
  "GetSendingBufferSize c = udiv (GetWriteBufferSize c) (GetMTUValue c)"

definition GetReceivingBufferSize :: "Config \<Rightarrow> u32 option" where
  "GetReceivingBufferSize c = udiv (GetReadBufferSize c) (GetMTUValue c)"

subsection \<open>Datagrams\<close>

definition PacketWriter_Overhead :: "PacketHeader option \<Rightarrow> AEAD option \<Rightarrow> nat" where
  "PacketWriter_Overhead header security =
     (case header of None \<Rightarrow> 0 | Some h \<Rightarrow> header_Size h) +
     (case security of None \<Rightarrow> 0 | Some a \<Rightarrow> aead_Overhead a)"

definition PacketWriter_Write ::
  "(byte list \<Rightarrow> byte list \<Rightarrow> byte list) \<Rightarrow> (nat \<Rightarrow> byte list) \<Rightarrow> PacketHeader option \<Rightarrow> AEAD option
     \<Rightarrow> byte list \<Rightarrow> byte list \<Rightarrow> (PacketHeader option \<times> byte list) option" where
  "PacketWriter_Write packetWrite ext header security nonce b = do {
     (header, packet) \<leftarrow>
       (case header of None \<Rightarrow> Some (None, [])
        | Some h \<Rightarrow> map_option (apfst Some) (header_Serialize h (ext (header_Size h))));
     case security of
       Some a \<Rightarrow> do {
         encrypted \<leftarrow> aead_Seal a nonce b;
         Some (header, packetWrite (packet @ nonce) encrypted) }
     | None \<Rightarrow> Some (header, packetWrite packet b) }"

function read_segments ::
  "(byte list \<Rightarrow> byte list) \<Rightarrow> byte list \<Rightarrow> Segment list \<Rightarrow> Segment list option" where
  "read_segments bufWrite b result =
     (if b = [] then Some result
      else case ReadSegment bufWrite b of
        None \<Rightarrow> None
      | Some None \<Rightarrow> Some result
      | Some (Some (seg, extra)) \<Rightarrow> read_segments bufWrite extra (result @ [seg]))"
  by auto

termination read_segments
  by (relation "measure (\<lambda>(w, b, r). length b)") (auto dest!: ReadSegment_shrinks)

declare read_segments.simps [simp del]

text \<open>A nil or empty result is the empty list. \<open>None\<close> is a panic.\<close>

definition PacketReader_Read ::
  "(byte list \<Rightarrow> byte list) \<Rightarrow> AEAD option \<Rightarrow> nat \<Rightarrow> byte list \<Rightarrow> Segment list option" where
  "PacketReader_Read bufWrite security headerSize b =
     (if headerSize > 0 \<and> length b \<le> headerSize then Some []
      else
        let b = (if headerSize > 0 then drop headerSize b else b) in
        case security of
          None \<Rightarrow> read_segments bufWrite b []
        | Some a \<Rightarrow>
            (if length b \<le> aead_NonceSize a + aead_Overhead a then Some []
             else case aead_Open a (take (aead_NonceSize a) b) (drop (aead_NonceSize a) b) of
               None \<Rightarrow> None
             | Some (Inl err) \<Rightarrow> Some []
             | Some (Inr out) \<Rightarrow> read_segments bufWrite out []))"

subsection \<open>Configuration\<close>

lemma GetMTUValue_nonzero [simp]: "GetMTUValue c \<noteq> 0"
  by (simp add: GetMTUValue_def)

lemma GetTTIValue_nonzero [simp]: "GetTTIValue c \<noteq> 0"
  by (simp add: GetTTIValue_def)

lemma udiv_word_zero: "1000 div (t :: u32) = 0 \<longleftrightarrow> t = 0 \<or> 1000 < t"
proof -
  have "1000 div t = 0 \<longleftrightarrow> unat (1000 div t) = 0" by (simp add: unat_eq_0)
  also have "\<dots> \<longleftrightarrow> 1000 div unat t = 0" by (simp add: unat_div_distrib)
  also have "\<dots> \<longleftrightarrow> t = 0 \<or> 1000 < t"
    by (auto simp: div_eq_0_iff word_less_nat_alt unat_eq_0)
  finally show ?thesis .
qed

text \<open>The options of an empty JSON object.\<close>

definition zeroOptions :: V2RayKCPOptions where
  "zeroOptions = \<lparr>opt_MTU = 0, opt_TTI = 0, opt_UplinkCapacity = 0, opt_DownlinkCapacity = 0,
     opt_Congestion = False, opt_ReadBufferSize = 0, opt_WriteBufferSize = 0,
     opt_HeaderType = [], opt_Seed = []\<rparr>"

lemma InFlightSize_cases:
  "InFlightSize capacity c =
     (if 1000 < GetTTIValue c then None
      else let size = capacity * 1024 * 1024 div GetMTUValue c div (1000 div GetTTIValue c) in
        Some (max 8 size))"
proof (cases "1000 < GetTTIValue c")
  case False
  then have "1000 div GetTTIValue c \<noteq> 0" by (simp add: udiv_word_zero)
  with False show ?thesis
    by (auto simp: InFlightSize_def panic_simps Let_def max_def dest: leD)
qed (simp add: InFlightSize_def panic_simps udiv_def udiv_word_zero)

text \<open>C17. A configuration whose \<open>tti\<close> exceeds 1000 ms makes \<open>1000 / GetTTIValue()\<close> zero, and the
  window computations divide by it: creating the connection panics. For every other configuration
  both in-flight sizes are computed and are at least 8.\<close>

theorem InFlightSize_panics_iff:
  "(GetSendingInFlightSize c = None \<longleftrightarrow> 1000 < GetTTIValue c) \<and>
   (GetReceivingInFlightSize c = None \<longleftrightarrow> 1000 < GetTTIValue c) \<and>
   (\<forall>n. GetSendingInFlightSize c = Some n \<or> GetReceivingInFlightSize c = Some n \<longrightarrow> 8 \<le> n)"
  by (auto simp: GetSendingInFlightSize_def GetReceivingInFlightSize_def InFlightSize_cases Let_def)

theorem InFlightSize_panics_iff_witness:
  "GetSendingInFlightSize (NewConfig zeroOptions) = Some 466 \<and> 8 \<le> (466 :: u32) \<and>
   GetSendingInFlightSize (NewConfig (zeroOptions\<lparr>opt_TTI := 2000\<rparr>)) = None"
proof -
  have s: "GetSendingInFlightSize (NewConfig zeroOptions) = Some 466"
    by code_simp
  have "1000 < GetTTIValue (NewConfig (zeroOptions\<lparr>opt_TTI := 2000\<rparr>))"
    by code_simp
  with s show ?thesis
    using InFlightSize_panics_iff [of "NewConfig zeroOptions"]
      InFlightSize_panics_iff [of "NewConfig (zeroOptions\<lparr>opt_TTI := 2000\<rparr>)"] by simp
qed

subsection \<open>Reading a datagram\<close>

lemma read_segments_total: "\<exists>segs. read_segments bufWrite b result = Some segs"
proof (induction bufWrite b result rule: read_segments.induct)
  case (1 bufWrite b result)
  obtain r where r: "ReadSegment bufWrite b = Some r" using ReadSegment_total by blast
  show ?case
  proof (cases "b = [] \<or> r = None")
    case False
    then obtain seg extra where "r = Some (seg, extra)" by auto
    with False r 1 show ?thesis by (auto simp: read_segments.simps [of bufWrite b])
  qed (use r in \<open>auto simp: read_segments.simps [of bufWrite b]\<close>)
qed

lemma read_segments_encode:
  "\<forall>seg \<in> set segs. wire_ok bufWrite seg \<Longrightarrow>
   read_segments bufWrite (concat (map encode segs)) result = Some (result @ map wire_view segs)"
proof (induction segs arbitrary: result)
  case Nil
  then show ?case by (simp add: read_segments.simps)
next
  case (Cons seg segs)
  have "encode seg \<noteq> []" by (cases seg) auto
  with Cons show ?case
    by (subst read_segments.simps) (simp add: ReadSegment_encode)
qed

context aead
begin

lemma reader_total: "\<exists>segs. PacketReader_Read bufWrite (Some A) headerSize b = Some segs"
proof -
  have "\<exists>segs. (case aead_Open A (take (aead_NonceSize A) c) (drop (aead_NonceSize A) c) of
      None \<Rightarrow> None | Some (Inl err) \<Rightarrow> Some [] | Some (Inr out) \<Rightarrow> read_segments bufWrite out []) = Some segs"
    if "aead_NonceSize A + aead_Overhead A < length c" for c
    using that open_total [of "take (aead_NonceSize A) c" "drop (aead_NonceSize A) c"]
      read_segments_total [of bufWrite]
    by (auto split: option.split sum.split)
  then show ?thesis
    by (auto simp: PacketReader_Read_def Let_def not_le)
qed

lemma reader_unwraps:
  assumes "length hb = headerSize" "length nonce = aead_NonceSize A" "length out < maxPlain" "out \<noteq> []"
    and "aead_Seal A nonce out = Some enc"
  shows "PacketReader_Read bufWrite (Some A) headerSize (hb @ nonce @ enc) = read_segments bufWrite out []"
  using seal_open [OF assms(2,3)] assms
  by (cases out) (auto simp: PacketReader_Read_def)

end

text \<open>The header a writer holds belongs to the header type that the reader was configured with.\<close>

definition header_for :: "string \<Rightarrow> PacketHeader option \<Rightarrow> bool" where
  "header_for headerType header \<longleftrightarrow>
     (case header of None \<Rightarrow> 0 | Some h \<Rightarrow> header_Size h) = HeaderSize headerType"

lemma header_for_GetPacketHeader: "header_for (GetHeaderType c) (GetPacketHeader r16 r32 c)"
  by (simp add: header_for_def GetPacketHeader_def HeaderSize_NewPacketHeader [of _ r16 r32])

text \<open>The behaviour of \<open>buf.Buffer\<close> that the writer relies on: \<open>Extend(n)\<close> returns \<open>n\<close> bytes, and
  \<open>Write\<close> appends as long as the capacity suffices.\<close>

definition buffer_spec :: "nat \<Rightarrow> (byte list \<Rightarrow> byte list \<Rightarrow> byte list) \<Rightarrow> (nat \<Rightarrow> byte list) \<Rightarrow> bool" where
  "buffer_spec capacity packetWrite ext \<longleftrightarrow>
     (\<forall>n. length (ext n) = n) \<and>
     (\<forall>cur d. length cur + length d \<le> capacity \<longrightarrow> packetWrite cur d = cur @ d)"

lemma PacketWriter_Write_layout:
  assumes "aead A maxPlain" "header_for t header" "buffer_spec capacity packetWrite ext"
    and "length nonce = aead_NonceSize A" "length out < maxPlain"
    and "PacketWriter_Overhead header (Some A) + aead_NonceSize A + length out \<le> capacity"
  shows "\<exists>header' hb enc. PacketWriter_Write packetWrite ext header (Some A) nonce out =
       Some (header', hb @ nonce @ enc) \<and> aead_Seal A nonce out = Some enc \<and>
     length hb = HeaderSize t \<and> length enc = length out + aead_Overhead A \<and> header_for t header'"
proof -
  obtain enc where enc: "aead_Seal A nonce out = Some enc" "length enc = length out + aead_Overhead A"
    using aead.seal_open [OF assms(1,4,5)] by blast
  show ?thesis
  proof (cases header)
    case None
    with enc assms(2-) show ?thesis
      by (auto simp: PacketWriter_Write_def buffer_spec_def header_for_def PacketWriter_Overhead_def)
  next
    case (Some h)
    have "length (ext (header_Size h)) = header_Size h"
      using assms(3) by (simp add: buffer_spec_def)
    then obtain h' hb where h: "header_Serialize h (ext (header_Size h)) = Some (h', hb)"
      "length hb = header_Size h" "header_Size h' = header_Size h"
      using header_Serialize_total by blast
    with Some enc assms(2-) show ?thesis
      by (auto simp: PacketWriter_Write_def buffer_spec_def header_for_def PacketWriter_Overhead_def)
  qed
qed

subsection \<open>Properties of the datagram path\<close>



text \<open>C5. A datagram written by one end is read by the other: the segment goes through
  \<open>SimpleSegmentWriter.Write\<close> (with an arbitrary reused buffer) and \<open>kcpPacketWriter.Write\<close> (with an
  arbitrary state of the header and an arbitrary nonce), and \<open>kcpPacketReader.Read\<close>, configured with
  the same header type and AEAD, returns exactly that segment. The datagram is longer than the
  segment by \<open>Overhead()\<close> plus the nonce, and the advanced header still fits the header type, so the
  statement applies again to the next datagram.\<close>

theorem datagram_roundtrip:
  assumes "aead A maxPlain" and "header_for t header" and "buffer_spec capacity packetWrite ext"
    and "length nonce = aead_NonceSize A" and "wire_ok bufWrite seg"
    and "length (encode seg) < maxPlain"
    and "PacketWriter_Overhead header (Some A) + aead_NonceSize A + length (encode seg) \<le> capacity"
  shows "\<exists>buffer' out header' packet.
     SegmentWriter_Write buffer seg = Some (buffer', out) \<and>
     PacketWriter_Write packetWrite ext header (Some A) nonce out = Some (header', packet) \<and>
     PacketReader_Read bufWrite (Some A) (HeaderSize t) packet = Some [wire_view seg] \<and>
     length packet = PacketWriter_Overhead header (Some A) + aead_NonceSize A + length out \<and>
     header_for t header'"
proof -
  obtain buffer' where w: "SegmentWriter_Write buffer seg = Some (buffer', encode seg)"
    using SegmentWriter_Write_encode [OF assms(5)] by blast
  obtain header' hb enc where p:
    "PacketWriter_Write packetWrite ext header (Some A) nonce (encode seg) = Some (header', hb @ nonce @ enc)"
    "aead_Seal A nonce (encode seg) = Some enc" "length hb = HeaderSize t"
    "length enc = length (encode seg) + aead_Overhead A" "header_for t header'"
    using PacketWriter_Write_layout [OF assms(1-4,6,7)] by blast
  have "encode seg \<noteq> []" by (cases seg) auto
  then have "PacketReader_Read bufWrite (Some A) (HeaderSize t) (hb @ nonce @ enc) =
      read_segments bufWrite (encode seg) []"
    using aead.reader_unwraps [OF assms(1) p(3) assms(4,6) _ p(2)] by simp
  also have "\<dots> = Some [wire_view seg]"
    using read_segments_encode [of "[seg]" bufWrite "[]"] assms(5) by simp
  finally show ?thesis
    using w p assms(2,4) by (auto simp: PacketWriter_Overhead_def header_for_def)
qed

theorem datagram_roundtrip_witness:
  "let seg = SegCmd (NewCmdOnlySegment\<lparr>cs_Conv := 7, cs_Cmd := CommandPing\<rparr>);
       header = GetPacketHeader 5 9 (NewConfig (zeroOptions\<lparr>opt_HeaderType := ''dtls''\<rparr>)) in
   \<exists>buffer' out header' packet.
     SegmentWriter_Write [] seg = Some (buffer', out) \<and>
     PacketWriter_Write (@) (\<lambda>n. replicate n 0) header (Some NewSimpleAuthenticator) [] out =
       Some (header', packet) \<and>
     PacketReader_Read id (Some NewSimpleAuthenticator) (HeaderSize ''dtls'') packet = Some [seg] \<and>
     length packet = 35"
proof -
  let ?seg = "SegCmd (NewCmdOnlySegment\<lparr>cs_Conv := 7, cs_Cmd := CommandPing\<rparr>)"
  let ?c = "NewConfig (zeroOptions\<lparr>opt_HeaderType := ''dtls''\<rparr>)"
  have t: "GetHeaderType ?c = ''dtls''" by code_simp
  have h: "header_for ''dtls'' (GetPacketHeader 5 9 ?c)"
    using header_for_GetPacketHeader [of ?c 5 9] by (simp only: t)
  have o: "PacketWriter_Overhead (GetPacketHeader 5 9 ?c) (Some NewSimpleAuthenticator) = 19"
    by code_simp
  have n: "aead_NonceSize NewSimpleAuthenticator = 0" by (simp add: NewSimpleAuthenticator_def)
  have b: "buffer_spec 2048 (@) (\<lambda>n. replicate n 0)" by (simp add: buffer_spec_def)
  have w: "wire_ok id ?seg" by (simp add: command_defs)
  have l: "length (encode ?seg) = 16" by simp
  obtain buffer' out header' packet where r:
    "SegmentWriter_Write [] ?seg = Some (buffer', out)"
    "PacketWriter_Write (@) (\<lambda>n. replicate n 0) (GetPacketHeader 5 9 ?c) (Some NewSimpleAuthenticator) [] out =
       Some (header', packet)"
    "PacketReader_Read id (Some NewSimpleAuthenticator) (HeaderSize ''dtls'') packet = Some [wire_view ?seg]"
    "length packet = 19 + length out"
    using datagram_roundtrip [OF simple_aead.aead_axioms h b _ w, of "[]" "[]"]
    by (simp only: o n l) auto
  moreover have "length out = 16"
    using SegmentWriter_Write_encode [OF w, of "[]"] r(1) l by auto
  ultimately show ?thesis by (simp add: Let_def)
qed


text \<open>An AEAD with the sizes of AES-GCM, for the example.\<close>

definition tag_aead :: AEAD where
  "tag_aead = \<lparr>aead_NonceSize = 12, aead_Overhead = 16, aead_Seal = (\<lambda>n p. Some (p @ replicate 16 0)),
     aead_Open = (\<lambda>n c. Some (Inr (take (length c - 16) c)))\<rparr>"


end
