(* ===== verification/KcpSending.thy ===== *)
theory KcpSending
  imports KcpPacket
begin

section \<open>mKCP sending side (\<open>sending.go\<close>, \<open>RoundTripInfo\<close> of \<open>connection.go\<close>)\<close>

text \<open>
  The round-trip estimator, the sending window and the sending worker. The linked list \<open>cache\<close> of
  the window is a HOL list of segments (theory \<open>GoList\<close> shows that the pointer structure
  behaves like one). The worker's back reference \<open>conn\<close> is replaced by the values the methods read
  through it: the configuration, the conversation id, the connection state and the round-trip info.
  A method that writes segments returns them, in order; the segment a visitor hands to
  \<open>SendingWorker.Write\<close> is the one stored in the window, so its header fields change there too.
  Releasing a segment only returns memory and is not modelled. The mutexes are not modelled: each
  method is one atomic step.
\<close>

datatype State = StateActive | StateReadyToClose | StatePeerClosed | StateTerminating
  | StatePeerTerminating | StateTerminated

fun State_Is :: "State \<Rightarrow> State list \<Rightarrow> bool" where
  "State_Is s [] \<longleftrightarrow> False"
| "State_Is s (state # states) \<longleftrightarrow> (if s = state then True else State_Is s states)"

subsection \<open>Round-trip time\<close>

record RoundTripInfo =
  variation :: u32
  srtt :: u32
  rto :: u32
  minRtt :: u32
  updatedTimestamp :: u32

definition UpdatePeerRTO :: "u32 \<Rightarrow> u32 \<Rightarrow> RoundTripInfo \<Rightarrow> RoundTripInfo" where
  "UpdatePeerRTO r current info =
     (if current - updatedTimestamp info < 3000 then info
      else info\<lparr>updatedTimestamp := current, rto := r\<rparr>)"

definition rtt_Update :: "u32 \<Rightarrow> u32 \<Rightarrow> RoundTripInfo \<Rightarrow> RoundTripInfo" where
  "rtt_Update rtt current info =
     (if rtt > 0x7FFFFFFF then info
      else
        let info =
          (if srtt info = 0 then info\<lparr>srtt := rtt, variation := rtt div 2\<rparr>
           else
             let delta = (if srtt info > rtt then srtt info - rtt else rtt - srtt info);
                 info = info\<lparr>variation := (3 * variation info + delta) div 4\<rparr>;
                 info = info\<lparr>srtt := (7 * srtt info + rtt) div 8\<rparr>
             in if srtt info < minRtt info then info\<lparr>srtt := minRtt info\<rparr> else info);
          r = (if minRtt info < 4 * variation info then srtt info + 4 * variation info
               else srtt info + variation info);
          r = (if r > 10000 then 10000 else r)
        in info\<lparr>rto := r * 5 div 4, updatedTimestamp := current\<rparr>)"

definition Timeout :: "RoundTripInfo \<Rightarrow> u32" where
  "Timeout info = (if rto info = 0 then 100 else rto info)"

definition SmoothedTime :: "RoundTripInfo \<Rightarrow> u32" where
  "SmoothedTime info = srtt info"

subsection \<open>Sending window\<close>

record SendingWindow =
  sw_cache :: "DataSegment list"
  totalInFlightSize :: u32

definition NewSendingWindow :: SendingWindow where
  "NewSendingWindow = \<lparr>sw_cache = [], totalInFlightSize = 0\<rparr>"

text \<open>\<open>Release\<close> pops the front until the list is empty.\<close>

fun release_loop :: "DataSegment list \<Rightarrow> DataSegment list" where
  "release_loop [] = []"
| "release_loop (seg # segs) = release_loop segs"

definition sw_Release :: "SendingWindow \<Rightarrow> SendingWindow" where
  "sw_Release sw = sw\<lparr>sw_cache := release_loop (sw_cache sw)\<rparr>"

definition sw_Len :: "SendingWindow \<Rightarrow> u32" where
  "sw_Len sw = word_of_nat (length (sw_cache sw))"

definition sw_IsEmpty :: "SendingWindow \<Rightarrow> bool" where
  "sw_IsEmpty sw \<longleftrightarrow> length (sw_cache sw) = 0"

definition sw_Push :: "u32 \<Rightarrow> byte list \<Rightarrow> SendingWindow \<Rightarrow> SendingWindow" where
  "sw_Push number b sw =
     (let seg = NewDataSegment\<lparr>ds_Number := number, ds_payload := Some b\<rparr>
      in sw\<lparr>sw_cache := sw_cache sw @ [seg]\<rparr>)"

text \<open>\<open>Front()\<close> is nil on an empty list and dereferencing it panics.\<close>

definition FirstNumber :: "SendingWindow \<Rightarrow> u32 option" where
  "FirstNumber sw = (case sw_cache sw of [] \<Rightarrow> None | seg # _ \<Rightarrow> Some (ds_Number seg))"

fun clear_loop :: "u32 \<Rightarrow> DataSegment list \<Rightarrow> DataSegment list" where
  "clear_loop una [] = []"
| "clear_loop una (seg # segs) = (if ds_Number seg \<ge> una then seg # segs else clear_loop una segs)"

definition sw_Clear :: "u32 \<Rightarrow> SendingWindow \<Rightarrow> SendingWindow" where
  "sw_Clear una sw = sw\<lparr>sw_cache := clear_loop una (sw_cache sw)\<rparr>"

text \<open>\<open>Visit\<close>: the visitor may change the segment and captured variables (the state \<open>s\<close>), and
  stops the walk by returning false.\<close>

fun Visit :: "('s \<Rightarrow> DataSegment \<Rightarrow> bool \<times> DataSegment \<times> 's) \<Rightarrow> 's \<Rightarrow> DataSegment list
    \<Rightarrow> DataSegment list \<times> 's" where
  "Visit visitor s [] = ([], s)"
| "Visit visitor s (seg # segs) =
     (case visitor s seg of (continue, seg', s') \<Rightarrow>
        if continue then apfst (Cons seg') (Visit visitor s' segs) else (seg' # segs, s'))"

definition fastack_visitor :: "u32 \<Rightarrow> u32 \<Rightarrow> unit \<Rightarrow> DataSegment \<Rightarrow> bool \<times> DataSegment \<times> unit" where
  "fastack_visitor number r s seg =
     (if number = ds_Number seg \<or> number - ds_Number seg > 0x7FFFFFFF then (False, seg, ())
      else if ds_transmit seg > 0 \<and> ds_timeout seg > r div 3
      then (True, seg\<lparr>ds_timeout := ds_timeout seg - r div 3\<rparr>, ())
      else (True, seg, ()))"

definition HandleFastAck :: "u32 \<Rightarrow> u32 \<Rightarrow> SendingWindow \<Rightarrow> SendingWindow" where
  "HandleFastAck number r sw =
     (if sw_IsEmpty sw then sw
      else sw\<lparr>sw_cache := fst (Visit (fastack_visitor number r) () (sw_cache sw))\<rparr>)"

record flush_vars =
  fv_total :: u32
  fv_lost :: u32
  fv_inFlight :: u32
  fv_out :: "DataSegment list"

definition flush_visitor ::
  "(DataSegment \<Rightarrow> DataSegment) \<Rightarrow> u32 \<Rightarrow> u32 \<Rightarrow> u32 \<Rightarrow> flush_vars \<Rightarrow> DataSegment
     \<Rightarrow> bool \<times> DataSegment \<times> flush_vars" where
  "flush_visitor wr current r maxInFlightSize v segment =
     (if current - ds_timeout segment \<ge> 0x7FFFFFFF then (True, segment, v)
      else
        let v = (if ds_transmit segment = 0 then v\<lparr>fv_total := fv_total v + 1\<rparr>
                 else v\<lparr>fv_lost := fv_lost v + 1\<rparr>);
            segment = wr (segment\<lparr>ds_timeout := current + r, ds_Timestamp := current,
              ds_transmit := ds_transmit segment + 1\<rparr>);
            v = v\<lparr>fv_out := fv_out v @ [segment], fv_inFlight := fv_inFlight v + 1\<rparr>
        in (fv_inFlight v < maxInFlightSize, segment, v))"

text \<open>\<open>Flush\<close> returns the new window, the segments written and, when the callback
  \<open>onPacketLoss\<close> is called, its argument.\<close>

definition sw_Flush ::
  "(DataSegment \<Rightarrow> DataSegment) \<Rightarrow> u32 \<Rightarrow> u32 \<Rightarrow> u32 \<Rightarrow> SendingWindow
     \<Rightarrow> SendingWindow \<times> DataSegment list \<times> u32 option" where
  "sw_Flush wr current r maxInFlightSize sw =
     (if sw_IsEmpty sw then (sw, [], None)
      else case Visit (flush_visitor wr current r maxInFlightSize)
          \<lparr>fv_total = totalInFlightSize sw, fv_lost = 0, fv_inFlight = 0, fv_out = []\<rparr> (sw_cache sw)
        of (cache', v) \<Rightarrow>
          (sw\<lparr>sw_cache := cache', totalInFlightSize := fv_total v\<rparr>, fv_out v,
           if fv_inFlight v > 0 \<and> fv_total v \<noteq> 0 then Some (fv_lost v * 100 div fv_total v) else None))"

fun remove_loop :: "u32 \<Rightarrow> DataSegment list \<Rightarrow> DataSegment list option" where
  "remove_loop number [] = None"
| "remove_loop number (seg # segs) =
     (if ds_Number seg > number then None
      else if ds_Number seg = number then Some segs
      else map_option (Cons seg) (remove_loop number segs))"

definition sw_Remove :: "u32 \<Rightarrow> SendingWindow \<Rightarrow> bool \<times> SendingWindow" where
  "sw_Remove number sw =
     (if sw_IsEmpty sw then (False, sw)
      else case remove_loop number (sw_cache sw) of
        None \<Rightarrow> (False, sw)
      | Some segs \<Rightarrow>
          (True, sw\<lparr>sw_cache := segs, totalInFlightSize :=
             (if totalInFlightSize sw > 0 then totalInFlightSize sw - 1 else totalInFlightSize sw)\<rparr>))"

subsection \<open>Sending worker\<close>

record SendingWorker =
  s_window :: SendingWindow
  firstUnacknowledged :: u32
  s_nextNumber :: u32
  remoteNextNumber :: u32
  controlWindow :: u32
  fastResend :: u32
  s_windowSize :: u32
  firstUnacknowledgedUpdated :: bool
  s_closed :: bool

definition NewSendingWorker :: "Config \<Rightarrow> SendingWorker option" where
  "NewSendingWorker config = do {
     inFlight \<leftarrow> GetSendingInFlightSize config;
     bufferSize \<leftarrow> GetSendingBufferSize config;
     Some \<lparr>s_window = NewSendingWindow, firstUnacknowledged = 0, s_nextNumber = 0,
       remoteNextNumber = 32, controlWindow = inFlight, fastResend = 2, s_windowSize = bufferSize,
       firstUnacknowledgedUpdated = False, s_closed = False\<rparr> }"

definition s_Release :: "SendingWorker \<Rightarrow> SendingWorker" where
  "s_Release w = w\<lparr>s_window := sw_Release (s_window w), s_closed := True\<rparr>"

definition FindFirstUnacknowledged :: "SendingWorker \<Rightarrow> SendingWorker" where
  "FindFirstUnacknowledged w =
     (let first = firstUnacknowledged w;
          una = (case FirstNumber (s_window w) of Some n \<Rightarrow> n | None \<Rightarrow> s_nextNumber w);
          w = w\<lparr>firstUnacknowledged := una\<rparr>
      in if first \<noteq> una then w\<lparr>firstUnacknowledgedUpdated := True\<rparr> else w)"

definition ProcessReceivingNext :: "u32 \<Rightarrow> SendingWorker \<Rightarrow> SendingWorker" where
  "ProcessReceivingNext nextNumber w =
     FindFirstUnacknowledged (w\<lparr>s_window := sw_Clear nextNumber (s_window w)\<rparr>)"

definition processAck :: "u32 \<Rightarrow> SendingWorker \<Rightarrow> bool \<times> SendingWorker" where
  "processAck number w =
     (if number - firstUnacknowledged w > 0x7FFFFFFF \<or> number - s_nextNumber w < 0x7FFFFFFF
      then (False, w)
      else case sw_Remove number (s_window w) of (removed, win) \<Rightarrow>
        let w = w\<lparr>s_window := win\<rparr>
        in (removed, if removed then FindFirstUnacknowledged w else w))"

text \<open>The loop over \<open>seg.NumberList\<close> with its variables \<open>maxack\<close> and \<open>maxackRemoved\<close>.\<close>

fun ack_loop :: "u32 list \<Rightarrow> u32 \<Rightarrow> bool \<Rightarrow> SendingWorker \<Rightarrow> u32 \<times> bool \<times> SendingWorker" where
  "ack_loop [] maxack maxackRemoved w = (maxack, maxackRemoved, w)"
| "ack_loop (number # ns) maxack maxackRemoved w =
     (case processAck number w of (removed, w') \<Rightarrow>
        if maxack < number then ack_loop ns number removed w'
        else ack_loop ns maxack maxackRemoved w')"

definition s_ProcessSegment ::
  "u32 \<Rightarrow> AckSegment \<Rightarrow> u32 \<Rightarrow> SendingWorker \<Rightarrow> RoundTripInfo \<Rightarrow> SendingWorker \<times> RoundTripInfo" where
  "s_ProcessSegment current seg r w roundTrip =
     (if s_closed w then (w, roundTrip)
      else
        let w = (if remoteNextNumber w < as_ReceivingWindow seg
                 then w\<lparr>remoteNextNumber := as_ReceivingWindow seg\<rparr> else w);
            w = ProcessReceivingNext (as_ReceivingNext seg) w
        in if Ack_IsEmpty seg then (w, roundTrip)
           else case ack_loop (as_NumberList seg) 0 False w of (maxack, maxackRemoved, w) \<Rightarrow>
             if maxackRemoved
             then (w\<lparr>s_window := HandleFastAck maxack r (s_window w)\<rparr>,
                   if current - as_Timestamp seg < 10000
                   then rtt_Update (current - as_Timestamp seg) current roundTrip else roundTrip)
             else (w, roundTrip))"

definition s_Push :: "byte list \<Rightarrow> SendingWorker \<Rightarrow> bool \<times> SendingWorker" where
  "s_Push b w =
     (if s_closed w then (False, w)
      else if sw_Len (s_window w) > s_windowSize w then (False, w)
      else (True, w\<lparr>s_window := sw_Push (s_nextNumber w) b (s_window w),
              s_nextNumber := s_nextNumber w + 1\<rparr>))"

definition s_Write :: "u16 \<Rightarrow> State \<Rightarrow> SendingWorker \<Rightarrow> DataSegment \<Rightarrow> DataSegment" where
  "s_Write conv state w dataSeg = dataSeg\<lparr>ds_Conv := conv, ds_SendingNext := firstUnacknowledged w,
     ds_Option := (if state = StateReadyToClose then SegmentOptionClose else 0)\<rparr>"

definition OnPacketLoss :: "Config \<Rightarrow> RoundTripInfo \<Rightarrow> u32 \<Rightarrow> SendingWorker \<Rightarrow> SendingWorker option" where
  "OnPacketLoss config roundTrip lossRate w =
     (if \<not> cfg_Congestion config \<or> Timeout roundTrip = 0 then Some w
      else
        let cw = controlWindow w;
            cw = (if lossRate \<ge> 15 then 3 * cw div 4
                  else if lossRate \<le> 5 then cw + cw div 4 else cw);
            cw = (if cw < 16 then 16 else cw)
        in do {
          inFlight \<leftarrow> GetSendingInFlightSize config;
          Some (w\<lparr>controlWindow := (if cw > 2 * inFlight then 2 * inFlight else cw)\<rparr>) })"

definition congestion_window :: "Config \<Rightarrow> SendingWorker \<Rightarrow> u32 option" where
  "congestion_window config w = do {
     cwnd \<leftarrow> GetSendingInFlightSize config;
     let cwnd = (if cwnd > remoteNextNumber w - firstUnacknowledged w
                 then remoteNextNumber w - firstUnacknowledged w else cwnd);
     let cwnd = (if cfg_Congestion config \<and> cwnd > controlWindow w then controlWindow w else cwnd);
     Some (cwnd * 20) }"

text \<open>\<open>SendingWorker.Flush\<close>: the result is the worker, the data segments written and whether the
  caller has to send a ping (which happens after the lock is released).\<close>

definition s_Flush ::
  "Config \<Rightarrow> u16 \<Rightarrow> State \<Rightarrow> RoundTripInfo \<Rightarrow> u32 \<Rightarrow> SendingWorker
     \<Rightarrow> (SendingWorker \<times> DataSegment list \<times> bool) option" where
  "s_Flush config conv state roundTrip current w =
     (if s_closed w then Some (w, [], False)
      else do {
        cwnd \<leftarrow> congestion_window config w;
        if sw_IsEmpty (s_window w)
        then Some (w\<lparr>firstUnacknowledgedUpdated := False\<rparr>, [], firstUnacknowledgedUpdated w)
        else case sw_Flush (s_Write conv state w) current (Timeout roundTrip) cwnd (s_window w) of
          (win, out, loss) \<Rightarrow> do {
            let w = w\<lparr>s_window := win\<rparr>;
            w \<leftarrow> (case loss of None \<Rightarrow> Some w | Some rate \<Rightarrow> OnPacketLoss config roundTrip rate w);
            Some (w\<lparr>firstUnacknowledgedUpdated := False\<rparr>, out, False) } })"

definition CloseWrite :: "SendingWorker \<Rightarrow> SendingWorker" where
  "CloseWrite w = w\<lparr>s_window := sw_Clear 0xFFFFFFFF (s_window w)\<rparr>"

definition s_IsEmpty :: "SendingWorker \<Rightarrow> bool" where
  "s_IsEmpty w \<longleftrightarrow> sw_IsEmpty (s_window w)"

definition s_UpdateNecessary :: "SendingWorker \<Rightarrow> bool" where
  "s_UpdateNecessary w \<longleftrightarrow> \<not> s_IsEmpty w"

subsection \<open>What the walks over the window keep\<close>

text \<open>Number and payload identify what a segment transports; the rest is bookkeeping.\<close>

definition seg_view :: "DataSegment \<Rightarrow> u32 \<times> byte list option" where
  "seg_view seg = (ds_Number seg, ds_payload seg)"

definition win_view :: "SendingWindow \<Rightarrow> (u32 \<times> byte list option) list" where
  "win_view sw = map seg_view (sw_cache sw)"

abbreviation win_numbers :: "SendingWindow \<Rightarrow> u32 list" where
  "win_numbers sw \<equiv> map ds_Number (sw_cache sw)"

named_theorems view_simps "operations that keep the view of the window"

lemma map_seg_view_numbers: "map ds_Number segs = map fst (map seg_view segs)"
  by (simp add: seg_view_def)

lemma Visit_view:
  assumes "\<And>s seg. seg_view (fst (snd (visitor s seg))) = seg_view seg"
  shows "map seg_view (fst (Visit visitor s segs)) = map seg_view segs"
proof (induction segs arbitrary: s)
  case (Cons seg segs)
  then show ?case using assms [of s seg] by (auto split: prod.split)
qed simp

lemma HandleFastAck_view [view_simps]: "win_view (HandleFastAck n r sw) = win_view sw"
  by (simp add: win_view_def HandleFastAck_def Visit_view fastack_visitor_def seg_view_def)

lemma s_Write_view [view_simps]: "seg_view (s_Write conv state w seg) = seg_view seg"
  by (simp add: s_Write_def seg_view_def)

lemma flush_visitor_view:
  assumes "\<And>seg. seg_view (wr seg) = seg_view seg"
  shows "seg_view (fst (snd (flush_visitor wr current r m v seg))) = seg_view seg"
  using assms by (simp add: flush_visitor_def Let_def) (simp add: seg_view_def)

lemma flush_walk_view:
  assumes "\<And>seg. seg_view (wr seg) = seg_view seg"
  shows "map seg_view (fst (Visit (flush_visitor wr current r m) v segs)) = map seg_view segs"
  by (intro Visit_view flush_visitor_view assms)

text \<open>Everything written is a stored segment whose timer has run out, and it is stored as written.\<close>

definition expired :: "u32 \<Rightarrow> DataSegment \<Rightarrow> bool" where
  "expired current seg \<longleftrightarrow> current - ds_timeout seg < 0x7FFFFFFF"

lemma flush_walk_out:
  "set (fv_out (snd (Visit (flush_visitor wr current r m) v segs))) \<subseteq>
     set (fv_out v) \<union> {wr (seg\<lparr>ds_timeout := current + r, ds_Timestamp := current,
       ds_transmit := ds_transmit seg + 1\<rparr>) | seg. seg \<in> set segs \<and> expired current seg}"
proof (induction segs arbitrary: v)
  case (Cons seg segs)
  show ?case
  proof (cases "expired current seg")
    case False
    then show ?thesis
      using Cons.IH [of v] by (auto simp: flush_visitor_def expired_def not_less)
  next
    case True
    let ?p = "flush_visitor wr current r m v seg"
    have out: "fv_out (snd (snd ?p)) = fv_out v @ [wr (seg\<lparr>ds_timeout := current + r,
        ds_Timestamp := current, ds_transmit := ds_transmit seg + 1\<rparr>)]"
      using True by (simp add: flush_visitor_def expired_def Let_def)
    show ?thesis
    proof (cases "fst ?p")
      case cont: True
      then have "snd (Visit (flush_visitor wr current r m) v (seg # segs)) =
          snd (Visit (flush_visitor wr current r m) (snd (snd ?p)) segs)"
        by (simp add: case_prod_beta)
      then show ?thesis
        using Cons.IH [of "snd (snd ?p)"] True unfolding out by auto
    next
      case False
      then have "snd (Visit (flush_visitor wr current r m) v (seg # segs)) = snd (snd ?p)"
        by (simp add: case_prod_beta)
      then show ?thesis using out True by auto
    qed
  qed
qed simp

lemma flush_walk_count:
  assumes "unat (fv_inFlight v) = length (fv_out v)" "fv_out v = [] \<or> fv_inFlight v < m"
  shows "length (fv_out (snd (Visit (flush_visitor wr current r m) v segs))) \<le> max 1 (unat m)"
  using assms
proof (induction segs arbitrary: v)
  case Nil
  then show ?case by (auto simp: word_less_nat_alt)
next
  case (Cons seg segs)
  show ?case
  proof (cases "expired current seg")
    case False
    then show ?thesis
      using Cons by (simp add: flush_visitor_def expired_def not_less)
  next
    case True
    let ?p = "flush_visitor wr current r m v seg"
    have step: "fv_inFlight (snd (snd ?p)) = fv_inFlight v + 1"
      "length (fv_out (snd (snd ?p))) = Suc (length (fv_out v))"
      "fst ?p \<longleftrightarrow> fv_inFlight v + 1 < m"
      using True by (auto simp: flush_visitor_def expired_def Let_def dest: leD)
    have "unat (fv_inFlight v) + 1 < 2 ^ 32"
      using Cons.prems unsigned_less [of m, where 'a = nat] by (auto simp: word_less_nat_alt)
    then have u: "unat (fv_inFlight v + 1) = Suc (unat (fv_inFlight v))"
      by (simp add: unat_word_ariths)
    show ?thesis
    proof (cases "fst ?p")
      case cont: True
      have "snd (Visit (flush_visitor wr current r m) v (seg # segs)) =
          snd (Visit (flush_visitor wr current r m) (snd (snd ?p)) segs)"
        using cont by (simp add: case_prod_beta)
      then show ?thesis
        using Cons.IH [of "snd (snd ?p)"] Cons.prems step u cont by simp
    next
      case False
      have "snd (Visit (flush_visitor wr current r m) v (seg # segs)) = snd (snd ?p)"
        using False by (simp add: case_prod_beta)
      then show ?thesis
        using step Cons.prems by (auto simp: word_less_nat_alt)
    qed
  qed
qed

subsection \<open>Window operations against the list of numbers\<close>

text \<open>The numbers in the window increase strictly: \<open>Push\<close> appends consecutive ones.\<close>

definition win_sorted :: "SendingWindow \<Rightarrow> bool" where
  "win_sorted sw \<longleftrightarrow> sorted_wrt (<) (win_numbers sw)"

lemma remove_loop_sorted:
  "sorted_wrt (<) (map ds_Number segs) \<Longrightarrow>
   remove_loop n segs = (if n \<in> set (map ds_Number segs)
     then Some (filter (\<lambda>seg. ds_Number seg \<noteq> n) segs) else None)"
proof (induction segs)
  case (Cons seg segs)
  then have rest: "\<forall>y \<in> set segs. ds_Number seg < ds_Number y" by simp
  show ?case
  proof (cases "ds_Number seg = n")
    case True
    with rest have "filter (\<lambda>s. ds_Number s \<noteq> n) segs = segs"
      by (intro filter_True) auto
    with True show ?thesis by simp
  next
    case False
    with Cons rest show ?thesis by (auto dest: less_asym)
  qed
qed simp

lemma sw_Remove_sorted:
  assumes "win_sorted sw"
  shows "sw_Remove n sw = (if n \<in> set (win_numbers sw)
     then (True, sw\<lparr>sw_cache := filter (\<lambda>seg. ds_Number seg \<noteq> n) (sw_cache sw),
             totalInFlightSize := totalInFlightSize sw - (if totalInFlightSize sw > 0 then 1 else 0)\<rparr>)
     else (False, sw))"
  using assms
  by (auto simp: sw_Remove_def sw_IsEmpty_def win_sorted_def remove_loop_sorted)

lemma clear_loop_dropWhile: "clear_loop una segs = dropWhile (\<lambda>seg. ds_Number seg < una) segs"
  by (induction segs) (auto dest: leD)

lemma clear_loop_sorted:
  "sorted_wrt (<) (map ds_Number segs) \<Longrightarrow>
   clear_loop una segs = filter (\<lambda>seg. ds_Number seg \<ge> una) segs"
proof (induction segs)
  case (Cons seg segs)
  show ?case
  proof (cases "ds_Number seg \<ge> una")
    case True
    then have "\<forall>s \<in> set segs. una \<le> ds_Number s" using Cons.prems by fastforce
    with True show ?thesis by simp
  next
    case False
    with Cons show ?thesis by simp
  qed
qed simp

lemma release_loop_Nil [simp]: "release_loop segs = []"
  by (induction segs) auto

lemma sorted_filter: "sorted_wrt P (map f xs) \<Longrightarrow> sorted_wrt P (map f (filter Q xs))"
  by (induction xs) auto

subsection \<open>The worker's invariant\<close>

text \<open>
  \<open>sender_inv pushed w\<close>: the buffers accepted so far are \<open>pushed\<close>, fewer than \<open>2 ^ 32\<close> of them, the
  next number is their count, and every segment in the window carries the buffer its number
  stands for.
\<close>

definition carries :: "byte list list \<Rightarrow> u32 \<times> byte list option \<Rightarrow> bool" where
  "carries pushed v \<longleftrightarrow> unat (fst v) < length pushed \<and> snd v = Some (pushed ! unat (fst v))"

definition sender_inv :: "byte list list \<Rightarrow> SendingWorker \<Rightarrow> bool" where
  "sender_inv pushed w \<longleftrightarrow>
     length pushed < 2 ^ 32 \<and> s_nextNumber w = word_of_nat (length pushed) \<and>
     win_sorted (s_window w) \<and> (\<forall>v \<in> set (win_view (s_window w)). carries pushed v)"

lemma carries_append: "carries pushed v \<Longrightarrow> carries (pushed @ bs) v"
  by (auto simp: carries_def nth_append)

lemma win_sorted_view: "win_sorted sw \<longleftrightarrow> sorted_wrt (<) (map fst (win_view sw))"
  by (simp add: win_sorted_def win_view_def seg_view_def comp_def)

text \<open>An operation that only filters the window, or keeps its view, keeps the invariant.\<close>

lemma sender_inv_view:
  assumes "sender_inv pushed w" "s_nextNumber w' = s_nextNumber w"
    and "win_view (s_window w') = filter P (win_view (s_window w))"
  shows "sender_inv pushed w'"
  using assms sorted_filter [of "(<)" fst "win_view (s_window w)" P]
  by (auto simp: sender_inv_def win_sorted_view)

lemma sender_inv_same:
  assumes "sender_inv pushed w" "s_nextNumber w' = s_nextNumber w"
    and "win_view (s_window w') = win_view (s_window w)"
  shows "sender_inv pushed w'"
  using sender_inv_view [of pushed w w' "\<lambda>_. True"] assms by simp

lemma NewSendingWorker_inv: "NewSendingWorker config = Some w \<Longrightarrow> sender_inv [] w"
  by (auto simp: NewSendingWorker_def NewSendingWindow_def sender_inv_def win_sorted_def
      win_view_def bind_eq_Some_conv)

lemma s_Push_cases:
  obtains "s_Push b w = (False, w)"
  | "s_Push b w = (True, w\<lparr>s_window := sw_Push (s_nextNumber w) b (s_window w),
       s_nextNumber := s_nextNumber w + 1\<rparr>)" "\<not> s_closed w" "sw_Len (s_window w) \<le> s_windowSize w"
  by (cases "s_closed w"; cases "sw_Len (s_window w) > s_windowSize w") (auto simp: s_Push_def not_less)

lemma unat_word_of_nat32: "n < 2 ^ 32 \<Longrightarrow> unat (word_of_nat n :: u32) = n"
  by (simp add: unat_of_nat)

lemma s_Push_inv:
  assumes "sender_inv pushed w" "Suc (length pushed) < 2 ^ 32" "s_Push b w = (True, w')"
  shows "sender_inv (pushed @ [b]) w'"
proof -
  have w': "w' = w\<lparr>s_window := sw_Push (s_nextNumber w) b (s_window w), s_nextNumber := s_nextNumber w + 1\<rparr>"
    using assms(3) by (cases b w rule: s_Push_cases) auto
  have n: "s_nextNumber w = word_of_nat (length pushed)"
    using assms(1) by (simp add: sender_inv_def)
  have view: "win_view (s_window w') = win_view (s_window w) @ [(s_nextNumber w, Some b)]"
    by (simp add: w' sw_Push_def win_view_def seg_view_def NewDataSegment_def)
  have "fst v < s_nextNumber w" if "v \<in> set (win_view (s_window w))" for v
    using that assms(1,2) by (auto simp: sender_inv_def carries_def word_less_nat_alt unat_word_of_nat32)
  then have "win_sorted (s_window w')"
    using assms(1) unfolding win_sorted_view view by (auto simp: sender_inv_def win_sorted_view sorted_wrt_append)
  moreover have "carries (pushed @ [b]) (s_nextNumber w, Some b)"
    using assms(2) by (simp add: carries_def n unat_word_of_nat32)
  ultimately show ?thesis
    using assms(1,2) unfolding sender_inv_def view by (auto simp: w' n intro: carries_append)
qed

text \<open>Acknowledgements take away exactly what they name.\<close>

lemma FindFirstUnacknowledged_simps [simp]:
  "s_window (FindFirstUnacknowledged w) = s_window w"
  "s_nextNumber (FindFirstUnacknowledged w) = s_nextNumber w"
  "s_closed (FindFirstUnacknowledged w) = s_closed w"
  "s_windowSize (FindFirstUnacknowledged w) = s_windowSize w"
  by (simp_all add: FindFirstUnacknowledged_def Let_def)

lemma filter_view: "map seg_view (filter (\<lambda>seg. P (ds_Number seg)) segs) =
   filter (\<lambda>v. P (fst v)) (map seg_view segs)"
  by (induction segs) (auto simp: seg_view_def)

lemma ProcessReceivingNext_window:
  assumes "win_sorted (s_window w)"
  shows "win_view (s_window (ProcessReceivingNext una w)) =
     filter (\<lambda>v. fst v \<ge> una) (win_view (s_window w))"
    and "s_nextNumber (ProcessReceivingNext una w) = s_nextNumber w"
  using assms filter_view [of "\<lambda>n. n \<ge> una"]
  by (simp_all add: ProcessReceivingNext_def sw_Clear_def win_sorted_def win_view_def clear_loop_sorted)

lemma processAck_window:
  assumes "win_sorted (s_window w)" "processAck n w = (removed, w')"
  shows "(win_view (s_window w') = win_view (s_window w) \<or>
      win_view (s_window w') = filter (\<lambda>v. fst v \<noteq> n) (win_view (s_window w))) \<and>
    s_nextNumber w' = s_nextNumber w"
  using assms filter_view [of "\<lambda>m. m \<noteq> n"]
  by (auto simp: processAck_def sw_Remove_sorted win_view_def split: if_splits)

lemma processAck_inv:
  assumes "sender_inv pushed w" "processAck n w = (removed, w')"
  shows "sender_inv pushed w'"
  using processAck_window [OF _ assms(2)] assms(1) sender_inv_view [OF assms(1), of w']
    sender_inv_same [OF assms(1), of w']
  by (auto simp: sender_inv_def)

lemma ack_loop_window:
  assumes "sender_inv pushed w" "ack_loop ns m b w = (m', b', w')"
  shows "sender_inv pushed w' \<and>
    (\<forall>v \<in> set (win_view (s_window w)). fst v \<notin> set ns \<longrightarrow> v \<in> set (win_view (s_window w')))"
  using assms
proof (induction ns arbitrary: m b w)
  case (Cons n ns)
  obtain removed w1 where w1: "processAck n w = (removed, w1)" by fastforce
  then have inv: "sender_inv pushed w1" using processAck_inv Cons.prems(1) by blast
  have "win_sorted (s_window w)" using Cons.prems(1) by (simp add: sender_inv_def)
  then have keep: "\<forall>v \<in> set (win_view (s_window w)). fst v \<noteq> n \<longrightarrow> v \<in> set (win_view (s_window w1))"
    using processAck_window [OF _ w1] by auto
  obtain m2 b2 where "ack_loop ns m2 b2 w1 = (m', b', w')"
    using Cons.prems(2) w1 by (auto split: if_splits)
  then show ?case using Cons.IH [OF inv] keep by auto
qed simp

lemma ProcessReceivingNext_inv:
  assumes "sender_inv pushed w"
  shows "sender_inv pushed (ProcessReceivingNext una w)"
  using ProcessReceivingNext_window [of w una] sender_inv_view [OF assms] assms
  by (simp add: sender_inv_def [of _ w])

lemma s_ProcessSegment_window:
  assumes "sender_inv pushed w" "s_ProcessSegment current seg r w rt = (w', rt')"
  shows "sender_inv pushed w' \<and>
    (\<forall>v \<in> set (win_view (s_window w)). fst v \<ge> as_ReceivingNext seg \<longrightarrow>
       fst v \<notin> set (as_NumberList seg) \<longrightarrow> v \<in> set (win_view (s_window w')))"
proof (cases "s_closed w")
  case True
  with assms show ?thesis by (simp add: s_ProcessSegment_def)
next
  case False
  define w0 where "w0 = (if remoteNextNumber w < as_ReceivingWindow seg
     then w\<lparr>remoteNextNumber := as_ReceivingWindow seg\<rparr> else w)"
  define w1 where "w1 = ProcessReceivingNext (as_ReceivingNext seg) w0"
  have w0: "sender_inv pushed w0" "s_window w0 = s_window w"
    using assms(1) by (auto simp: w0_def sender_inv_def)
  then have w1: "sender_inv pushed w1"
    "\<forall>v \<in> set (win_view (s_window w)). fst v \<ge> as_ReceivingNext seg \<longrightarrow> v \<in> set (win_view (s_window w1))"
    using ProcessReceivingNext_window [of w0] ProcessReceivingNext_inv
    by (auto simp: w1_def sender_inv_def [of _ w0])
  obtain m b w2 where w2: "ack_loop (as_NumberList seg) 0 False w1 = (m, b, w2)"
    by (metis prod_cases3)
  have r: "(w', rt') = (if Ack_IsEmpty seg then (w1, rt)
      else if b then (w2\<lparr>s_window := HandleFastAck m r (s_window w2)\<rparr>,
          if current - as_Timestamp seg < 10000
          then rtt_Update (current - as_Timestamp seg) current rt else rt)
      else (w2, rt))"
    using assms(2) False
    unfolding s_ProcessSegment_def Let_def w0_def [symmetric] w1_def [symmetric] w2
    by (auto split: if_splits)
  have "sender_inv pushed (w2\<lparr>s_window := HandleFastAck m r (s_window w2)\<rparr>)" if "sender_inv pushed w2"
    using sender_inv_same [OF that] by (simp add: view_simps)
  then show ?thesis
    using r w1 ack_loop_window [OF w1(1) w2] by (auto simp: view_simps Ack_IsEmpty_def split: if_splits)
qed

text \<open>Flushing keeps the window and writes only what is in it.\<close>

lemma OnPacketLoss_simps:
  "OnPacketLoss config rt rate w = Some w' \<Longrightarrow>
   s_window w' = s_window w \<and> s_nextNumber w' = s_nextNumber w \<and> s_closed w' = s_closed w \<and>
   firstUnacknowledged w' = firstUnacknowledged w"
  by (auto simp: OnPacketLoss_def Let_def bind_eq_Some_conv split: if_splits)

lemma sw_Flush_view:
  assumes "sw_Flush wr current r m sw = (sw', out, loss)" "\<And>seg. seg_view (wr seg) = seg_view seg"
  shows "win_view sw' = win_view sw"
  using assms flush_walk_view [of wr current r m]
  by (auto simp: sw_Flush_def win_view_def case_prod_beta split: if_splits)

lemma sw_Flush_out:
  assumes "sw_Flush wr current r m sw = (sw', out, loss)"
  shows "set out \<subseteq> {wr (seg\<lparr>ds_timeout := current + r, ds_Timestamp := current,
       ds_transmit := ds_transmit seg + 1\<rparr>) | seg. seg \<in> set (sw_cache sw) \<and> expired current seg}"
    and "length out \<le> max 1 (unat m)"
proof -
  let ?v = "\<lparr>fv_total = totalInFlightSize sw, fv_lost = 0, fv_inFlight = 0, fv_out = []\<rparr>"
  have "out = [] \<or> out = fv_out (snd (Visit (flush_visitor wr current r m) ?v (sw_cache sw)))"
    using assms by (auto simp: sw_Flush_def split: if_splits prod.splits)
  then show "set out \<subseteq> {wr (seg\<lparr>ds_timeout := current + r, ds_Timestamp := current,
       ds_transmit := ds_transmit seg + 1\<rparr>) | seg. seg \<in> set (sw_cache sw) \<and> expired current seg}"
    and "length out \<le> max 1 (unat m)"
    using flush_walk_out [of wr current r m ?v "sw_cache sw"]
      flush_walk_count [of ?v m wr current r "sw_cache sw"] by auto
qed

lemma s_Flush_cases:
  assumes "s_Flush config conv state rt current w = Some (w', out, ping)"
  obtains "s_window w' = s_window w" "s_nextNumber w' = s_nextNumber w" "out = []"
    "s_closed w \<or> sw_IsEmpty (s_window w)"
  | win loss cwnd where "s_nextNumber w' = s_nextNumber w" "s_window w' = win" "\<not> s_closed w"
    "congestion_window config w = Some cwnd"
    "sw_Flush (s_Write conv state w) current (Timeout rt) cwnd (s_window w) = (win, out, loss)"
proof (cases "s_closed w \<or> sw_IsEmpty (s_window w)")
  case True
  with assms have "s_window w' = s_window w \<and> s_nextNumber w' = s_nextNumber w \<and> out = []"
    by (auto simp: s_Flush_def bind_eq_Some_conv split: if_splits)
  with True that(1) show thesis by blast
next
  case False
  with assms obtain cwnd where c: "congestion_window config w = Some cwnd"
    by (auto simp: s_Flush_def bind_eq_Some_conv)
  obtain win out' loss where f:
    "sw_Flush (s_Write conv state w) current (Timeout rt) cwnd (s_window w) = (win, out', loss)"
    by (metis prod_cases3)
  have "out' = out \<and> s_window w' = win \<and> s_nextNumber w' = s_nextNumber w"
    using assms False c f
    by (auto simp: s_Flush_def bind_eq_Some_conv Let_def split: option.splits
        dest!: OnPacketLoss_simps)
  with False c f that(2) show thesis by blast
qed

lemma s_Flush_view:
  assumes "s_Flush config conv state rt current w = Some (w', out, ping)"
  shows "win_view (s_window w') = win_view (s_window w) \<and> s_nextNumber w' = s_nextNumber w"
  using assms by (cases rule: s_Flush_cases) (auto simp: view_simps dest: sw_Flush_view)

lemma s_Flush_inv:
  assumes "sender_inv pushed w" "s_Flush config conv state rt current w = Some (w', out, ping)"
  shows "sender_inv pushed w'"
  using sender_inv_same [OF assms(1)] s_Flush_view [OF assms(2)] by blast

lemma s_Flush_out_carries:
  assumes "sender_inv pushed w" "s_Flush config conv state rt current w = Some (w', out, ping)"
    and "seg \<in> set out"
  shows "carries pushed (seg_view seg)"
  using assms(2)
proof (cases rule: s_Flush_cases)
  case 1
  with assms(3) show ?thesis by simp
next
  case (2 win loss cwnd)
  then obtain old where "old \<in> set (sw_cache (s_window w))" "seg_view seg = seg_view old"
    using sw_Flush_out(1) [OF 2(5)] assms(3) by (auto simp: view_simps seg_view_def s_Write_def)
  with assms(1) show ?thesis by (auto simp: sender_inv_def win_view_def)
qed

subsection \<open>Round-trip estimates stay small\<close>

definition rtt_ok :: "RoundTripInfo \<Rightarrow> bool" where
  "rtt_ok info \<longleftrightarrow> minRtt info \<le> 1000 \<and> srtt info \<le> 10000 \<and> variation info \<le> 10000"

lemma variation_nat:
  assumes "unat v \<le> 10000" "unat s \<le> 10000" "unat r < 10000"
  shows "unat ((3 * v + (if s > r then s - r else r - s)) div 4 :: u32) =
    (3 * unat v + (if unat s > unat r then unat s - unat r else unat r - unat s)) div 4"
proof -
  define d where "d = (if s > r then s - r else r - s)"
  have d: "unat d = (if unat s > unat r then unat s - unat r else unat r - unat s)"
    by (simp add: d_def word_less_nat_alt [symmetric] unat_diff_small not_less)
  then have "unat d \<le> 10000" using assms by auto
  moreover have "unat (3 * v) = 3 * unat v" using assms by (subst unat_mult_small) simp_all
  ultimately have "unat (3 * v + d) = 3 * unat v + unat d"
    using assms by (subst unat_add_small) simp_all
  then show ?thesis by (simp only: unat_div_distrib d d_def [symmetric]) simp
qed

lemma srtt_nat:
  assumes "unat s \<le> 10000" "unat r < 10000"
  shows "unat ((7 * s + r) div 8 :: u32) = (7 * unat s + unat r) div 8"
proof -
  have "unat (7 * s) = 7 * unat s" using assms by (subst unat_mult_small) simp_all
  then have "unat (7 * s + r) = 7 * unat s + unat r" using assms by (subst unat_add_small) simp_all
  then show ?thesis by (simp add: unat_div_distrib)
qed

lemma rto_nat:
  assumes "unat v \<le> 10000" "unat s \<le> 10000"
  shows "unat ((if (if m < 4 * v then s + 4 * v else s + v) > 10000 then 10000
       else (if m < 4 * v then s + 4 * v else s + v)) * 5 div 4 :: u32) =
     min 10000 (if unat m < 4 * unat v then unat s + 4 * unat v else unat s + unat v) * 5 div 4"
proof -
  define r where "r = (if m < 4 * v then s + 4 * v else s + v)"
  define c where "c = (if r > 10000 then 10000 else r)"
  have v4: "unat (4 * v) = 4 * unat v" using assms by (subst unat_mult_small) simp_all
  have r: "unat r = (if unat m < 4 * unat v then unat s + 4 * unat v else unat s + unat v)"
    using assms v4 by (simp add: r_def unat_add_small word_less_nat_alt)
  have c: "unat c = min 10000 (unat r)"
    by (simp add: c_def min_def word_less_nat_alt)
  then have "unat (c * 5) = unat c * 5"
    by (subst unat_mult_small) simp_all
  then show ?thesis
    by (simp only: r_def [symmetric] c_def [symmetric] unat_div_distrib c r) simp
qed

definition rtt_spec :: "nat \<Rightarrow> nat \<Rightarrow> nat \<Rightarrow> nat \<Rightarrow> nat \<times> nat \<times> nat" where
  "rtt_spec rtt v s m =
     (let v' = (if s = 0 then rtt div 2
                else (3 * v + (if s > rtt then s - rtt else rtt - s)) div 4);
          s' = (if s = 0 then rtt else max m ((7 * s + rtt) div 8))
      in (v', s', min 10000 (if m < 4 * v' then s' + 4 * v' else s' + v') * 5 div 4))"

text \<open>On these values the 32-bit arithmetic of \<open>Update\<close> does not wrap.\<close>

lemma rtt_Update_spec:
  assumes "rtt_ok info" "rtt < 10000"
  shows "(unat (variation (rtt_Update rtt current info)), unat (srtt (rtt_Update rtt current info)),
      unat (rto (rtt_Update rtt current info))) =
    rtt_spec (unat rtt) (unat (variation info)) (unat (srtt info)) (unat (minRtt info))"
proof -
  have b: "unat (minRtt info) \<le> 1000" "unat (srtt info) \<le> 10000" "unat (variation info) \<le> 10000"
    "unat rtt < 10000" "\<not> rtt > 0x7FFFFFFF"
    using assms by (auto simp: rtt_ok_def word_le_nat_alt word_less_nat_alt)
  define v where "v = (if srtt info = 0 then rtt div 2 else
     (3 * variation info + (if srtt info > rtt then srtt info - rtt else rtt - srtt info)) div 4)"
  define s where "s = (if srtt info = 0 then rtt else
     if (7 * srtt info + rtt) div 8 < minRtt info then minRtt info else (7 * srtt info + rtt) div 8)"
  have f: "variation (rtt_Update rtt current info) = v" "srtt (rtt_Update rtt current info) = s"
    "rto (rtt_Update rtt current info) =
      (if (if minRtt info < 4 * v then s + 4 * v else s + v) > 10000 then 10000
       else (if minRtt info < 4 * v then s + 4 * v else s + v)) * 5 div 4"
    using b(5) by (simp_all add: rtt_Update_def Let_def v_def s_def)
  have v: "unat v = (if unat (srtt info) = 0 then unat rtt div 2 else
     (3 * unat (variation info) + (if unat (srtt info) > unat rtt then unat (srtt info) - unat rtt
        else unat rtt - unat (srtt info))) div 4)"
    using variation_nat [OF b(3,2,4)] by (simp add: v_def unat_div_distrib unat_eq_0)
  have s: "unat s = (if unat (srtt info) = 0 then unat rtt else
     max (unat (minRtt info)) ((7 * unat (srtt info) + unat rtt) div 8))"
    using srtt_nat [OF b(2,4)] by (simp add: s_def unat_eq_0 word_less_nat_alt max_def)
  have "unat v \<le> 10000" "unat s \<le> 10000"
    using b unfolding v s by auto
  then show ?thesis
    unfolding rtt_spec_def Let_def f v [symmetric] s [symmetric]
    using rto_nat [of v s "minRtt info"] by simp
qed

lemma rtt_spec_bounds:
  assumes "v \<le> 10000" "s \<le> 10000" "m \<le> 1000" "rtt < 10000" "rtt_spec rtt v s m = (v', s', r')"
  shows "v' \<le> 10000" "s' \<le> 10000" "r' \<le> 12500"
proof -
  have e: "v' = (if s = 0 then rtt div 2 else (3 * v + (if s > rtt then s - rtt else rtt - s)) div 4)"
    "s' = (if s = 0 then rtt else max m ((7 * s + rtt) div 8))"
    and "\<exists>x. r' = min 10000 x * 5 div 4"
    using assms(5) by (simp_all only: rtt_spec_def Let_def prod.inject) blast
  then obtain x where r: "r' = min 10000 x * 5 div 4" by blast
  have d: "(if s > rtt then s - rtt else rtt - s) \<le> 10000" using assms(2,4) by auto
  have "(3 * v + x) div 4 \<le> 10000" if "x \<le> 10000" for x using assms(1) that by simp
  moreover have "rtt div 2 \<le> 10000" using assms(4) by simp
  ultimately show "v' \<le> 10000" unfolding e(1) using d by simp
  have "(7 * s + rtt) div 8 \<le> 10000" using assms(2,4) by simp
  then show "s' \<le> 10000" unfolding e(2) using assms(3,4) by simp
  show "r' \<le> 12500" unfolding r by simp
qed



subsection \<open>Properties of the sending side\<close>

text \<open>C11. What a flush sends: every segment written is a segment of the window whose timer has
  expired, stamped with the current time, the conversation, the oldest unacknowledged number and the
  close flag exactly in state \<open>ReadyToClose\<close>; their number never exceeds the congestion window (or
  one, when that window is zero); and numbers and payloads in the window are untouched, so nothing
  is lost before it is acknowledged.\<close>

theorem s_Flush_sends_expired:
  assumes "s_Flush config conv state roundTrip current w = Some (w', out, ping)"
  shows "win_view (s_window w') = win_view (s_window w) \<and>
    (\<forall>seg \<in> set out. seg_view seg \<in> set (win_view (s_window w)) \<and>
       (\<exists>old \<in> set (sw_cache (s_window w)). expired current old \<and> seg_view seg = seg_view old \<and>
          ds_transmit seg = ds_transmit old + 1) \<and>
       ds_Timestamp seg = current \<and> ds_timeout seg = current + Timeout roundTrip \<and>
       ds_Conv seg = conv \<and> ds_SendingNext seg = firstUnacknowledged w \<and>
       (ds_Option seg = SegmentOptionClose \<longleftrightarrow> state = StateReadyToClose)) \<and>
    (out = [] \<or> (\<exists>cwnd. congestion_window config w = Some cwnd \<and> length out \<le> max 1 (unat cwnd)))"
  using assms
proof (cases rule: s_Flush_cases)
  case 1
  then show ?thesis by simp
next
  case (2 win loss cwnd)
  have "seg_view seg \<in> set (win_view (s_window w)) \<and>
       (\<exists>old \<in> set (sw_cache (s_window w)). expired current old \<and> seg_view seg = seg_view old \<and>
          ds_transmit seg = ds_transmit old + 1) \<and>
       ds_Timestamp seg = current \<and> ds_timeout seg = current + Timeout roundTrip \<and>
       ds_Conv seg = conv \<and> ds_SendingNext seg = firstUnacknowledged w \<and>
       (ds_Option seg = SegmentOptionClose \<longleftrightarrow> state = StateReadyToClose)"
    if seg: "seg \<in> set out" for seg
  proof -
    obtain old where old: "old \<in> set (sw_cache (s_window w))" "expired current old"
      "seg = s_Write conv state w (old\<lparr>ds_timeout := current + Timeout roundTrip,
        ds_Timestamp := current, ds_transmit := ds_transmit old + 1\<rparr>)"
      using sw_Flush_out(1) [OF 2(5)] seg by auto
    then have "seg_view seg = seg_view old" by (simp add: view_simps) (simp add: seg_view_def)
    with old(1,2) show ?thesis
      unfolding old(3) by (auto simp: win_view_def s_Write_def SegmentOptionClose_def)
  qed
  then show ?thesis
    using s_Flush_view [OF assms] sw_Flush_out(2) [OF 2(5)] 2(4) by blast
qed

theorem s_Flush_sends_expired_witness:
  "let w = \<lparr>s_window = \<lparr>sw_cache = [NewDataSegment\<lparr>ds_payload := Some [65]\<rparr>], totalInFlightSize = 0\<rparr>,
        firstUnacknowledged = 0, s_nextNumber = 1, remoteNextNumber = 32, controlWindow = 466,
        fastResend = 2, s_windowSize = 776, firstUnacknowledgedUpdated = False, s_closed = False\<rparr>;
      rt = \<lparr>variation = 0, srtt = 0, rto = 100, minRtt = 50, updatedTimestamp = 0\<rparr>
   in \<exists>w' out. s_Flush (NewConfig zeroOptions) 7 StateActive rt 1000 w = Some (w', out, False) \<and>
     length out = 1 \<and> win_view (s_window w') = [(0, Some [65])]"
proof -
  let ?w = "\<lparr>s_window = \<lparr>sw_cache = [NewDataSegment\<lparr>ds_payload := Some [65]\<rparr>], totalInFlightSize = 0\<rparr>,
        firstUnacknowledged = 0, s_nextNumber = 1, remoteNextNumber = 32, controlWindow = 466,
        fastResend = 2, s_windowSize = 776, firstUnacknowledgedUpdated = False, s_closed = False\<rparr>"
  let ?rt = "\<lparr>variation = 0, srtt = 0, rto = 100, minRtt = 50, updatedTimestamp = 0\<rparr>"
  have "map_option (\<lambda>(w', out, ping). (length out, ping))
     (s_Flush (NewConfig zeroOptions) 7 StateActive ?rt 1000 ?w) = Some (1, False)"
    by code_simp
  then obtain w' out where f: "s_Flush (NewConfig zeroOptions) 7 StateActive ?rt 1000 ?w =
      Some (w', out, False)" "length out = 1"
    by auto
  have "win_view (s_window ?w) = [(0, Some [65])]"
    by (simp add: win_view_def seg_view_def NewDataSegment_def)
  then show ?thesis
    using f s_Flush_sends_expired [OF f(1)] by (simp add: Let_def)
qed

end
