(* ===== verification/KcpReceiving.thy ===== *)
theory KcpReceiving
  imports KcpSending
begin

section \<open>mKCP receiving side (\<open>receiving.go\<close>, \<open>multi_buffer.go\<close>)\<close>

text \<open>
  The receiving window (a Go map from numbers to segments), the list of acknowledgements to send,
  and the receiving worker. A \<open>buf.Buffer\<close> is represented by its unread contents; reading from it is
  the parameter \<open>bufRead\<close> (contents and length of the destination to the bytes read and the rest).
  As on the sending side, methods that write segments return them, the connection's values they
  read are arguments, and mutexes and releases are not modelled.
\<close>

subsection \<open>Receiving window\<close>

record ReceivingWindow =
  rw_cache :: "u32 \<rightharpoonup> DataSegment"

definition NewReceivingWindow :: ReceivingWindow where
  "NewReceivingWindow = \<lparr>rw_cache = Map.empty\<rparr>"

definition rw_Set :: "u32 \<Rightarrow> DataSegment \<Rightarrow> ReceivingWindow \<Rightarrow> bool \<times> ReceivingWindow" where
  "rw_Set i value w =
     (case rw_cache w i of
        Some _ \<Rightarrow> (False, w)
      | None \<Rightarrow> (True, w\<lparr>rw_cache := (rw_cache w)(i \<mapsto> value)\<rparr>))"

definition rw_Has :: "u32 \<Rightarrow> ReceivingWindow \<Rightarrow> bool" where
  "rw_Has i w \<longleftrightarrow> (case rw_cache w i of Some _ \<Rightarrow> True | None \<Rightarrow> False)"

definition rw_Remove :: "u32 \<Rightarrow> ReceivingWindow \<Rightarrow> DataSegment option \<times> ReceivingWindow" where
  "rw_Remove i w =
     (case rw_cache w i of
        None \<Rightarrow> (None, w)
      | Some v \<Rightarrow> (Some v, w\<lparr>rw_cache := (rw_cache w)(i := None)\<rparr>))"

subsection \<open>Acknowledgement list\<close>

record AckList =
  al_timestamps :: "u32 list"
  al_numbers :: "u32 list"
  al_nextFlush :: "u32 list"
  al_flushCandidates :: "u32 list"
  al_dirty :: bool

definition NewAckList :: AckList where
  "NewAckList = \<lparr>al_timestamps = [], al_numbers = [], al_nextFlush = [], al_flushCandidates = [],
     al_dirty = False\<rparr>"

text \<open>The capacity of \<open>flushCandidates\<close>: it is never appended to when full, so it stays the initial one.\<close>

definition flushCandidates_cap :: nat where "flushCandidates_cap = 128"

definition al_Add :: "u32 \<Rightarrow> u32 \<Rightarrow> AckList \<Rightarrow> AckList" where
  "al_Add number timestamp l = l\<lparr>al_timestamps := al_timestamps l @ [timestamp],
     al_numbers := al_numbers l @ [number], al_nextFlush := al_nextFlush l @ [0], al_dirty := True\<rparr>"

text \<open>The compaction loop of \<open>Clear\<close>, in place on the three slices.\<close>

function al_clear_loop :: "u32 \<Rightarrow> nat \<Rightarrow> nat \<Rightarrow> AckList \<Rightarrow> nat \<times> AckList" where
  "al_clear_loop una i count l =
     (if i < length (al_numbers l)
      then if al_numbers l ! i < una then al_clear_loop una (Suc i) count l
        else
          let l = (if i \<noteq> count
            then l\<lparr>al_numbers := (al_numbers l)[count := al_numbers l ! i],
                   al_timestamps := (al_timestamps l)[count := al_timestamps l ! i],
                   al_nextFlush := (al_nextFlush l)[count := al_nextFlush l ! i]\<rparr>
            else l)
          in al_clear_loop una (Suc i) (Suc count) l
      else (count, l))"
  by auto

termination al_clear_loop
  by (relation "measure (\<lambda>(una, i, count, l). length (al_numbers l) - i)") (auto simp: Let_def)

declare al_clear_loop.simps [simp del]

definition al_Clear :: "u32 \<Rightarrow> AckList \<Rightarrow> AckList" where
  "al_Clear una l =
     (case al_clear_loop una 0 0 l of (count, l) \<Rightarrow>
        if count < length (al_numbers l)
        then l\<lparr>al_numbers := take count (al_numbers l), al_timestamps := take count (al_timestamps l),
               al_nextFlush := take count (al_nextFlush l), al_dirty := True\<rparr>
        else l)"

text \<open>\<open>Flush\<close>: \<open>wr\<close> is what \<open>ReceivingWorker.Write\<close> does to a segment before it is sent. The loop
  returns the segment under construction, the list and the segments sent.\<close>

function al_flush_loop ::
  "(AckSegment \<Rightarrow> AckSegment) \<Rightarrow> u32 \<Rightarrow> u32 \<Rightarrow> nat \<Rightarrow> AckSegment \<Rightarrow> AckList \<Rightarrow> AckSegment list
     \<Rightarrow> AckSegment \<times> AckList \<times> AckSegment list" where
  "al_flush_loop wr current r i seg l out =
     (if i < length (al_numbers l)
      then if al_nextFlush l ! i > current
        then al_flush_loop wr current r (Suc i) seg
          (if length (al_flushCandidates l) < flushCandidates_cap
           then l\<lparr>al_flushCandidates := al_flushCandidates l @ [al_numbers l ! i]\<rparr> else l) out
        else
          let seg = PutNumber (al_numbers l ! i) seg;
              seg = PutTimestamp (al_timestamps l ! i) seg;
              timeout = (if r div 2 < 20 then 20 else r div 2);
              l = l\<lparr>al_nextFlush := (al_nextFlush l)[i := current + timeout]\<rparr>
          in if IsFull seg
             then al_flush_loop wr current r (Suc i) NewAckSegment (l\<lparr>al_dirty := False\<rparr>) (out @ [wr seg])
             else al_flush_loop wr current r (Suc i) seg l out
      else (seg, l, out))"
  by pat_completeness auto

termination al_flush_loop
  by (relation "measure (\<lambda>(wr, current, r, i, seg, l, out). length (al_numbers l) - i)")
    (auto simp: Let_def)

declare al_flush_loop.simps [simp del]

fun candidates_loop :: "u32 list \<Rightarrow> AckSegment \<Rightarrow> AckSegment" where
  "candidates_loop [] seg = seg"
| "candidates_loop (number # ns) seg =
     (if IsFull seg then seg else candidates_loop ns (PutNumber number seg))"

definition al_Flush ::
  "(AckSegment \<Rightarrow> AckSegment) \<Rightarrow> u32 \<Rightarrow> u32 \<Rightarrow> AckList \<Rightarrow> AckList \<times> AckSegment list" where
  "al_Flush wr current r l =
     (case al_flush_loop wr current r 0 NewAckSegment (l\<lparr>al_flushCandidates := []\<rparr>) [] of
        (seg, l, out) \<Rightarrow>
          if al_dirty l \<or> \<not> Ack_IsEmpty seg
          then (l\<lparr>al_dirty := False\<rparr>, out @ [wr (candidates_loop (al_flushCandidates l) seg)])
          else (l, out))"

subsection \<open>Multi-buffers\<close>

type_synonym MultiBuffer = "byte list list"

text \<open>\<open>SplitBytes(mb, b)\<close> with \<open>n = len(b)\<close>: the leftover buffers and the bytes copied into \<open>b\<close>.\<close>

fun SplitBytes :: "(byte list \<Rightarrow> nat \<Rightarrow> byte list \<times> byte list) \<Rightarrow> MultiBuffer \<Rightarrow> nat
    \<Rightarrow> MultiBuffer \<times> byte list" where
  "SplitBytes bufRead [] n = ([], [])"
| "SplitBytes bufRead (pBuffer # mb) n =
     (case bufRead pBuffer n of (read, pBuffer') \<Rightarrow>
        if pBuffer' \<noteq> [] then (pBuffer' # mb, read)
        else apsnd (append read) (SplitBytes bufRead mb (n - length read)))"

fun mb_IsEmpty :: "MultiBuffer \<Rightarrow> bool" where
  "mb_IsEmpty [] \<longleftrightarrow> True"
| "mb_IsEmpty (b # mb) \<longleftrightarrow> (if b \<noteq> [] then False else mb_IsEmpty mb)"

subsection \<open>Receiving worker\<close>

record ReceivingWorker =
  r_leftOver :: "MultiBuffer option"
  r_window :: ReceivingWindow
  r_acklist :: AckList
  r_nextNumber :: u32
  r_windowSize :: u32

definition NewReceivingWorker :: "Config \<Rightarrow> ReceivingWorker option" where
  "NewReceivingWorker config = do {
     size \<leftarrow> GetReceivingInFlightSize config;
     Some \<lparr>r_leftOver = None, r_window = NewReceivingWindow, r_acklist = NewAckList,
       r_nextNumber = 0, r_windowSize = size\<rparr> }"

definition r_Release :: "ReceivingWorker \<Rightarrow> ReceivingWorker" where
  "r_Release w = w\<lparr>r_leftOver := None\<rparr>"

definition ProcessSendingNext :: "u32 \<Rightarrow> ReceivingWorker \<Rightarrow> ReceivingWorker" where
  "ProcessSendingNext number w = w\<lparr>r_acklist := al_Clear number (r_acklist w)\<rparr>"

definition r_ProcessSegment :: "DataSegment \<Rightarrow> ReceivingWorker \<Rightarrow> ReceivingWorker" where
  "r_ProcessSegment seg w =
     (let number = ds_Number seg;
          idx = number - r_nextNumber w
      in if idx \<ge> r_windowSize w then w
         else
           let l = al_Clear (ds_SendingNext seg) (r_acklist w);
               l = al_Add number (ds_Timestamp seg) l
           in w\<lparr>r_acklist := l, r_window := snd (rw_Set number seg (r_window w))\<rparr>)"

text \<open>The loop of \<open>ReadMultiBuffer\<close>; a segment without payload yields a nil buffer, which the
  caller dereferences at once, so it counts as a panic.\<close>

function read_loop :: "ReceivingWorker \<Rightarrow> MultiBuffer \<Rightarrow> (ReceivingWorker \<times> MultiBuffer) option" where
  "read_loop w mb =
     (case rw_Remove (r_nextNumber w) (r_window w) of
        (None, win) \<Rightarrow> Some (w, mb)
      | (Some seg, win) \<Rightarrow>
          (case ds_payload seg of
             None \<Rightarrow> None
           | Some p \<Rightarrow> read_loop (w\<lparr>r_window := win, r_nextNumber := r_nextNumber w + 1\<rparr>) (mb @ [p])))"
  by auto

termination read_loop
proof (relation "measure (\<lambda>(w, mb). card (dom (rw_cache (r_window w))))")
  fix w :: ReceivingWorker and mb :: MultiBuffer and win x2 p x seg
  assume "(x, win) = rw_Remove (r_nextNumber w) (r_window w)" "x = Some seg"
  then have "rw_cache (r_window w) (r_nextNumber w) = Some seg"
    "rw_cache win = (rw_cache (r_window w))(r_nextNumber w := None)"
    by (auto simp: rw_Remove_def split: option.splits)
  then show "((w\<lparr>r_window := win, r_nextNumber := r_nextNumber w + 1\<rparr>, mb @ [p]), w, mb) \<in>
      measure (\<lambda>(w, mb). card (dom (rw_cache (r_window w))))"
    by (auto intro!: psubset_card_mono)
qed simp

declare read_loop.simps [simp del]

definition ReadMultiBuffer :: "ReceivingWorker \<Rightarrow> (ReceivingWorker \<times> MultiBuffer) option" where
  "ReadMultiBuffer w =
     (case r_leftOver w of
        Some mb \<Rightarrow> Some (w\<lparr>r_leftOver := None\<rparr>, mb)
      | None \<Rightarrow> read_loop w [])"

text \<open>\<open>Read(b)\<close> with \<open>n = len(b)\<close> returns the bytes copied into \<open>b\<close>.\<close>

definition r_Read ::
  "(byte list \<Rightarrow> nat \<Rightarrow> byte list \<times> byte list) \<Rightarrow> nat \<Rightarrow> ReceivingWorker
     \<Rightarrow> (ReceivingWorker \<times> byte list) option" where
  "r_Read bufRead n w = do {
     (w, mb) \<leftarrow> ReadMultiBuffer w;
     if mb_IsEmpty mb then Some (w, [])
     else case SplitBytes bufRead mb n of (mb, bytes) \<Rightarrow>
       Some (if \<not> mb_IsEmpty mb then w\<lparr>r_leftOver := Some mb\<rparr> else w, bytes) }"

definition IsDataAvailable :: "ReceivingWorker \<Rightarrow> bool" where
  "IsDataAvailable w \<longleftrightarrow> rw_Has (r_nextNumber w) (r_window w)"

definition r_Write :: "u16 \<Rightarrow> State \<Rightarrow> ReceivingWorker \<Rightarrow> AckSegment \<Rightarrow> AckSegment" where
  "r_Write conv state w ackSeg = ackSeg\<lparr>as_Conv := conv, as_ReceivingNext := r_nextNumber w,
     as_ReceivingWindow := r_nextNumber w + r_windowSize w,
     as_Option := (if state = StateReadyToClose then SegmentOptionClose else 0)\<rparr>"

definition r_Flush ::
  "u16 \<Rightarrow> State \<Rightarrow> RoundTripInfo \<Rightarrow> u32 \<Rightarrow> ReceivingWorker \<Rightarrow> ReceivingWorker \<times> AckSegment list" where
  "r_Flush conv state roundTrip current w =
     (case al_Flush (r_Write conv state w) current (Timeout roundTrip) (r_acklist w) of
        (l, out) \<Rightarrow> (w\<lparr>r_acklist := l\<rparr>, out))"

definition r_UpdateNecessary :: "ReceivingWorker \<Rightarrow> bool" where
  "r_UpdateNecessary w \<longleftrightarrow> length (al_numbers (r_acklist w)) > 0"

subsection \<open>The acknowledgement list as a list of entries\<close>

text \<open>The three slices always have the same length, so an index valid for one is valid for all.\<close>

definition al_ok :: "AckList \<Rightarrow> bool" where
  "al_ok l \<longleftrightarrow> length (al_timestamps l) = length (al_numbers l) \<and>
     length (al_nextFlush l) = length (al_numbers l)"

definition entries :: "AckList \<Rightarrow> (u32 \<times> u32 \<times> u32) list" where
  "entries l = zip (al_numbers l) (zip (al_timestamps l) (al_nextFlush l))"

lemma length_entries [simp]: "al_ok l \<Longrightarrow> length (entries l) = length (al_numbers l)"
  by (simp add: al_ok_def entries_def)

lemma entries_numbers: "al_ok l \<Longrightarrow> map fst (entries l) = al_numbers l"
  by (simp add: al_ok_def entries_def)

lemma entries_nth_number: "al_ok l \<Longrightarrow> i < length (al_numbers l) \<Longrightarrow> fst (entries l ! i) = al_numbers l ! i"
  by (simp add: al_ok_def entries_def)

definition al_move :: "nat \<Rightarrow> nat \<Rightarrow> AckList \<Rightarrow> AckList" where
  "al_move i count l = (if i \<noteq> count
     then l\<lparr>al_numbers := (al_numbers l)[count := al_numbers l ! i],
            al_timestamps := (al_timestamps l)[count := al_timestamps l ! i],
            al_nextFlush := (al_nextFlush l)[count := al_nextFlush l ! i]\<rparr> else l)"

lemma al_move_simps:
  assumes "al_ok l" "i < length (al_numbers l)" "count \<le> i"
  shows "al_ok (al_move i count l)" "length (al_numbers (al_move i count l)) = length (al_numbers l)"
    "entries (al_move i count l) = (entries l)[count := entries l ! i]"
  using assms by (auto simp: al_move_def al_ok_def entries_def zip_update [symmetric])

lemma al_clear_loop_entries:
  assumes "al_ok l" "count \<le> i" "i \<le> length (al_numbers l)" "al_clear_loop una i count l = (count', l')"
  shows "al_ok l' \<and> length (al_numbers l') = length (al_numbers l) \<and> count' \<le> length (al_numbers l) \<and>
    take count' (entries l') = take count (entries l) @ filter (\<lambda>e. \<not> fst e < una) (drop i (entries l))"
  using assms
proof (induction una i count l rule: al_clear_loop.induct)
  case (1 una i count l)
  note d = al_clear_loop.simps [of una i count l]
  show ?case
  proof (cases "i < length (al_numbers l)")
    case False
    with 1(3-6) d show ?thesis by auto
  next
    case i: True
    then have drop: "drop i (entries l) = entries l ! i # drop (Suc i) (entries l)"
      using 1(3) by (simp add: Cons_nth_drop_Suc)
    show ?thesis
    proof (cases "al_numbers l ! i < una")
      case True
      then have "al_clear_loop una (Suc i) count l = (count', l')" using 1(6) d i by simp
      from 1(1) [OF i True 1(3) _ _ this] show ?thesis
        using i True 1(3,4) drop entries_nth_number [OF 1(3) i] by simp
    next
      case False
      let ?l = "al_move i count l"
      have m: "al_ok ?l" "length (al_numbers ?l) = length (al_numbers l)"
        "entries ?l = (entries l)[count := entries l ! i]"
        using al_move_simps [OF 1(3) i 1(4)] .
      have "al_clear_loop una (Suc i) (Suc count) ?l = (count', l')"
        using 1(6) d i False by (simp add: al_move_def Let_def)
      from 1(2) [OF i False refl] this m(1,2) i 1(4)
      have "al_ok l' \<and> length (al_numbers l') = length (al_numbers ?l) \<and> count' \<le> length (al_numbers ?l) \<and>
        take count' (entries l') = take (Suc count) (entries ?l) @ filter (\<lambda>e. \<not> fst e < una) (drop (Suc i) (entries ?l))"
        unfolding al_move_def by simp
      moreover have "take (Suc count) (entries ?l) = take count (entries l) @ [entries l ! i]"
        unfolding m(3) using i 1(3,4) by (simp add: take_Suc_conv_app_nth)
      moreover have "drop (Suc i) (entries ?l) = drop (Suc i) (entries l)"
        unfolding m(3) using 1(4) by (simp add: drop_update_cancel)
      ultimately show ?thesis
        using m(2) drop False entries_nth_number [OF 1(3) i] by simp
    qed
  qed
qed

lemma al_Clear_entries:
  assumes "al_ok l"
  shows "al_ok (al_Clear una l) \<and> entries (al_Clear una l) = filter (\<lambda>e. \<not> fst e < una) (entries l)"
proof -
  obtain count l' where c: "al_clear_loop una 0 0 l = (count, l')" by fastforce
  note r = al_clear_loop_entries [OF assms le0 le0 c, simplified]
  show ?thesis
  proof (cases "count < length (al_numbers l')")
    case True
    with r show ?thesis
      by (auto simp: al_Clear_def c al_ok_def entries_def take_zip)
  next
    case False
    with r have "count = length (entries l')" by simp
    with r False show ?thesis by (simp add: al_Clear_def c)
  qed
qed

lemma al_Clear_numbers:
  assumes "al_ok l"
  shows "al_numbers (al_Clear una l) = filter (\<lambda>n. una \<le> n) (al_numbers l)"
proof -
  have "al_numbers (al_Clear una l) = map fst (filter (\<lambda>e. \<not> fst e < una) (entries l))"
    using al_Clear_entries [OF assms, of una] entries_numbers by metis
  also have "\<dots> = filter (\<lambda>n. \<not> n < una) (map fst (entries l))"
    by (simp add: filter_map comp_def)
  finally show ?thesis using entries_numbers [OF assms] by (simp add: not_less)
qed

lemma al_Add_simps [simp]:
  "al_numbers (al_Add n t l) = al_numbers l @ [n]"
  "al_ok l \<Longrightarrow> al_ok (al_Add n t l)"
  by (simp_all add: al_Add_def al_ok_def)

subsection \<open>What a flush acknowledges\<close>

text \<open>A number is due when its timer is not in the future.\<close>

definition due :: "u32 \<Rightarrow> nat \<Rightarrow> AckList \<Rightarrow> u32 set" where
  "due current i l = {al_numbers l ! j | j. i \<le> j \<and> j < length (al_numbers l) \<and> al_nextFlush l ! j \<le> current}"

definition acked :: "AckSegment list \<Rightarrow> u32 set" where
  "acked segs = (\<Union>seg \<in> set segs. set (as_NumberList seg))"

lemma acked_simps [simp]: "acked [] = {}" "acked (a @ b) = acked a \<union> acked b" "acked [s] = set (as_NumberList s)"
  by (auto simp: acked_def)

lemma PutNumber_simps [simp]:
  "as_NumberList (PutNumber n s) = as_NumberList s @ [n]"
  "as_NumberList (PutTimestamp t s) = as_NumberList s"
  "as_NumberList NewAckSegment = []"
  by (simp_all add: PutNumber_def PutTimestamp_def NewAckSegment_def)

lemma due_step:
  assumes "i < length (al_numbers l)" "length (al_nextFlush l) = length (al_numbers l)"
  shows "due current i l = (if al_nextFlush l ! i \<le> current then {al_numbers l ! i} else {}) \<union> due current (Suc i) l"
  using assms by (auto simp: due_def Suc_le_eq le_less)

lemma due_cong:
  assumes "al_numbers l' = al_numbers l" "\<And>j. i \<le> j \<Longrightarrow> al_nextFlush l' ! j = al_nextFlush l ! j"
  shows "due current i l' = due current i l"
  using assms by (auto simp: due_def)

lemma al_flush_loop_spec:
  assumes "al_flush_loop wr current r i seg l out = (seg', l', out')"
    and "al_ok l" "\<And>s. as_NumberList (wr s) = as_NumberList s"
    and "set (as_NumberList seg) \<subseteq> N" "set (al_flushCandidates l) \<subseteq> N" "set (al_numbers l) \<subseteq> N" "acked out \<subseteq> N"
    and "length (as_NumberList seg) < 128" "\<forall>s \<in> set out. length (as_NumberList s) \<le> 128"
  shows "al_numbers l' = al_numbers l \<and> al_ok l' \<and>
    set (as_NumberList seg') \<subseteq> N \<and> set (al_flushCandidates l') \<subseteq> N \<and> acked out' \<subseteq> N \<and>
    length (as_NumberList seg') < 128 \<and> (\<forall>s \<in> set out'. length (as_NumberList s) \<le> 128) \<and>
    due current i l \<union> set (as_NumberList seg) \<union> acked out \<subseteq> set (as_NumberList seg') \<union> acked out'"
  using assms
proof (induction wr current r i seg l out rule: al_flush_loop.induct)
  case (1 wr current r i seg l out)
  note d = al_flush_loop.simps [of wr current r i seg l out]
  show ?case
  proof (cases "i < length (al_numbers l)")
    case False
    with 1(4-) d show ?thesis by (auto simp: due_def)
  next
    case i: True
    then have n: "al_numbers l ! i \<in> N" using 1(9) by auto
    have due: "due current i l = (if current < al_nextFlush l ! i then {} else {al_numbers l ! i}) \<union> due current (Suc i) l"
      using due_step [OF i, of current] 1(5) by (auto simp: al_ok_def not_less dest: leD)
    show ?thesis
    proof (cases "al_nextFlush l ! i > current")
      case True
      let ?l = "if length (al_flushCandidates l) < flushCandidates_cap
         then l\<lparr>al_flushCandidates := al_flushCandidates l @ [al_numbers l ! i]\<rparr> else l"
      have "al_flush_loop wr current r (Suc i) seg ?l out = (seg', l', out')"
        using 1(4) d i True by simp
      moreover have l: "al_numbers ?l = al_numbers l" "al_ok ?l" "set (al_flushCandidates ?l) \<subseteq> N"
        "due current (Suc i) ?l = due current (Suc i) l"
        using 1(5,8) n by (auto simp: al_ok_def intro!: due_cong)
      ultimately show ?thesis
        using 1(1) [OF i True] 1(5-) due True by (simp add: al_ok_def not_le)
    next
      case False
      define s where "s = PutTimestamp (al_timestamps l ! i) (PutNumber (al_numbers l ! i) seg)"
      define k where "k = l\<lparr>al_nextFlush := (al_nextFlush l)[i := current + (if r div 2 < 20 then 20 else r div 2)]\<rparr>"
      have s: "as_NumberList s = as_NumberList seg @ [al_numbers l ! i]" by (simp add: s_def)
      have k: "al_numbers k = al_numbers l" "al_ok k" "al_flushCandidates k = al_flushCandidates l"
        "due current (Suc i) k = due current (Suc i) l"
        using 1(5) by (auto simp: k_def al_ok_def intro!: due_cong)
      show ?thesis
      proof (cases "IsFull s")
        case True
        have "al_flush_loop wr current r (Suc i) NewAckSegment (k\<lparr>al_dirty := False\<rparr>) (out @ [wr s]) = (seg', l', out')"
          using 1(4) d i False True by (simp add: Let_def s_def k_def)
        moreover have "due current (Suc i) (k\<lparr>al_dirty := False\<rparr>) = due current (Suc i) l"
          using k(4) by (simp add: due_def)
        ultimately show ?thesis
          using 1(2) [OF i False refl refl refl refl True [unfolded s_def]] 1(5-) s k n due False True
          by (simp add: al_ok_def s_def k_def IsFull_def ackNumberLimit_def)
      next
        case nf: False
        have "al_flush_loop wr current r (Suc i) s k out = (seg', l', out')"
          using 1(4) d i False nf by (simp add: Let_def s_def k_def)
        then show ?thesis
          using 1(3) [OF i False refl refl refl refl nf [unfolded s_def]] 1(5-) s k n due False nf
          by (simp add: al_ok_def s_def [symmetric] k_def [symmetric] IsFull_def ackNumberLimit_def)
      qed
    qed
  qed
qed

lemma al_flush_loop_wr:
  assumes "al_flush_loop wr current r i seg l out = (seg', l', out')" "\<forall>s \<in> set out. \<exists>s0. s = wr s0"
  shows "\<forall>s \<in> set out'. \<exists>s0. s = wr s0"
  using assms
proof (induction wr current r i seg l out rule: al_flush_loop.induct)
  case (1 wr current r i seg l out)
  note d = al_flush_loop.simps [of wr current r i seg l out]
  let ?s = "PutTimestamp (al_timestamps l ! i) (PutNumber (al_numbers l ! i) seg)"
  consider "\<not> i < length (al_numbers l)" | "i < length (al_numbers l)" "al_nextFlush l ! i > current"
    | "i < length (al_numbers l)" "\<not> al_nextFlush l ! i > current" "IsFull ?s"
    | "i < length (al_numbers l)" "\<not> al_nextFlush l ! i > current" "\<not> IsFull ?s" by blast
  then show ?case
  proof cases
    case 1
    then show ?thesis using "1.prems" d by simp
  next
    case 2
    from "1.IH"(1) [OF 2] show ?thesis using "1.prems" d 2 by simp
  next
    case 3
    from "1.IH"(2) [OF 3(1,2) refl refl refl refl 3(3)] show ?thesis
      using "1.prems" d 3 by (auto simp: Let_def)
  next
    case 4
    from "1.IH"(3) [OF 4(1,2) refl refl refl refl 4(3)] show ?thesis
      using "1.prems" d 4 by (simp add: Let_def)
  qed
qed

lemma candidates_loop_spec:
  assumes "length (as_NumberList seg) \<le> 128"
  shows "length (as_NumberList (candidates_loop ns seg)) \<le> 128 \<and>
    set (as_NumberList seg) \<subseteq> set (as_NumberList (candidates_loop ns seg)) \<and>
    set (as_NumberList (candidates_loop ns seg)) \<subseteq> set (as_NumberList seg) \<union> set ns"
  using assms
proof (induction ns arbitrary: seg)
  case (Cons n ns)
  show ?case
  proof (cases "IsFull seg")
    case False
    then have "length (as_NumberList (PutNumber n seg)) \<le> 128"
      using Cons.prems by (simp add: IsFull_def ackNumberLimit_def)
    from Cons.IH [OF this] False show ?thesis by auto
  qed (use Cons.prems in auto)
qed simp

lemma al_Flush_spec:
  assumes "al_Flush wr current r l = (l', out)" "al_ok l" "\<And>s. as_NumberList (wr s) = as_NumberList s"
  shows "al_numbers l' = al_numbers l" "al_ok l'" "acked out \<subseteq> set (al_numbers l)"
    "\<forall>s \<in> set out. length (as_NumberList s) \<le> 128 \<and> (\<exists>s0. s = wr s0)" "due current 0 l \<subseteq> acked out"
proof -
  let ?l = "l\<lparr>al_flushCandidates := []\<rparr>"
  obtain seg1 l1 out1 where f: "al_flush_loop wr current r 0 NewAckSegment ?l [] = (seg1, l1, out1)"
    by (metis prod_cases3)
  have ok: "al_ok ?l" using assms(2) by (simp add: al_ok_def)
  have due: "due current 0 ?l = due current 0 l" by (simp add: due_def)
  have s: "al_numbers l1 = al_numbers l" "al_ok l1" "set (as_NumberList seg1) \<subseteq> set (al_numbers l)"
    "set (al_flushCandidates l1) \<subseteq> set (al_numbers l)" "acked out1 \<subseteq> set (al_numbers l)"
    "length (as_NumberList seg1) < 128" "\<forall>s \<in> set out1. length (as_NumberList s) \<le> 128"
    "due current 0 l \<subseteq> set (as_NumberList seg1) \<union> acked out1"
    using al_flush_loop_spec [OF f ok assms(3), of "set (al_numbers l)"] unfolding due by auto
  have w: "\<forall>s \<in> set out1. \<exists>s0. s = wr s0" using al_flush_loop_wr [OF f] by simp
  note c = candidates_loop_spec [OF less_imp_le [OF s(6)], of "al_flushCandidates l1"]
  note def = assms(1) [unfolded al_Flush_def f split_conv]
  show "al_numbers l' = al_numbers l" using def s(1) by (auto split: if_splits)
  show "al_ok l'" using def s(2) by (auto simp: al_ok_def split: if_splits)
  let ?last = "wr (candidates_loop (al_flushCandidates l1) seg1)"
  have out: "out = out1 @ [?last] \<or> out = out1 \<and> as_NumberList seg1 = []"
    using def by (auto simp: Ack_IsEmpty_def split: if_splits)
  have last: "length (as_NumberList ?last) \<le> 128" "set (as_NumberList seg1) \<subseteq> set (as_NumberList ?last)"
    "set (as_NumberList ?last) \<subseteq> set (al_numbers l)"
    using c s(3,4) unfolding assms(3) by blast+
  show "acked out \<subseteq> set (al_numbers l)" using out s(5) last(3) by auto
  show "\<forall>s \<in> set out. length (as_NumberList s) \<le> 128 \<and> (\<exists>s0. s = wr s0)"
    using out s(7) last(1) w by auto
  show "due current 0 l \<subseteq> acked out"
    using out s(8) last(2) by (elim disjE conjE; simp; blast)
qed

subsection \<open>Reading\<close>

lemma SplitBytes_spec:
  assumes "\<And>c n. bufRead c n = (take n c, drop n c)" "SplitBytes bufRead mb n = (mb', out)"
  shows "out @ concat mb' = concat mb \<and> length out = min n (length (concat mb))"
  using assms(2)
proof (induction mb arbitrary: n out)
  case (Cons c mb)
  have e: "bufRead c n = (take n c, drop n c)" by (rule assms(1))
  show ?case
  proof (cases "drop n c = []")
    case True
    then have e': "bufRead c n = (c, [])" using e by simp
    obtain mb2 out2 where r: "SplitBytes bufRead mb (n - length c) = (mb2, out2)" by fastforce
    have "mb' = mb2" "out = c @ out2" using Cons.prems r by (simp_all add: e')
    with Cons.IH [of "n - length c" out2] r True show ?thesis by simp
  next
    case False
    have "mb' = drop n c # mb" "out = take n c" using Cons.prems False by (simp_all add: e)
    with False show ?thesis by simp
  qed
qed simp

lemma mb_IsEmpty_concat: "mb_IsEmpty mb \<longleftrightarrow> concat mb = []"
  by (induction mb) auto

text \<open>Every stored segment carries the buffer of the number under which it is stored.\<close>

definition cache_ok :: "byte list list \<Rightarrow> ReceivingWindow \<Rightarrow> bool" where
  "cache_ok pushed win \<longleftrightarrow>
     (\<forall>k seg. rw_cache win k = Some seg \<longrightarrow> ds_Number seg = k \<and> carries pushed (seg_view seg))"

text \<open>A number has been received when it has been handed on in order or is in the window.\<close>

definition received :: "nat \<Rightarrow> ReceivingWindow \<Rightarrow> u32 \<Rightarrow> bool" where
  "received d win n \<longleftrightarrow> unat n < d \<or> n \<in> dom (rw_cache win)"

lemma read_loop_spec:
  assumes "cache_ok pushed (r_window w)" "length pushed < 2 ^ 32" "d \<le> length pushed"
    and "r_nextNumber w = word_of_nat d"
  shows "\<exists>k w'. read_loop w mb = Some (w', mb @ take k (drop d pushed)) \<and> d + k \<le> length pushed \<and>
    r_nextNumber w' = word_of_nat (d + k) \<and> cache_ok pushed (r_window w') \<and>
    (\<forall>n. received d (r_window w) n \<longrightarrow> received (d + k) (r_window w') n) \<and>
    rw_cache (r_window w') (r_nextNumber w') = None \<and>
    r_acklist w' = r_acklist w \<and> r_windowSize w' = r_windowSize w \<and> r_leftOver w' = r_leftOver w"
  using assms
proof (induction w mb arbitrary: d rule: read_loop.induct)
  case (1 w mb)
  show ?case
  proof (cases "rw_cache (r_window w) (r_nextNumber w)")
    case None
    with 1(2-) show ?thesis
      by (subst read_loop.simps) (intro exI [of _ 0] exI [of _ w], simp add: rw_Remove_def)
  next
    case (Some seg)
    let ?win = "(r_window w)\<lparr>rw_cache := (rw_cache (r_window w))(r_nextNumber w := None)\<rparr>"
    let ?w = "w\<lparr>r_window := ?win, r_nextNumber := r_nextNumber w + 1\<rparr>"
    have rm: "rw_Remove (r_nextNumber w) (r_window w) = (Some seg, ?win)"
      using Some by (simp add: rw_Remove_def)
    have num: "unat (r_nextNumber w) = d" using 1(3,4,5) by (simp add: unat_word_of_nat32)
    have seg: "d < length pushed" "ds_payload seg = Some (pushed ! d)"
      using 1(2) [unfolded cache_ok_def, rule_format, OF Some] num
      by (auto simp: carries_def seg_view_def)
    have c: "cache_ok pushed (r_window ?w)" using 1(2) by (auto simp: cache_ok_def)
    have n: "r_nextNumber ?w = word_of_nat (Suc d)" using 1(5) by simp
    obtain k w' where k: "read_loop ?w (mb @ [pushed ! d]) =
        Some (w', (mb @ [pushed ! d]) @ take k (drop (Suc d) pushed))"
      "Suc d + k \<le> length pushed" "r_nextNumber w' = word_of_nat (Suc d + k)" "cache_ok pushed (r_window w')"
      "\<forall>n. received (Suc d) (r_window ?w) n \<longrightarrow> received (Suc d + k) (r_window w') n"
      "rw_cache (r_window w') (r_nextNumber w') = None" "r_acklist w' = r_acklist ?w"
      "r_windowSize w' = r_windowSize ?w" "r_leftOver w' = r_leftOver ?w"
      using 1(1) [OF rm [symmetric] refl seg(2) c 1(3) Suc_leI [OF seg(1)] n] by blast
    have "received (d + Suc k) (r_window w') n" if "received d (r_window w) n" for n
    proof -
      have "received (Suc d) (r_window ?w) n"
        using that num by (auto simp: received_def less_Suc_eq)
      with k(5) show ?thesis by simp
    qed
    moreover have "take (Suc k) (drop d pushed) = pushed ! d # take k (drop (Suc d) pushed)"
      using Cons_nth_drop_Suc [OF seg(1)] by (metis take_Suc_Cons)
    moreover have "read_loop w mb = read_loop ?w (mb @ [pushed ! d])"
      by (subst read_loop.simps) (simp add: rm seg(2))
    ultimately show ?thesis
      using k by (intro exI [of _ "Suc k"] exI [of _ w']) simp
  qed
qed

subsection \<open>The worker's invariant\<close>

definition leftover_bytes :: "ReceivingWorker \<Rightarrow> byte list" where
  "leftover_bytes w = (case r_leftOver w of None \<Rightarrow> [] | Some mb \<Rightarrow> concat mb)"

text \<open>
  \<open>receiver_inv pushed d read w\<close>, where \<open>pushed\<close> are the buffers the peer has accepted for sending,
  \<open>d\<close> counts those taken out of the window in order, and \<open>read\<close> is what \<open>Read\<close> has returned so far:
  these \<open>d\<close> buffers are what has been read followed by the leftover, and every number on the
  acknowledgement list has really been received.
\<close>

definition receiver_inv :: "byte list list \<Rightarrow> nat \<Rightarrow> byte list \<Rightarrow> ReceivingWorker \<Rightarrow> bool" where
  "receiver_inv pushed d read w \<longleftrightarrow>
     length pushed < 2 ^ 32 \<and> d \<le> length pushed \<and> r_nextNumber w = word_of_nat d \<and>
     cache_ok pushed (r_window w) \<and> al_ok (r_acklist w) \<and>
     (\<forall>n \<in> set (al_numbers (r_acklist w)). received d (r_window w) n) \<and>
     concat (take d pushed) = read @ leftover_bytes w"

lemma NewReceivingWorker_inv: "NewReceivingWorker config = Some w \<Longrightarrow> receiver_inv [] 0 [] w"
  by (auto simp: NewReceivingWorker_def receiver_inv_def NewReceivingWindow_def NewAckList_def
      cache_ok_def al_ok_def leftover_bytes_def bind_eq_Some_conv)

lemma cache_ok_append: "cache_ok pushed win \<Longrightarrow> cache_ok (pushed @ bs) win"
  by (auto simp: cache_ok_def intro: carries_append)

lemma receiver_inv_append:
  "receiver_inv pushed d read w \<Longrightarrow> length (pushed @ bs) < 2 ^ 32 \<Longrightarrow> receiver_inv (pushed @ bs) d read w"
  by (simp add: receiver_inv_def cache_ok_append)

text \<open>An incoming segment inside the window is stored (or was already) and its number is received.\<close>

lemma rw_Set_spec:
  "rw_cache (snd (rw_Set k seg win)) = (if k \<in> dom (rw_cache win) then rw_cache win else (rw_cache win)(k \<mapsto> seg))"
  by (auto simp: rw_Set_def split: option.splits)

lemma cache_ok_Set:
  assumes "cache_ok pushed win" "carries pushed (seg_view seg)"
  shows "cache_ok pushed (snd (rw_Set (ds_Number seg) seg win))"
  using assms by (auto simp: cache_ok_def rw_Set_spec)

lemma received_Set:
  "received d (snd (rw_Set k seg win)) n \<longleftrightarrow> received d win n \<or> n = k"
  by (auto simp: received_def rw_Set_spec)

lemma r_ProcessSegment_inv:
  assumes "receiver_inv pushed d read w" "carries pushed (seg_view seg)"
  shows "receiver_inv pushed d read (r_ProcessSegment seg w) \<and>
    (\<forall>n. received d (r_window w) n \<longrightarrow> received d (r_window (r_ProcessSegment seg w)) n) \<and>
    (ds_Number seg - r_nextNumber w < r_windowSize w \<longrightarrow>
       received d (r_window (r_ProcessSegment seg w)) (ds_Number seg) \<and>
       ds_Number seg \<in> set (al_numbers (r_acklist (r_ProcessSegment seg w))))"
proof (cases "ds_Number seg - r_nextNumber w \<ge> r_windowSize w")
  case True
  with assms show ?thesis by (auto simp: r_ProcessSegment_def dest: leD)
next
  case False
  let ?l = "al_Add (ds_Number seg) (ds_Timestamp seg) (al_Clear (ds_SendingNext seg) (r_acklist w))"
  have ok: "al_ok (r_acklist w)" using assms(1) by (simp add: receiver_inv_def)
  have "al_ok ?l" using al_Clear_entries [OF ok] by simp
  moreover have "set (al_numbers ?l) \<subseteq> insert (ds_Number seg) (set (al_numbers (r_acklist w)))"
    "ds_Number seg \<in> set (al_numbers ?l)"
    using al_Clear_numbers [OF ok] by auto
  moreover have "r_ProcessSegment seg w = w\<lparr>r_acklist := ?l, r_window := snd (rw_Set (ds_Number seg) seg (r_window w))\<rparr>"
    using False by (simp add: r_ProcessSegment_def Let_def)
  ultimately show ?thesis
    using assms cache_ok_Set [of pushed "r_window w" seg]
    by (auto simp: receiver_inv_def received_Set leftover_bytes_def)
qed

lemma ProcessSendingNext_inv:
  assumes "receiver_inv pushed d read w"
  shows "receiver_inv pushed d read (ProcessSendingNext una w) \<and>
    r_window (ProcessSendingNext una w) = r_window w"
proof -
  have ok: "al_ok (r_acklist w)" using assms(1) by (simp add: receiver_inv_def)
  show ?thesis
    using assms al_Clear_entries [OF ok, of una] al_Clear_numbers [OF ok, of una]
    by (auto simp: receiver_inv_def ProcessSendingNext_def leftover_bytes_def)
qed

lemma r_Flush_inv:
  assumes "receiver_inv pushed d read w" "r_Flush conv state rt current w = (w', out)"
  shows "receiver_inv pushed d read w'" "r_window w' = r_window w"
    and "\<forall>s \<in> set out. as_ReceivingNext s = word_of_nat d \<and> as_Conv s = conv \<and>
      length (as_NumberList s) \<le> 128 \<and> (\<forall>n \<in> set (as_NumberList s). received d (r_window w) n)"
    and "due current 0 (r_acklist w) \<subseteq> acked out"
proof -
  obtain l where l: "al_Flush (r_Write conv state w) current (Timeout rt) (r_acklist w) = (l, out)"
    "w' = w\<lparr>r_acklist := l\<rparr>"
    using assms(2) by (auto simp: r_Flush_def split: prod.splits)
  have ok: "al_ok (r_acklist w)" using assms(1) by (simp add: receiver_inv_def)
  have "as_NumberList (r_Write conv state w s) = as_NumberList s" for s by (simp add: r_Write_def)
  note f = al_Flush_spec [OF l(1) ok this]
  show "receiver_inv pushed d read w'" "r_window w' = r_window w"
    using assms(1) f(1,2) by (simp_all add: l(2) receiver_inv_def leftover_bytes_def)
  show "due current 0 (r_acklist w) \<subseteq> acked out" by (rule f(5))
  have "\<forall>n \<in> acked out. received d (r_window w) n"
    using f(3) assms(1) by (auto simp: receiver_inv_def)
  then show "\<forall>s \<in> set out. as_ReceivingNext s = word_of_nat d \<and> as_Conv s = conv \<and>
      length (as_NumberList s) \<le> 128 \<and> (\<forall>n \<in> set (as_NumberList s). received d (r_window w) n)"
    using f(4) assms(1) by (auto simp: acked_def r_Write_def receiver_inv_def)
qed

text \<open>Reading moves bytes from the window and the leftover to the reader, in order.\<close>

lemma ReadMultiBuffer_inv:
  assumes "receiver_inv pushed d read w"
  obtains k w' mb where "ReadMultiBuffer w = Some (w', mb)" "d + k \<le> length pushed"
    "receiver_inv pushed (d + k) (read @ concat mb) w'" "r_leftOver w' = None"
    "\<forall>n. received d (r_window w) n \<longrightarrow> received (d + k) (r_window w') n"
    "r_windowSize w' = r_windowSize w"
proof (cases "r_leftOver w")
  case None
  have "cache_ok pushed (r_window w)" "length pushed < 2 ^ 32" "d \<le> length pushed" "r_nextNumber w = word_of_nat d"
    using assms by (simp_all add: receiver_inv_def)
  from read_loop_spec [OF this, of "[]"] obtain k w' where k:
    "read_loop w [] = Some (w', take k (drop d pushed))" "d + k \<le> length pushed"
    "r_nextNumber w' = word_of_nat (d + k)" "cache_ok pushed (r_window w')"
    "\<forall>n. received d (r_window w) n \<longrightarrow> received (d + k) (r_window w') n"
    "r_acklist w' = r_acklist w" "r_windowSize w' = r_windowSize w" "r_leftOver w' = r_leftOver w"
    by auto
  have "concat (take (d + k) pushed) = concat (take d pushed) @ concat (take k (drop d pushed))"
    by (simp add: take_add)
  with k None assms have "receiver_inv pushed (d + k) (read @ concat (take k (drop d pushed))) w'"
    by (auto simp: receiver_inv_def leftover_bytes_def)
  with k None show ?thesis
    by (intro that [of w' _ k]) (simp_all add: ReadMultiBuffer_def)
next
  case (Some mb)
  with assms show ?thesis
    by (intro that [of "w\<lparr>r_leftOver := None\<rparr>" mb 0])
      (auto simp: ReadMultiBuffer_def receiver_inv_def leftover_bytes_def)
qed

lemma r_Read_inv:
  assumes "receiver_inv pushed d read w" "\<And>c n. bufRead c n = (take n c, drop n c)"
  obtains k w' bytes where "r_Read bufRead n w = Some (w', bytes)" "receiver_inv pushed (d + k) (read @ bytes) w'"
    "\<forall>n. received d (r_window w) n \<longrightarrow> received (d + k) (r_window w') n"
    "length bytes = min n (length bytes + length (leftover_bytes w'))"
proof -
  obtain k w' mb where m: "ReadMultiBuffer w = Some (w', mb)"
    "receiver_inv pushed (d + k) (read @ concat mb) w'" "r_leftOver w' = None"
    "\<forall>n. received d (r_window w) n \<longrightarrow> received (d + k) (r_window w') n"
    using ReadMultiBuffer_inv [OF assms(1)] by metis
  show ?thesis
  proof (cases "mb_IsEmpty mb")
    case True
    then have "concat mb = []" by (simp only: mb_IsEmpty_concat)
    note m' = m(1) m(2) [unfolded this] m(3,4)
    from m' True that [of w' "[]" k] show ?thesis
      by (simp add: r_Read_def leftover_bytes_def)
  next
    case False
    obtain mb' bytes where s: "SplitBytes bufRead mb n = (mb', bytes)" by fastforce
    note sp = SplitBytes_spec [OF assms(2) s]
    let ?w = "if \<not> mb_IsEmpty mb' then w'\<lparr>r_leftOver := Some mb'\<rparr> else w'"
    have lb: "leftover_bytes ?w = concat mb'"
      using m(3) by (simp add: leftover_bytes_def mb_IsEmpty_concat)
    have "read @ concat mb = (read @ bytes) @ concat mb'" using sp by simp
    then have "receiver_inv pushed (d + k) (read @ bytes) ?w"
      using m(2,3) lb by (auto simp: receiver_inv_def leftover_bytes_def)
    moreover have "r_Read bufRead n w = Some (?w, bytes)"
      using m(1) False s by (simp add: r_Read_def)
    moreover have "r_window ?w = r_window w'" by simp
    moreover have "length bytes = min n (length bytes + length (leftover_bytes ?w))"
      using sp lb by (metis length_append)
    ultimately show ?thesis using m(4) that by metis
  qed
qed

subsection \<open>Properties of the receiving side\<close>

text \<open>\<open>AckList.Clear\<close> compacts its three slices in place; the result is the list of entries
  (number, timestamp, next flush) whose number is not below \<open>una\<close>, in the old order, and the three
  slices keep equal lengths.\<close>

theorem AckList_Clear_filters:
  assumes "al_ok l"
  shows "al_ok (al_Clear una l) \<and> entries (al_Clear una l) = filter (\<lambda>e. una \<le> fst e) (entries l)"
  using al_Clear_entries [OF assms, of una] by (simp add: not_less)

theorem AckList_Clear_filters_witness:
  "let l = al_Add 3 30 (al_Add 9 20 (al_Add 1 10 NewAckList)) in
   al_ok l \<and> entries (al_Clear 3 l) = [(9, 20, 0), (3, 30, 0)]"
proof -
  let ?l = "al_Add 3 30 (al_Add 9 20 (al_Add 1 10 NewAckList))"
  have ok: "al_ok ?l" by (simp add: al_ok_def al_Add_def NewAckList_def)
  have "entries ?l = [(1, 10, 0), (9, 20, 0), (3, 30, 0)]"
    by (simp add: entries_def al_Add_def NewAckList_def)
  then show ?thesis using ok AckList_Clear_filters [OF ok, of 3] by (simp add: Let_def word_le_nat_alt)
qed



end
