(* ===== verification/KcpStream.thy ===== *)
theory KcpStream
  imports KcpReceiving
begin

section \<open>One direction of an mKCP connection over a lossy network\<close>

text \<open>
  The sending worker of one end and the receiving worker of the other, connected by a network that
  loses, duplicates, delays and reorders segments at will: every segment ever written stays
  available for delivery, any number of times or never. Each step calls one method of the workers
  with arbitrary clock, round-trip, configuration and connection-state values. \<open>pushed\<close> records the
  buffers the application's writes have put into the window and \<open>read\<close> the bytes its peer has read.
  A delivered data segment arrives as the parser builds it, without the sender's timers.
\<close>

record channel =
  ch_snd :: SendingWorker
  ch_rcv :: ReceivingWorker
  ch_pushed :: "byte list list"
  ch_read :: "byte list"
  ch_data :: "DataSegment set"
  ch_acks :: "AckSegment set"
  ch_next :: "u32 set"

definition on_wire :: "DataSegment \<Rightarrow> DataSegment" where
  "on_wire seg = seg\<lparr>ds_timeout := 0, ds_transmit := 0\<rparr>"

inductive channel_step ::
  "(byte list \<Rightarrow> nat \<Rightarrow> byte list \<times> byte list) \<Rightarrow> channel \<Rightarrow> channel \<Rightarrow> bool" for bufRead where
  push: "\<lbrakk>s_Push b (ch_snd c) = (True, w); Suc (length (ch_pushed c)) < 2 ^ 32\<rbrakk> \<Longrightarrow>
    channel_step bufRead c (c\<lparr>ch_snd := w, ch_pushed := ch_pushed c @ [b]\<rparr>)"
| send: "s_Flush config conv state rt current (ch_snd c) = Some (w, out, ping) \<Longrightarrow>
    channel_step bufRead c (c\<lparr>ch_snd := w, ch_data := ch_data c \<union> set out\<rparr>)"
| deliver: "seg \<in> ch_data c \<Longrightarrow>
    channel_step bufRead c (c\<lparr>ch_rcv := r_ProcessSegment (on_wire seg) (ch_rcv c)\<rparr>)"
| acknowledge: "r_Flush conv state rt current (ch_rcv c) = (w, out) \<Longrightarrow>
    channel_step bufRead c (c\<lparr>ch_rcv := w, ch_acks := ch_acks c \<union> set out\<rparr>)"
| deliver_ack: "\<lbrakk>seg \<in> ch_acks c; s_ProcessSegment current seg r (ch_snd c) rt = (w, rt')\<rbrakk> \<Longrightarrow>
    channel_step bufRead c (c\<lparr>ch_snd := w\<rparr>)"
| ping: "channel_step bufRead c (c\<lparr>ch_next := insert (r_nextNumber (ch_rcv c)) (ch_next c)\<rparr>)"
| deliver_ping: "n \<in> ch_next c \<Longrightarrow>
    channel_step bufRead c (c\<lparr>ch_snd := ProcessReceivingNext n (ch_snd c)\<rparr>)"
| sending_next: "channel_step bufRead c (c\<lparr>ch_rcv := ProcessSendingNext una (ch_rcv c)\<rparr>)"
| read: "r_Read bufRead n (ch_rcv c) = Some (w, bytes) \<Longrightarrow>
    channel_step bufRead c (c\<lparr>ch_rcv := w, ch_read := ch_read c @ bytes\<rparr>)"

inductive_cases channel_stepE: "channel_step bufRead c c'"

definition channel_init :: "SendingWorker \<Rightarrow> ReceivingWorker \<Rightarrow> channel" where
  "channel_init s r = \<lparr>ch_snd = s, ch_rcv = r, ch_pushed = [], ch_read = [], ch_data = {},
     ch_acks = {}, ch_next = {}\<rparr>"

inductive reachable ::
  "(byte list \<Rightarrow> nat \<Rightarrow> byte list \<times> byte list) \<Rightarrow> channel \<Rightarrow> bool" for bufRead where
  start: "\<lbrakk>NewSendingWorker config = Some s; NewReceivingWorker config' = Some r\<rbrakk> \<Longrightarrow>
    reachable bufRead (channel_init s r)"
| step: "\<lbrakk>reachable bufRead c; channel_step bufRead c c'\<rbrakk> \<Longrightarrow> reachable bufRead c'"

subsection \<open>The invariant\<close>

definition retained :: "channel \<Rightarrow> nat \<Rightarrow> bool" where
  "retained c d \<longleftrightarrow> (\<forall>k < length (ch_pushed c).
     (word_of_nat k, Some (ch_pushed c ! k)) \<in> set (win_view (s_window (ch_snd c))) \<or>
     received d (r_window (ch_rcv c)) (word_of_nat k))"

definition ack_ok :: "nat \<Rightarrow> ReceivingWindow \<Rightarrow> AckSegment \<Rightarrow> bool" where
  "ack_ok d win a \<longleftrightarrow> unat (as_ReceivingNext a) \<le> d \<and> (\<forall>n \<in> set (as_NumberList a). received d win n)"

definition channel_inv :: "channel \<Rightarrow> nat \<Rightarrow> bool" where
  "channel_inv c d \<longleftrightarrow>
     sender_inv (ch_pushed c) (ch_snd c) \<and> receiver_inv (ch_pushed c) d (ch_read c) (ch_rcv c) \<and>
     (\<forall>seg \<in> ch_data c. carries (ch_pushed c) (seg_view seg)) \<and>
     (\<forall>a \<in> ch_acks c. ack_ok d (r_window (ch_rcv c)) a) \<and>
     (\<forall>n \<in> ch_next c. unat n \<le> d) \<and> retained c d"

lemma received_mono: "received d win n \<Longrightarrow> d \<le> d' \<Longrightarrow> received d' win n"
  by (auto simp: received_def)

lemma ack_ok_mono:
  assumes "ack_ok d win a" "d \<le> d'" "\<forall>n. received d win n \<longrightarrow> received d' win' n"
  shows "ack_ok d' win' a"
  using assms by (auto simp: ack_ok_def)

text \<open>A step of the receiver that only adds to what is received keeps everything about the sender.\<close>

lemma channel_inv_receiver:
  assumes "channel_inv c d" "d \<le> d'" "receiver_inv (ch_pushed c) d' read w"
    and "\<forall>n. received d (r_window (ch_rcv c)) n \<longrightarrow> received d' (r_window w) n"
    and "\<forall>a \<in> A. ack_ok d' (r_window w) a"
  shows "channel_inv (c\<lparr>ch_rcv := w, ch_read := read, ch_acks := ch_acks c \<union> A\<rparr>) d'"
  using assms by (auto simp: channel_inv_def retained_def intro: ack_ok_mono order_trans)

text \<open>A step of the sender that drops only what has been received.\<close>

lemma channel_inv_sender:
  assumes "channel_inv c d" "sender_inv (ch_pushed c) w" "\<forall>seg \<in> D. carries (ch_pushed c) (seg_view seg)"
    and "\<forall>v \<in> set (win_view (s_window (ch_snd c))).
      v \<in> set (win_view (s_window w)) \<or> received d (r_window (ch_rcv c)) (fst v)"
  shows "channel_inv (c\<lparr>ch_snd := w, ch_data := ch_data c \<union> D\<rparr>) d"
  using assms by (fastforce simp: channel_inv_def retained_def)

lemma channel_inv_push:
  assumes "channel_inv c d" "s_Push b (ch_snd c) = (True, w)" "Suc (length (ch_pushed c)) < 2 ^ 32"
  shows "channel_inv (c\<lparr>ch_snd := w, ch_pushed := ch_pushed c @ [b]\<rparr>) d"
proof -
  let ?p = "ch_pushed c"
  have s: "sender_inv ?p (ch_snd c)" and n: "s_nextNumber (ch_snd c) = word_of_nat (length ?p)"
    using assms(1) by (auto simp: channel_inv_def sender_inv_def)
  have "w = (ch_snd c)\<lparr>s_window := sw_Push (s_nextNumber (ch_snd c)) b (s_window (ch_snd c)),
      s_nextNumber := s_nextNumber (ch_snd c) + 1\<rparr>"
    using assms(2) by (cases b "ch_snd c" rule: s_Push_cases) auto
  then have view: "win_view (s_window w) = win_view (s_window (ch_snd c)) @ [(word_of_nat (length ?p), Some b)]"
    by (simp add: n sw_Push_def win_view_def seg_view_def NewDataSegment_def)
  have "retained (c\<lparr>ch_snd := w, ch_pushed := ?p @ [b]\<rparr>) d"
    using assms(1) view by (auto simp: channel_inv_def retained_def nth_append less_Suc_eq)
  then show ?thesis
    using assms s_Push_inv [OF s assms(3,2)] receiver_inv_append [of ?p d _ _ "[b]"]
    by (auto simp: channel_inv_def intro: carries_append)
qed

lemma received_below: "unat n \<le> d \<Longrightarrow> m < n \<Longrightarrow> received d win m"
  by (simp add: received_def word_less_nat_alt)

lemma channel_inv_step:
  assumes "\<And>c n. bufRead c n = (take n c, drop n c)" "channel_step bufRead c c'" "channel_inv c d"
  shows "\<exists>d'. channel_inv c' d'"
  using assms(2)
proof cases
  case (push b w)
  then show ?thesis using channel_inv_push [OF assms(3)] by blast
next
  case (send config conv state rt current w out ping)
  have s: "sender_inv (ch_pushed c) (ch_snd c)" using assms(3) by (simp add: channel_inv_def)
  have "channel_inv (c\<lparr>ch_snd := w, ch_data := ch_data c \<union> set out\<rparr>) d"
    using channel_inv_sender [OF assms(3) s_Flush_inv [OF s send(2)], of "set out"]
      s_Flush_out_carries [OF s send(2)] s_Flush_view [OF send(2)] by auto
  then show ?thesis using send(1) by blast
next
  case (deliver seg)
  have "carries (ch_pushed c) (seg_view (on_wire seg))"
    using assms(3) deliver(2) by (auto simp: channel_inv_def on_wire_def seg_view_def)
  then have "channel_inv (c\<lparr>ch_rcv := r_ProcessSegment (on_wire seg) (ch_rcv c), ch_read := ch_read c,
      ch_acks := ch_acks c \<union> {}\<rparr>) d"
    using r_ProcessSegment_inv assms(3) by (intro channel_inv_receiver [OF assms(3)]) (auto simp: channel_inv_def)
  then show ?thesis using deliver(1) by auto
next
  case (acknowledge conv state rt current w out)
  have r: "receiver_inv (ch_pushed c) d (ch_read c) (ch_rcv c)" using assms(3) by (simp add: channel_inv_def)
  note f = r_Flush_inv [OF r acknowledge(2)]
  have "unat (word_of_nat d :: u32) = d" using r by (simp add: receiver_inv_def unat_word_of_nat32)
  with f(2,3) have "\<forall>a \<in> set out. ack_ok d (r_window w) a" by (simp add: ack_ok_def)
  then have "channel_inv (c\<lparr>ch_rcv := w, ch_read := ch_read c, ch_acks := ch_acks c \<union> set out\<rparr>) d"
    using f(1,2) by (intro channel_inv_receiver [OF assms(3)]) auto
  then show ?thesis using acknowledge(1) by auto
next
  case (deliver_ack seg current r rt w rt')
  have s: "sender_inv (ch_pushed c) (ch_snd c)" and a: "ack_ok d (r_window (ch_rcv c)) seg"
    using assms(3) deliver_ack(2) by (auto simp: channel_inv_def)
  have "\<forall>v \<in> set (win_view (s_window (ch_snd c))).
      v \<in> set (win_view (s_window w)) \<or> received d (r_window (ch_rcv c)) (fst v)"
    using s_ProcessSegment_window [OF s deliver_ack(3)] a received_below
    by (metis ack_ok_def linorder_not_le)
  then have "channel_inv (c\<lparr>ch_snd := w, ch_data := ch_data c \<union> {}\<rparr>) d"
    using s_ProcessSegment_window [OF s deliver_ack(3)]
    by (intro channel_inv_sender [OF assms(3)]) auto
  then show ?thesis using deliver_ack(1) by auto
next
  case ping
  have "unat (r_nextNumber (ch_rcv c)) \<le> d"
    using assms(3) by (auto simp: channel_inv_def receiver_inv_def unat_word_of_nat32)
  then have "channel_inv c' d" using assms(3) ping by (auto simp: channel_inv_def retained_def)
  then show ?thesis by blast
next
  case (deliver_ping n)
  have s: "sender_inv (ch_pushed c) (ch_snd c)" and n: "unat n \<le> d"
    using assms(3) deliver_ping(2) by (auto simp: channel_inv_def)
  have "win_sorted (s_window (ch_snd c))" using s by (simp add: sender_inv_def)
  then have "channel_inv (c\<lparr>ch_snd := ProcessReceivingNext n (ch_snd c), ch_data := ch_data c \<union> {}\<rparr>) d"
    using ProcessReceivingNext_inv [OF s, of n] ProcessReceivingNext_window(1) [of "ch_snd c" n] n
    by (intro channel_inv_sender [OF assms(3)]) (auto simp: not_le intro: received_below)
  then show ?thesis using deliver_ping(1) by auto
next
  case (sending_next una)
  have r: "receiver_inv (ch_pushed c) d (ch_read c) (ch_rcv c)" using assms(3) by (simp add: channel_inv_def)
  have "channel_inv (c\<lparr>ch_rcv := ProcessSendingNext una (ch_rcv c), ch_read := ch_read c,
      ch_acks := ch_acks c \<union> {}\<rparr>) d"
    using ProcessSendingNext_inv [OF r] by (intro channel_inv_receiver [OF assms(3)]) auto
  then show ?thesis using sending_next by auto
next
  case (read n w bytes)
  have r: "receiver_inv (ch_pushed c) d (ch_read c) (ch_rcv c)" using assms(3) by (simp add: channel_inv_def)
  obtain k where "receiver_inv (ch_pushed c) (d + k) (ch_read c @ bytes) w"
    "\<forall>n. received d (r_window (ch_rcv c)) n \<longrightarrow> received (d + k) (r_window w) n"
    using r_Read_inv [OF r assms(1), of n] read(2) by (metis option.inject prod.inject)
  then have "channel_inv (c\<lparr>ch_rcv := w, ch_read := ch_read c @ bytes, ch_acks := ch_acks c \<union> {}\<rparr>) (d + k)"
    by (intro channel_inv_receiver [OF assms(3)]) auto
  then show ?thesis using read(1) by auto
qed

lemma channel_inv_init:
  assumes "NewSendingWorker config = Some s" "NewReceivingWorker config' = Some r"
  shows "channel_inv (channel_init s r) 0"
  using NewSendingWorker_inv [OF assms(1)] NewReceivingWorker_inv [OF assms(2)]
  by (simp add: channel_inv_def channel_init_def retained_def)

lemma reachable_inv:
  assumes "reachable bufRead c" "\<And>c n. bufRead c n = (take n c, drop n c)"
  shows "\<exists>d. channel_inv c d"
  using assms(1)
proof induction
  case (start config s config' r)
  then show ?case using channel_inv_init by blast
next
  case (step c c')
  then show ?case using channel_inv_step [OF assms(2)] by blast
qed

text \<open>When the sender's window is empty and nothing is left over, a large enough read returns the rest.\<close>

lemma read_loop_drains:
  assumes "channel_inv c d" "s_IsEmpty (ch_snd c)" "r_leftOver (ch_rcv c) = None"
  shows "\<exists>w mb. ReadMultiBuffer (ch_rcv c) = Some (w, mb) \<and> r_leftOver w = None \<and>
     ch_read c @ concat mb = concat (ch_pushed c)"
proof -
  let ?r = "ch_rcv c" and ?p = "ch_pushed c"
  have inv: "receiver_inv ?p d (ch_read c) ?r" and ret: "retained c d"
    using assms(1) by (auto simp: channel_inv_def)
  then have "cache_ok ?p (r_window ?r)" "length ?p < 2 ^ 32" "d \<le> length ?p" "r_nextNumber ?r = word_of_nat d"
    by (simp_all add: receiver_inv_def)
  from read_loop_spec [OF this, of "[]"] obtain k w where k:
    "read_loop ?r [] = Some (w, take k (drop d ?p))" "d + k \<le> length ?p"
    "r_nextNumber w = word_of_nat (d + k)"
    "\<forall>n. received d (r_window ?r) n \<longrightarrow> received (d + k) (r_window w) n"
    "rw_cache (r_window w) (r_nextNumber w) = None" "r_leftOver w = r_leftOver ?r"
    by auto
  have "d + k = length ?p"
  proof (rule ccontr)
    assume "d + k \<noteq> length ?p"
    then have lt: "d + k < length ?p" using k(2) by simp
    then have "received d (r_window ?r) (word_of_nat (d + k))"
      using ret assms(2) by (auto simp: retained_def s_IsEmpty_def sw_IsEmpty_def win_view_def)
    then have "received (d + k) (r_window w) (word_of_nat (d + k))" using k(4) by blast
    moreover have "unat (word_of_nat (d + k) :: u32) = d + k"
      using lt inv by (intro unat_word_of_nat32) (simp add: receiver_inv_def)
    ultimately show False using k(3,5) by (auto simp: received_def)
  qed
  moreover have "concat (take d ?p) = ch_read c"
    using inv assms(3) by (simp add: receiver_inv_def leftover_bytes_def)
  moreover have "concat (take (d + k) ?p) = concat (take d ?p) @ concat (take k (drop d ?p))"
    by (simp add: take_add)
  ultimately show ?thesis using k assms(3) by (simp add: ReadMultiBuffer_def)
qed

subsection \<open>An example run\<close>

text \<open>One buffer is written, sent, delivered and acknowledged.\<close>

definition ex_rt :: RoundTripInfo where
  "ex_rt = \<lparr>variation = 0, srtt = 0, rto = 100, minRtt = 50, updatedTimestamp = 0\<rparr>"

definition ex_cfg :: Config where "ex_cfg = NewConfig zeroOptions"

definition ex_snd0 :: SendingWorker where "ex_snd0 = the (NewSendingWorker ex_cfg)"
definition ex_rcv0 :: ReceivingWorker where "ex_rcv0 = the (NewReceivingWorker ex_cfg)"
definition ex_snd1 :: SendingWorker where "ex_snd1 = snd (s_Push [65, 66] ex_snd0)"
definition ex_send :: "SendingWorker \<times> DataSegment list \<times> bool" where
  "ex_send = the (s_Flush ex_cfg 7 StateActive ex_rt 1000 ex_snd1)"
definition ex_rcv1 :: ReceivingWorker where
  "ex_rcv1 = r_ProcessSegment (on_wire (hd (fst (snd ex_send)))) ex_rcv0"
definition ex_ack :: "ReceivingWorker \<times> AckSegment list" where
  "ex_ack = r_Flush 7 StateActive ex_rt 1020 ex_rcv1"
definition ex_snd2 :: SendingWorker where
  "ex_snd2 = fst (s_ProcessSegment 1050 (hd (snd ex_ack)) 100 (fst ex_send) ex_rt)"

definition rd :: "byte list \<Rightarrow> nat \<Rightarrow> byte list \<times> byte list" where
  "rd c n = (take n c, drop n c)"

lemma ex_reachable:
  "\<exists>c. reachable rd c \<and> ch_pushed c = [[65, 66]] \<and> ch_read c = [] \<and> s_IsEmpty (ch_snd c) \<and>
     r_leftOver (ch_rcv c) = None"
proof -
  have "\<not> Option.is_none (NewSendingWorker ex_cfg)" "\<not> Option.is_none (NewReceivingWorker ex_cfg)"
    "\<not> Option.is_none (s_Flush ex_cfg 7 StateActive ex_rt 1000 ex_snd1)"
    by code_simp+
  then have n: "NewSendingWorker ex_cfg = Some ex_snd0" "NewReceivingWorker ex_cfg = Some ex_rcv0"
    "s_Flush ex_cfg 7 StateActive ex_rt 1000 ex_snd1 = Some ex_send"
    by (auto simp: ex_snd0_def ex_rcv0_def ex_send_def Option.is_none_def)
  have "fst (s_Push [65, 66] ex_snd0)" by code_simp
  then have p: "s_Push [65, 66] ex_snd0 = (True, ex_snd1)"
    by (simp add: ex_snd1_def prod_eq_iff)
  have "length (fst (snd ex_send)) = 1" "length (snd ex_ack) = 1" by code_simp+
  then have h: "hd (fst (snd ex_send)) \<in> set (fst (snd ex_send))" "hd (snd ex_ack) \<in> set (snd ex_ack)"
    by (auto intro!: hd_in_set)
  have e: "s_IsEmpty ex_snd2" "r_leftOver (fst ex_ack) = None" by code_simp+
  let ?c0 = "channel_init ex_snd0 ex_rcv0"
  let ?c1 = "?c0\<lparr>ch_snd := ex_snd1, ch_pushed := [[65, 66]]\<rparr>"
  let ?c2 = "?c1\<lparr>ch_snd := fst ex_send, ch_data := set (fst (snd ex_send))\<rparr>"
  let ?c3 = "?c2\<lparr>ch_rcv := ex_rcv1\<rparr>"
  let ?c4 = "?c3\<lparr>ch_rcv := fst ex_ack, ch_acks := set (snd ex_ack)\<rparr>"
  let ?c5 = "?c4\<lparr>ch_snd := ex_snd2\<rparr>"
  have r0: "reachable rd ?c0" using n(1,2) by (rule reachable.start)
  have r1: "reachable rd ?c1"
    using reachable.step [OF r0 channel_step.push [of "[65, 66]"]] p by (simp add: channel_init_def)
  have r2: "reachable rd ?c2"
    using reachable.step [OF r1 channel_step.send [of ex_cfg 7 StateActive ex_rt 1000 _
        "fst ex_send" "fst (snd ex_send)" "snd (snd ex_send)"]] n(3)
    by (simp add: channel_init_def)
  have r3: "reachable rd ?c3"
    using reachable.step [OF r2 channel_step.deliver [of "hd (fst (snd ex_send))"]] h(1)
    by (simp add: channel_init_def ex_rcv1_def)
  have r4: "reachable rd ?c4"
    using reachable.step [OF r3 channel_step.acknowledge [of 7 StateActive ex_rt 1020]]
    by (simp add: channel_init_def ex_ack_def [symmetric] prod_eq_iff)
  have "reachable rd ?c5"
    using reachable.step [OF r4 channel_step.deliver_ack [of "hd (snd ex_ack)" _ 1050 100 ex_rt]] h(2)
    by (simp add: channel_init_def ex_snd2_def prod_eq_iff)
  then show ?thesis using e by (intro exI [of _ ?c5]) (simp add: channel_init_def)
qed

subsection \<open>Properties\<close>

text \<open>C1. Reliable, in-order, exactly-once delivery: in every state that the two ends can reach over
  the lossy network, the bytes read so far are a prefix of the bytes accepted for sending. The only
  assumption is that a read from a \<open>buf.Buffer\<close> consumes a prefix of its contents. (Fewer than
  \<open>2 ^ 32\<close> segments are pushed: the window compares numbers without wrap-around.)\<close>

theorem stream_in_order:
  assumes "reachable bufRead c" and "\<And>c n. bufRead c n = (take n c, drop n c)"
  shows "\<exists>rest. concat (ch_pushed c) = ch_read c @ rest"
proof -
  obtain d where "channel_inv c d" using reachable_inv [OF assms] by blast
  then have "concat (take d (ch_pushed c)) = ch_read c @ leftover_bytes (ch_rcv c)"
    by (simp add: channel_inv_def receiver_inv_def)
  then show ?thesis
    by (metis append_assoc append_take_drop_id concat_append)
qed

theorem stream_in_order_witness:
  "\<exists>c rest. reachable rd c \<and> ch_pushed c = [[65, 66]] \<and> concat (ch_pushed c) = ch_read c @ rest"
  using ex_reachable stream_in_order [of rd, OF _ rd_def] by blast





end
