(* ===== verification/KcpConnection.thy ===== *)
theory KcpConnection
  imports KcpStream
begin

section \<open>mKCP connection (\<open>connection.go\<close>, \<open>updater.go\<close>)\<close>

text \<open>
  The connection object: its state machine, the handlers for incoming segments, the periodic task,
  closing, and one iteration of the read and write loops. The two capacity-one signal channels are
  booleans (a token is present). Segments written to the connection's \<open>output\<close> are appended to
  \<open>c_output\<close>. An updater holds its interval and whether its goroutine runs (the token of
  \<open>notifier\<close>); what the goroutine then does is \<open>updater_run\<close>. A handler reads the clock
  (\<open>Elapsed\<close>) once and runs atomically: \<open>current\<close> is its argument. \<open>go c.Terminate()\<close> sets
  \<open>c_terminateScheduled\<close>; the delayed call itself is \<open>Terminate\<close>.
\<close>

subsection \<open>Updater\<close>

record Updater =
  up_interval :: nat
  up_running :: bool

definition NewUpdater :: "u32 \<Rightarrow> Updater" where
  "NewUpdater interval = \<lparr>up_interval = unat interval, up_running = False\<rparr>"

definition WakeUp :: "Updater \<Rightarrow> Updater" where
  "WakeUp u = u\<lparr>up_running := True\<rparr>"

definition SetInterval :: "nat \<Rightarrow> Updater \<Rightarrow> Updater" where
  "SetInterval d u = u\<lparr>up_interval := d\<rparr>"

subsection \<open>State\<close>

record Connection =
  c_conv :: u16
  c_Config :: Config
  c_state :: State
  c_stateBeginTime :: u32
  c_lastIncomingTime :: u32
  c_lastPingTime :: u32
  c_mss :: u32
  c_roundTrip :: RoundTripInfo
  c_receivingWorker :: ReceivingWorker
  c_sendingWorker :: SendingWorker
  c_dataInput :: bool
  c_dataOutput :: bool
  c_output :: "Segment list"
  c_dataUpdater :: Updater
  c_pingUpdater :: Updater
  c_terminateScheduled :: bool
  c_closerClosed :: bool

definition NewConnection :: "u16 \<Rightarrow> nat \<Rightarrow> Config \<Rightarrow> Connection option" where
  "NewConnection conv overhead config = do {
     receiving \<leftarrow> NewReceivingWorker config;
     sending \<leftarrow> NewSendingWorker config;
     Some \<lparr>c_conv = conv, c_Config = config, c_state = StateActive, c_stateBeginTime = 0,
       c_lastIncomingTime = 0, c_lastPingTime = 0,
       c_mss = GetMTUValue config - word_of_nat overhead - 18,
       c_roundTrip = \<lparr>variation = 0, srtt = 0, rto = 100, minRtt = GetTTIValue config,
         updatedTimestamp = 0\<rparr>,
       c_receivingWorker = receiving, c_sendingWorker = sending,
       c_dataInput = False, c_dataOutput = False, c_output = [],
       c_dataUpdater = NewUpdater (GetTTIValue config),
       c_pingUpdater = WakeUp (NewUpdater 5000),
       c_terminateScheduled = False, c_closerClosed = False\<rparr> }"

definition signalInput :: "Connection \<Rightarrow> Connection" where
  "signalInput c = c\<lparr>c_dataInput := True\<rparr>"

definition signalOutput :: "Connection \<Rightarrow> Connection" where
  "signalOutput c = c\<lparr>c_dataOutput := True\<rparr>"

definition dataWakeUp :: "Connection \<Rightarrow> Connection" where
  "dataWakeUp c = c\<lparr>c_dataUpdater := WakeUp (c_dataUpdater c)\<rparr>"

definition pingWakeUp :: "Connection \<Rightarrow> Connection" where
  "pingWakeUp c = c\<lparr>c_pingUpdater := WakeUp (c_pingUpdater c)\<rparr>"

definition pingInterval :: "nat \<Rightarrow> Connection \<Rightarrow> Connection" where
  "pingInterval ms c = c\<lparr>c_pingUpdater := SetInterval ms (c_pingUpdater c)\<rparr>"

definition conn_CloseWrite :: "Connection \<Rightarrow> Connection" where
  "conn_CloseWrite c = c\<lparr>c_sendingWorker := CloseWrite (c_sendingWorker c)\<rparr>"

text \<open>\<open>CloseRead\<close> of the receiving worker is empty.\<close>

definition SetState :: "u32 \<Rightarrow> State \<Rightarrow> Connection \<Rightarrow> Connection" where
  "SetState current state c =
     (let c = c\<lparr>c_state := state, c_stateBeginTime := current\<rparr> in
      case state of
        StateActive \<Rightarrow> c
      | StateReadyToClose \<Rightarrow> c
      | StatePeerClosed \<Rightarrow> conn_CloseWrite c
      | StateTerminating \<Rightarrow> pingInterval 1000 (conn_CloseWrite c)
      | StatePeerTerminating \<Rightarrow> pingInterval 1000 (conn_CloseWrite c)
      | StateTerminated \<Rightarrow>
          (pingWakeUp (dataWakeUp (pingInterval 1000 (conn_CloseWrite c))))\<lparr>c_terminateScheduled := True\<rparr>)"

definition Terminate :: "Connection \<Rightarrow> Connection" where
  "Terminate c = c\<lparr>c_closerClosed := True, c_sendingWorker := s_Release (c_sendingWorker c),
     c_receivingWorker := r_Release (c_receivingWorker c)\<rparr>"

definition OnPeerClosed :: "u32 \<Rightarrow> Connection \<Rightarrow> Connection" where
  "OnPeerClosed current c =
     (case c_state c of
        StateReadyToClose \<Rightarrow> SetState current StateTerminating c
      | StateActive \<Rightarrow> SetState current StatePeerClosed c
      | _ \<Rightarrow> c)"

definition HandleOption :: "u32 \<Rightarrow> SegmentOption \<Rightarrow> Connection \<Rightarrow> Connection" where
  "HandleOption current opt c =
     (if opt AND SegmentOptionClose = SegmentOptionClose then OnPeerClosed current c else c)"

subsection \<open>Incoming segments\<close>

definition Input_Data :: "u32 \<Rightarrow> DataSegment \<Rightarrow> Connection \<Rightarrow> Connection" where
  "Input_Data current seg c =
     (let c = HandleOption current (ds_Option seg) c;
          c = c\<lparr>c_receivingWorker := r_ProcessSegment seg (c_receivingWorker c)\<rparr>;
          c = (if IsDataAvailable (c_receivingWorker c) then signalInput c else c)
      in dataWakeUp c)"

definition Input_Ack :: "u32 \<Rightarrow> AckSegment \<Rightarrow> Connection \<Rightarrow> Connection" where
  "Input_Ack current seg c =
     (let c = HandleOption current (as_Option seg) c in
      case s_ProcessSegment current seg (Timeout (c_roundTrip c)) (c_sendingWorker c) (c_roundTrip c) of
        (w, rt) \<Rightarrow> dataWakeUp (signalOutput (c\<lparr>c_sendingWorker := w, c_roundTrip := rt\<rparr>)))"

definition on_terminate :: "u32 \<Rightarrow> Connection \<Rightarrow> Connection" where
  "on_terminate current c =
     (case c_state c of
        StateActive \<Rightarrow> SetState current StatePeerTerminating c
      | StatePeerClosed \<Rightarrow> SetState current StatePeerTerminating c
      | StateReadyToClose \<Rightarrow> SetState current StateTerminating c
      | StateTerminating \<Rightarrow> SetState current StateTerminated c
      | _ \<Rightarrow> c)"

definition Input_Cmd :: "u32 \<Rightarrow> CmdOnlySegment \<Rightarrow> Connection \<Rightarrow> Connection" where
  "Input_Cmd current seg c =
     (let c = HandleOption current (cs_Option seg) c;
          c = (if cs_Cmd seg = CommandTerminate then on_terminate current c else c);
          c = (if cs_Option seg = SegmentOptionClose \<or> cs_Cmd seg = CommandTerminate
               then signalOutput (signalInput c) else c)
      in c\<lparr>c_sendingWorker := ProcessReceivingNext (cs_ReceivingNext seg) (c_sendingWorker c),
           c_receivingWorker := ProcessSendingNext (cs_SendingNext seg) (c_receivingWorker c),
           c_roundTrip := UpdatePeerRTO (cs_PeerRTO seg) current (c_roundTrip c)\<rparr>)"

fun input_loop :: "u32 \<Rightarrow> Segment list \<Rightarrow> Connection \<Rightarrow> Connection" where
  "input_loop current [] c = c"
| "input_loop current (s # segments) c =
     (if Conversation s \<noteq> c_conv c then c
      else input_loop current segments
        (case s of
           SegData seg \<Rightarrow> Input_Data current seg c
         | SegAck seg \<Rightarrow> Input_Ack current seg c
         | SegCmd seg \<Rightarrow> Input_Cmd current seg c))"

definition conn_Input :: "u32 \<Rightarrow> Segment list \<Rightarrow> Connection \<Rightarrow> Connection" where
  "conn_Input current segments c = input_loop current segments (c\<lparr>c_lastIncomingTime := current\<rparr>)"

subsection \<open>Periodic task and closing\<close>

definition Ping :: "u32 \<Rightarrow> Command \<Rightarrow> Connection \<Rightarrow> Connection" where
  "Ping current cmd c =
     (let seg = NewCmdOnlySegment\<lparr>cs_Conv := c_conv c, cs_Cmd := cmd,
            cs_SendingNext := firstUnacknowledged (c_sendingWorker c),
            cs_ReceivingNext := r_nextNumber (c_receivingWorker c),
            cs_PeerRTO := Timeout (c_roundTrip c),
            cs_Option := (if c_state c = StateReadyToClose then SegmentOptionClose else 0)\<rparr>
      in c\<lparr>c_output := c_output c @ [SegCmd seg], c_lastPingTime := current\<rparr>)"

definition conn_Close :: "u32 \<Rightarrow> Connection \<Rightarrow> kcp_error option \<times> Connection" where
  "conn_Close current c =
     (let c = signalOutput (signalInput c) in
      case c_state c of
        StateReadyToClose \<Rightarrow> (Some ErrClosedConnection, c)
      | StateTerminating \<Rightarrow> (Some ErrClosedConnection, c)
      | StateTerminated \<Rightarrow> (Some ErrClosedConnection, c)
      | StateActive \<Rightarrow> (None, SetState current StateReadyToClose c)
      | StatePeerClosed \<Rightarrow> (None, SetState current StateTerminating c)
      | StatePeerTerminating \<Rightarrow> (None, SetState current StateTerminated c))"

definition conn_rFlush :: "u32 \<Rightarrow> Connection \<Rightarrow> Connection" where
  "conn_rFlush current c =
     (case r_Flush (c_conv c) (c_state c) (c_roundTrip c) current (c_receivingWorker c) of
        (w, out) \<Rightarrow> c\<lparr>c_receivingWorker := w, c_output := c_output c @ map SegAck out\<rparr>)"

definition conn_sFlush :: "u32 \<Rightarrow> Connection \<Rightarrow> Connection option" where
  "conn_sFlush current c = do {
     (w, out, ping) \<leftarrow> s_Flush (c_Config c) (c_conv c) (c_state c) (c_roundTrip c) current (c_sendingWorker c);
     let c = c\<lparr>c_sendingWorker := w, c_output := c_output c @ map SegData out\<rparr>;
     Some (if ping then Ping current CommandPing c else c) }"

definition updateTask :: "u32 \<Rightarrow> Connection \<Rightarrow> Connection option" where
  "updateTask current c =
     (if c_state c = StateTerminated then Some c
      else
        let c = (if c_state c = StateActive \<and> current - c_lastIncomingTime c \<ge> 30000
                 then snd (conn_Close current c) else c);
            c = (if c_state c = StateReadyToClose \<and> s_IsEmpty (c_sendingWorker c)
                 then SetState current StateTerminating c else c)
        in if c_state c = StateTerminating
           then Some (if current - c_stateBeginTime c > 8000 then SetState current StateTerminated c
                      else Ping current CommandTerminate c)
           else
             let c = (if c_state c = StatePeerTerminating \<and> current - c_stateBeginTime c > 4000
                      then SetState current StateTerminating c else c);
                 c = (if c_state c = StateReadyToClose \<and> current - c_stateBeginTime c > 15000
                      then SetState current StateTerminating c else c)
             in do {
               c \<leftarrow> conn_sFlush current (conn_rFlush current c);
               Some (signalOutput
                 (if current - c_lastPingTime c \<ge> 3000 then Ping current CommandPing c else c)) })"

text \<open>One round of an updater's goroutine: it ends (releasing the token) when its condition fails,
  otherwise it runs the task. \<open>dataRound\<close> and \<open>pingRound\<close> are the two updaters of a connection.\<close>

definition dataRound :: "u32 \<Rightarrow> Connection \<Rightarrow> Connection option" where
  "dataRound current c =
     (if \<not> State_Is (c_state c) [StateTerminating, StateTerminated] \<and>
         (s_UpdateNecessary (c_sendingWorker c) \<or> r_UpdateNecessary (c_receivingWorker c))
      then updateTask current c
      else Some (c\<lparr>c_dataUpdater := (c_dataUpdater c)\<lparr>up_running := False\<rparr>\<rparr>))"

definition pingRound :: "u32 \<Rightarrow> Connection \<Rightarrow> Connection option" where
  "pingRound current c =
     (if c_state c \<noteq> StateTerminated then updateTask current c
      else Some (c\<lparr>c_pingUpdater := (c_pingUpdater c)\<lparr>up_running := False\<rparr>\<rparr>))"

subsection \<open>Reading and writing\<close>

datatype 'a attempt = Done 'a | EOF | Wait

text \<open>One iteration of the loop of \<open>Read\<close>: bytes, end of file, or waiting for the input signal.\<close>

definition conn_Read ::
  "(byte list \<Rightarrow> nat \<Rightarrow> byte list \<times> byte list) \<Rightarrow> nat \<Rightarrow> Connection
     \<Rightarrow> (byte list attempt \<times> Connection) option" where
  "conn_Read bufRead n c =
     (if State_Is (c_state c) [StateReadyToClose, StateTerminating, StateTerminated] then Some (EOF, c)
      else do {
        (w, bytes) \<leftarrow> r_Read bufRead n (c_receivingWorker c);
        let c = c\<lparr>c_receivingWorker := w\<rparr>;
        Some (if length bytes > 0 then (Done bytes, dataWakeUp c)
              else if c_state c = StatePeerTerminating then (EOF, c) else (Wait, c)) })"

text \<open>\<open>Write\<close> cuts its argument into pieces of at most \<open>mss\<close> bytes and pushes them one after the
  other (a fresh buffer of the library is taken to hold a piece, which is smaller than the MTU). With
  \<open>mss\<close> zero the first read of the limited reader is empty and the loop ends at once.\<close>

function chunks :: "nat \<Rightarrow> byte list \<Rightarrow> byte list list" where
  "chunks n b = (if b = [] \<or> n = 0 then [] else take n b # chunks n (drop n b))"
  by auto

termination chunks
  by (relation "measure (\<lambda>(n, b). length b)") auto

declare chunks.simps [simp del]

fun push_all :: "byte list list \<Rightarrow> nat \<Rightarrow> Connection \<Rightarrow> nat attempt \<times> byte list list \<times> nat \<times> Connection" where
  "push_all [] written c = (Done written, [], written, dataWakeUp c)"
| "push_all (b # bs) written c =
     (case s_Push b (c_sendingWorker c) of
        (True, w) \<Rightarrow> push_all bs (written + length b) (c\<lparr>c_sendingWorker := w\<rparr>)
      | (False, w) \<Rightarrow>
          if c_state c \<noteq> StateActive then (EOF, b # bs, written, c)
          else (Wait, b # bs, written, dataWakeUp c))"

text \<open>\<open>Write\<close> up to the first wait: the outcome, the pieces still to be pushed and the bytes written.\<close>

definition conn_Write ::
  "byte list \<Rightarrow> Connection \<Rightarrow> nat attempt \<times> byte list list \<times> nat \<times> Connection" where
  "conn_Write b c =
     (if c_state c \<noteq> StateActive then (EOF, [], 0, c)
      else push_all (chunks (unat (c_mss c)) b) 0 c)"

subsection \<open>Closing states only advance\<close>

fun rank :: "State \<Rightarrow> nat" where
  "rank StateActive = 0"
| "rank StateReadyToClose = 1"
| "rank StatePeerClosed = 1"
| "rank StatePeerTerminating = 2"
| "rank StateTerminating = 3"
| "rank StateTerminated = 4"

definition advances :: "State \<Rightarrow> State \<Rightarrow> bool" where
  "advances s s' \<longleftrightarrow> s = s' \<or> rank s < rank s'"

lemma advances_refl [simp]: "advances s s"
  by (simp add: advances_def)

lemma advances_trans [trans]: "advances s t \<Longrightarrow> advances t u \<Longrightarrow> advances s u"
  by (auto simp: advances_def)

lemmas signal_defs = signalInput_def signalOutput_def dataWakeUp_def pingWakeUp_def pingInterval_def
  conn_CloseWrite_def

named_theorems state_simps "the connection state after a handler"

lemma signal_state [state_simps]:
  "c_state (signalInput c) = c_state c" "c_state (signalOutput c) = c_state c"
  "c_state (dataWakeUp c) = c_state c" "c_state (pingWakeUp c) = c_state c"
  "c_state (pingInterval n c) = c_state c" "c_state (conn_CloseWrite c) = c_state c"
  by (simp_all add: signal_defs)

lemma SetState_state [state_simps]: "c_state (SetState current s c) = s"
  by (cases s) (simp_all add: SetState_def Let_def state_simps)

lemma Ping_state [state_simps]: "c_state (Ping current cmd c) = c_state c"
  by (simp add: Ping_def Let_def)

lemma conn_rFlush_state [state_simps]: "c_state (conn_rFlush current c) = c_state c"
  by (simp add: conn_rFlush_def split: prod.split)

lemma conn_sFlush_state: "conn_sFlush current c = Some c' \<Longrightarrow> c_state c' = c_state c"
  by (auto simp: conn_sFlush_def bind_eq_Some_conv Let_def state_simps)

lemma OnPeerClosed_advances: "advances (c_state c) (c_state (OnPeerClosed current c))"
  by (simp add: OnPeerClosed_def advances_def state_simps split: State.split)

lemma HandleOption_advances: "advances (c_state c) (c_state (HandleOption current opt c))"
  by (simp add: HandleOption_def OnPeerClosed_advances)

lemma on_terminate_advances: "advances (c_state c) (c_state (on_terminate current c))"
  by (simp add: on_terminate_def advances_def state_simps split: State.split)

lemma Input_Data_advances: "advances (c_state c) (c_state (Input_Data current seg c))"
  using HandleOption_advances [of c current "ds_Option seg"]
  by (simp add: Input_Data_def Let_def state_simps)

lemma Input_Ack_advances: "advances (c_state c) (c_state (Input_Ack current seg c))"
  using HandleOption_advances [of c current "as_Option seg"]
  by (simp add: Input_Ack_def Let_def state_simps split: prod.split)

lemma Input_Cmd_advances: "advances (c_state c) (c_state (Input_Cmd current seg c))"
proof -
  let ?c = "HandleOption current (cs_Option seg) c"
  have "advances (c_state c) (c_state ?c)" by (rule HandleOption_advances)
  moreover have "advances (c_state ?c) (c_state (on_terminate current ?c))" by (rule on_terminate_advances)
  ultimately show ?thesis
    by (auto simp: Input_Cmd_def Let_def state_simps intro: advances_trans)
qed

lemma input_loop_advances: "advances (c_state c) (c_state (input_loop current segs c))"
proof (induction current segs c rule: input_loop.induct)
  case (2 current s segments c)
  let ?c = "case s of SegData seg \<Rightarrow> Input_Data current seg c | SegAck seg \<Rightarrow> Input_Ack current seg c
    | SegCmd seg \<Rightarrow> Input_Cmd current seg c"
  have "advances (c_state c) (c_state ?c)"
    by (simp add: Input_Data_advances Input_Ack_advances Input_Cmd_advances split: Segment.split)
  with 2 show ?case by (auto intro: advances_trans)
qed simp

lemma conn_Close_advances: "advances (c_state c) (c_state (snd (conn_Close current c)))"
  by (simp add: conn_Close_def Let_def advances_def state_simps split: State.split)

text \<open>The state after \<open>updateTask\<close>, as a function of the state, the timers and the sending window.\<close>

definition task_state :: "u32 \<Rightarrow> Connection \<Rightarrow> State" where
  "task_state current c =
     (let age = current - c_stateBeginTime c in
      case c_state c of
        StateActive \<Rightarrow>
          if current - c_lastIncomingTime c \<ge> 30000
          then (if s_IsEmpty (c_sendingWorker c) then StateTerminating else StateReadyToClose)
          else StateActive
      | StateReadyToClose \<Rightarrow>
          if s_IsEmpty (c_sendingWorker c) \<or> age > 15000 then StateTerminating else StateReadyToClose
      | StatePeerClosed \<Rightarrow> StatePeerClosed
      | StateTerminating \<Rightarrow> if age > 8000 then StateTerminated else StateTerminating
      | StatePeerTerminating \<Rightarrow> if age > 4000 then StateTerminating else StatePeerTerminating
      | StateTerminated \<Rightarrow> StateTerminated)"

lemma SetState_begin [state_simps]: "c_stateBeginTime (SetState current s c) = current"
  by (cases s) (simp_all add: SetState_def Let_def signal_defs)

lemma flush_tail_state:
  "do { c \<leftarrow> conn_sFlush current (conn_rFlush current c); Some (signalOutput (f c)) } = Some c' \<Longrightarrow>
   (\<And>c. c_state (f c) = c_state c) \<Longrightarrow> c_state c' = c_state c"
  by (auto simp: bind_eq_Some_conv state_simps dest!: conn_sFlush_state)

lemma conn_Close_idle:
  "c_state c = StateActive \<Longrightarrow> snd (conn_Close current c) = SetState current StateReadyToClose (signalOutput (signalInput c))"
  by (simp add: conn_Close_def Let_def state_simps)

lemma updateTask_state:
  assumes "updateTask current c = Some c'"
  shows "c_state c' = task_state current c"
proof (cases "c_state c")
  case StateActive
  show ?thesis
  proof (cases "current - c_lastIncomingTime c \<ge> 30000")
    case True
    let ?c = "SetState current StateReadyToClose (signalOutput (signalInput c))"
    have e: "s_IsEmpty (c_sendingWorker ?c) = s_IsEmpty (c_sendingWorker c)"
      by (simp add: SetState_def signal_defs)
    show ?thesis
      using assms StateActive True
      by (cases "s_IsEmpty (c_sendingWorker c)")
        (auto simp: updateTask_def Let_def conn_Close_idle e state_simps task_state_def dest!: flush_tail_state)
  next
    case False
    with assms StateActive show ?thesis
      by (auto simp: updateTask_def Let_def task_state_def state_simps dest!: flush_tail_state)
  qed
qed (use assms in \<open>auto simp: updateTask_def Let_def task_state_def state_simps
      dest!: flush_tail_state split: if_splits\<close>)

lemma updateTask_advances: "updateTask current c = Some c' \<Longrightarrow> advances (c_state c) (c_state c')"
  by (auto simp: updateTask_state task_state_def advances_def Let_def split: State.splits)

subsection \<open>Steps of a connection\<close>

text \<open>Everything that happens to a connection: segments arrive (data segments with a payload, as the
  parser builds them), an updater runs, and the application reads, writes and closes.\<close>

inductive conn_step :: "(byte list \<Rightarrow> nat \<Rightarrow> byte list \<times> byte list) \<Rightarrow> Connection \<Rightarrow> Connection \<Rightarrow> bool"
  for bufRead where
  input: "\<forall>seg. SegData seg \<in> set segments \<longrightarrow> ds_payload seg \<noteq> None \<Longrightarrow>
    conn_step bufRead c (conn_Input current segments c)"
| data_round: "dataRound current c = Some c' \<Longrightarrow> conn_step bufRead c c'"
| ping_round: "pingRound current c = Some c' \<Longrightarrow> conn_step bufRead c c'"
| close: "conn_Close current c = (err, c') \<Longrightarrow> conn_step bufRead c c'"
| read: "conn_Read bufRead n c = Some (r, c') \<Longrightarrow> conn_step bufRead c c'"
| writes: "conn_Write b c = (r, rest, n, c') \<Longrightarrow> conn_step bufRead c c'"
| retry: "\<lbrakk>\<forall>b \<in> set bs. b \<noteq> [] \<and> length b \<le> unat (c_mss c); push_all bs k c = (r, rest, n, c')\<rbrakk> \<Longrightarrow>
    conn_step bufRead c c'"
| terminate: "c_terminateScheduled c \<Longrightarrow> conn_step bufRead c (Terminate c)"

lemma push_all_state: "push_all bs k c = (r, rest, n, c') \<Longrightarrow> c_state c' = c_state c"
  by (induction bs k c rule: push_all.induct)
    (auto simp: state_simps split: prod.splits bool.splits if_splits)

lemma conn_Read_state: "conn_Read bufRead n c = Some (r, c') \<Longrightarrow> c_state c' = c_state c"
  by (auto simp: conn_Read_def bind_eq_Some_conv Let_def state_simps split: if_splits)

lemma conn_step_advances:
  assumes "conn_step bufRead c c'"
  shows "advances (c_state c) (c_state c')"
  using assms
proof cases
  case (input segments current)
  then show ?thesis using input_loop_advances [of "c\<lparr>c_lastIncomingTime := current\<rparr>"] by (simp add: conn_Input_def)
next
  case (close current err)
  then show ?thesis using conn_Close_advances [of c current] by simp
next
  case (writes b r rest n)
  then show ?thesis by (auto simp: conn_Write_def split: if_splits dest!: push_all_state)
qed (auto simp: dataRound_def pingRound_def Terminate_def updateTask_advances split: if_splits
      dest!: push_all_state conn_Read_state)

subsection \<open>What a connection puts on the wire\<close>

definition piece_ok :: "u32 \<Rightarrow> byte list option \<Rightarrow> bool" where
  "piece_ok mss payload \<longleftrightarrow> (case payload of None \<Rightarrow> False | Some p \<Rightarrow> p \<noteq> [] \<and> length p \<le> unat mss)"

definition snd_ok :: "u32 \<Rightarrow> SendingWorker \<Rightarrow> bool" where
  "snd_ok mss w \<longleftrightarrow> (\<forall>v \<in> set (win_view (s_window w)). piece_ok mss (snd v))"

definition rcv_ok :: "ReceivingWorker \<Rightarrow> bool" where
  "rcv_ok w \<longleftrightarrow> al_ok (r_acklist w) \<and> (\<forall>k seg. rw_cache (r_window w) k = Some seg \<longrightarrow> ds_payload seg \<noteq> None)"

fun data_fits :: "u32 \<Rightarrow> Segment \<Rightarrow> bool" where
  "data_fits mss (SegData seg) \<longleftrightarrow> piece_ok mss (ds_payload seg)"
| "data_fits mss _ \<longleftrightarrow> True"

definition conn_inv :: "Connection \<Rightarrow> bool" where
  "conn_inv c \<longleftrightarrow> GetTTIValue (c_Config c) \<le> 1000 \<and> unat (c_mss c) < 65536 \<and>
     snd_ok (c_mss c) (c_sendingWorker c) \<and> rcv_ok (c_receivingWorker c) \<and>
     (\<forall>s \<in> set (c_output c). wire_ok id s \<and> Conversation s = c_conv c \<and> data_fits (c_mss c) s)"

text \<open>The sending worker's window only shrinks, whatever is acknowledged.\<close>

lemma sw_Clear_subset: "set (win_view (sw_Clear una sw)) \<subseteq> set (win_view sw)"
  by (auto simp: sw_Clear_def win_view_def clear_loop_dropWhile dest: set_dropWhileD)

lemma remove_loop_subset: "remove_loop n segs = Some segs' \<Longrightarrow> set segs' \<subseteq> set segs"
  by (induction segs arbitrary: segs') (auto split: if_splits)

lemma processAck_subset:
  "processAck n w = (b, w') \<Longrightarrow> set (win_view (s_window w')) \<subseteq> set (win_view (s_window w))"
  by (fastforce simp: processAck_def sw_Remove_def win_view_def split: if_splits option.splits
      dest!: remove_loop_subset)

lemma ack_loop_subset:
  "ack_loop ns m b w = (m', b', w') \<Longrightarrow> set (win_view (s_window w')) \<subseteq> set (win_view (s_window w))"
  by (induction ns m b w rule: ack_loop.induct)
    (auto split: prod.splits if_splits dest: processAck_subset [THEN subsetD])

lemma ProcessReceivingNext_subset:
  "set (win_view (s_window (ProcessReceivingNext una w))) \<subseteq> set (win_view (s_window w))"
  using sw_Clear_subset by (simp add: ProcessReceivingNext_def)

lemma s_ProcessSegment_subset:
  assumes "s_ProcessSegment current seg r w rt = (w', rt')"
  shows "set (win_view (s_window w')) \<subseteq> set (win_view (s_window w))"
proof -
  define w0 where "w0 = (if remoteNextNumber w < as_ReceivingWindow seg
     then w\<lparr>remoteNextNumber := as_ReceivingWindow seg\<rparr> else w)"
  define w1 where "w1 = ProcessReceivingNext (as_ReceivingNext seg) w0"
  obtain m b w2 where w2: "ack_loop (as_NumberList seg) 0 False w1 = (m, b, w2)" by (metis prod_cases3)
  have "s_window w0 = s_window w" by (simp add: w0_def)
  then have 1: "set (win_view (s_window w1)) \<subseteq> set (win_view (s_window w))"
    using ProcessReceivingNext_subset [of "as_ReceivingNext seg" w0] by (simp add: w1_def)
  have "w' = w \<or> w' = w1 \<or> w' = w2 \<or> w' = w2\<lparr>s_window := HandleFastAck m r (s_window w2)\<rparr>"
    using assms unfolding s_ProcessSegment_def Let_def w0_def [symmetric] w1_def [symmetric] w2
    by (auto split: if_splits)
  with 1 ack_loop_subset [OF w2] show ?thesis by (auto simp: view_simps)
qed

lemma snd_ok_subset:
  "snd_ok mss w \<Longrightarrow> set (win_view (s_window w')) \<subseteq> set (win_view (s_window w)) \<Longrightarrow> snd_ok mss w'"
  by (auto simp: snd_ok_def)

lemma snd_ok_CloseWrite: "snd_ok mss w \<Longrightarrow> snd_ok mss (CloseWrite w)"
  using sw_Clear_subset [of "0xFFFFFFFF" "s_window w"] unfolding snd_ok_def CloseWrite_def by auto

lemma snd_ok_Push:
  assumes "snd_ok mss w" "b \<noteq> []" "length b \<le> unat mss" "s_Push b w = (r, w')"
  shows "snd_ok mss w'"
  using assms by (cases b w rule: s_Push_cases)
    (auto simp: snd_ok_def sw_Push_def win_view_def seg_view_def piece_ok_def)

lemma rcv_ok_ProcessSegment:
  assumes "rcv_ok w" "ds_payload seg \<noteq> None"
  shows "rcv_ok (r_ProcessSegment seg w)"
  using assms al_Clear_entries [of "r_acklist w"]
  by (auto simp: rcv_ok_def r_ProcessSegment_def Let_def rw_Set_spec split: if_splits)

lemma rcv_ok_SendingNext: "rcv_ok w \<Longrightarrow> rcv_ok (ProcessSendingNext una w)"
  using al_Clear_entries [of "r_acklist w"] by (simp add: rcv_ok_def ProcessSendingNext_def)

lemma rcv_ok_Flush:
  assumes "rcv_ok w" "r_Flush conv state rt current w = (w', out)"
  shows "rcv_ok w' \<and> (\<forall>s \<in> set out. length (as_NumberList s) \<le> 128 \<and> as_Conv s = conv)"
proof -
  obtain l where l: "al_Flush (r_Write conv state w) current (Timeout rt) (r_acklist w) = (l, out)"
    "w' = w\<lparr>r_acklist := l\<rparr>"
    using assms(2) by (auto simp: r_Flush_def split: prod.splits)
  have ok: "al_ok (r_acklist w)" using assms(1) by (simp add: rcv_ok_def)
  have "as_NumberList (r_Write conv state w s) = as_NumberList s" for s by (simp add: r_Write_def)
  from al_Flush_spec [OF l(1) ok this] show ?thesis
    using assms(1) l(2) by (auto simp: rcv_ok_def r_Write_def)
qed

lemma read_loop_ok:
  "rcv_ok w \<Longrightarrow> \<exists>w' mb'. read_loop w mb = Some (w', mb') \<and> rcv_ok w'"
proof (induction w mb rule: read_loop.induct)
  case (1 w mb)
  show ?case
  proof (cases "rw_cache (r_window w) (r_nextNumber w)")
    case None
    with 1 show ?thesis by (subst read_loop.simps) (simp add: rw_Remove_def)
  next
    case (Some seg)
    let ?win = "(r_window w)\<lparr>rw_cache := (rw_cache (r_window w))(r_nextNumber w := None)\<rparr>"
    have rm: "rw_Remove (r_nextNumber w) (r_window w) = (Some seg, ?win)"
      using Some by (simp add: rw_Remove_def)
    obtain p where p: "ds_payload seg = Some p" using 1(2) Some by (auto simp: rcv_ok_def)
    have "rcv_ok (w\<lparr>r_window := ?win, r_nextNumber := r_nextNumber w + 1\<rparr>)"
      using 1(2) by (auto simp: rcv_ok_def)
    from 1(1) [OF rm [symmetric] refl p this] show ?thesis
      by (subst read_loop.simps) (simp add: rm p)
  qed
qed

lemma r_Read_ok:
  assumes "rcv_ok w"
  shows "\<exists>w' bytes. r_Read bufRead n w = Some (w', bytes) \<and> rcv_ok w'"
proof -
  obtain w1 mb where r: "ReadMultiBuffer w = Some (w1, mb)" "rcv_ok w1"
    using assms read_loop_ok [OF assms, of "[]"]
    by (cases "r_leftOver w") (auto simp: ReadMultiBuffer_def rcv_ok_def)
  then have "rcv_ok (w1\<lparr>r_leftOver := x\<rparr>)" for x by (simp add: rcv_ok_def)
  with r show ?thesis by (auto simp: r_Read_def split: prod.split)
qed

named_theorems inv_intros "handlers that keep the invariant"

lemma conn_inv_signal [inv_intros]:
  "conn_inv c \<Longrightarrow> conn_inv (signalInput c)" "conn_inv c \<Longrightarrow> conn_inv (signalOutput c)"
  "conn_inv c \<Longrightarrow> conn_inv (dataWakeUp c)" "conn_inv c \<Longrightarrow> conn_inv (pingWakeUp c)"
  "conn_inv c \<Longrightarrow> conn_inv (pingInterval n c)" "conn_inv c \<Longrightarrow> conn_inv (conn_CloseWrite c)"
  by (simp_all add: signal_defs conn_inv_def snd_ok_CloseWrite)

lemma conn_inv_fields [inv_intros]:
  "conn_inv c \<Longrightarrow> conn_inv (c\<lparr>c_state := s, c_stateBeginTime := t\<rparr>)"
  "conn_inv c \<Longrightarrow> conn_inv (c\<lparr>c_terminateScheduled := True\<rparr>)"
  "conn_inv c \<Longrightarrow> conn_inv (c\<lparr>c_lastIncomingTime := t\<rparr>)"
  "conn_inv c \<Longrightarrow> conn_inv (c\<lparr>c_dataUpdater := u\<rparr>)" "conn_inv c \<Longrightarrow> conn_inv (c\<lparr>c_pingUpdater := u\<rparr>)"
  by (simp_all add: conn_inv_def)

lemma conn_inv_SetState [inv_intros]: "conn_inv c \<Longrightarrow> conn_inv (SetState current s c)"
  by (cases s) (simp_all add: SetState_def Let_def inv_intros)

lemma conn_inv_HandleOption [inv_intros]: "conn_inv c \<Longrightarrow> conn_inv (HandleOption current opt c)"
  by (simp add: HandleOption_def OnPeerClosed_def inv_intros split: State.split)

lemma conn_inv_on_terminate [inv_intros]: "conn_inv c \<Longrightarrow> conn_inv (on_terminate current c)"
  by (simp add: on_terminate_def inv_intros split: State.split)

lemma conn_inv_Close [inv_intros]: "conn_inv c \<Longrightarrow> conn_inv (snd (conn_Close current c))"
  by (simp add: conn_Close_def Let_def inv_intros split: State.split)

lemma conn_inv_Ping [inv_intros]:
  "conn_inv c \<Longrightarrow> cmd \<noteq> CommandData \<Longrightarrow> cmd \<noteq> CommandACK \<Longrightarrow> conn_inv (Ping current cmd c)"
  by (simp add: Ping_def Let_def conn_inv_def)

lemma conn_inv_workers:
  assumes "conn_inv c" "snd_ok (c_mss c) w" "rcv_ok r"
  shows "conn_inv (c\<lparr>c_sendingWorker := w\<rparr>)" "conn_inv (c\<lparr>c_receivingWorker := r\<rparr>)"
    "conn_inv (c\<lparr>c_sendingWorker := w, c_receivingWorker := r, c_roundTrip := rt\<rparr>)"
    "conn_inv (c\<lparr>c_sendingWorker := w, c_roundTrip := rt\<rparr>)"
  using assms by (simp_all add: conn_inv_def)

lemma conn_inv_parts: "conn_inv c \<Longrightarrow> snd_ok (c_mss c) (c_sendingWorker c)" "conn_inv c \<Longrightarrow> rcv_ok (c_receivingWorker c)"
  by (simp_all add: conn_inv_def)

lemma conn_inv_Input_Data:
  assumes "conn_inv c" "ds_payload seg \<noteq> None"
  shows "conn_inv (Input_Data current seg c)"
proof -
  let ?c = "HandleOption current (ds_Option seg) c"
  have "conn_inv ?c" using assms(1) by (rule inv_intros)
  then have "conn_inv (?c\<lparr>c_receivingWorker := r_ProcessSegment seg (c_receivingWorker ?c)\<rparr>)"
    using conn_inv_workers(2) conn_inv_parts rcv_ok_ProcessSegment assms(2) by blast
  then show ?thesis by (simp add: Input_Data_def Let_def inv_intros)
qed

lemma conn_inv_Input_Ack: "conn_inv c \<Longrightarrow> conn_inv (Input_Ack current seg c)"
proof -
  assume "conn_inv c"
  let ?c = "HandleOption current (as_Option seg) c"
  have c: "conn_inv ?c" using \<open>conn_inv c\<close> by (rule inv_intros)
  obtain w rt where w: "s_ProcessSegment current seg (Timeout (c_roundTrip ?c)) (c_sendingWorker ?c) (c_roundTrip ?c) = (w, rt)"
    by fastforce
  have "snd_ok (c_mss ?c) w"
    using conn_inv_parts(1) [OF c] s_ProcessSegment_subset [OF w] by (rule snd_ok_subset)
  then have "conn_inv (?c\<lparr>c_sendingWorker := w, c_roundTrip := rt\<rparr>)"
    using conn_inv_workers(4) [OF c _ conn_inv_parts(2) [OF c]] by blast
  then show ?thesis by (simp add: Input_Ack_def Let_def w inv_intros)
qed

lemma conn_inv_Input_Cmd: "conn_inv c \<Longrightarrow> conn_inv (Input_Cmd current seg c)"
proof -
  assume "conn_inv c"
  define d where "d = (let c = HandleOption current (cs_Option seg) c;
          c = (if cs_Cmd seg = CommandTerminate then on_terminate current c else c)
      in if cs_Option seg = SegmentOptionClose \<or> cs_Cmd seg = CommandTerminate
               then signalOutput (signalInput c) else c)"
  have d: "conn_inv d" using \<open>conn_inv c\<close> by (simp add: d_def Let_def inv_intros)
  have "Input_Cmd current seg c =
      d\<lparr>c_sendingWorker := ProcessReceivingNext (cs_ReceivingNext seg) (c_sendingWorker d),
        c_receivingWorker := ProcessSendingNext (cs_SendingNext seg) (c_receivingWorker d),
        c_roundTrip := UpdatePeerRTO (cs_PeerRTO seg) current (c_roundTrip d)\<rparr>"
    unfolding Input_Cmd_def d_def Let_def by (rule refl)
  then show ?thesis
    using conn_inv_workers(3) [OF d snd_ok_subset [OF conn_inv_parts(1) [OF d] ProcessReceivingNext_subset]
        rcv_ok_SendingNext [OF conn_inv_parts(2) [OF d]]] by simp
qed

lemma conn_inv_input_loop:
  assumes "conn_inv c" "\<forall>seg. SegData seg \<in> set segments \<longrightarrow> ds_payload seg \<noteq> None"
  shows "conn_inv (input_loop current segments c)"
  using assms
proof (induction current segments c rule: input_loop.induct)
  case (2 current s segments c)
  let ?c = "case s of SegData seg \<Rightarrow> Input_Data current seg c | SegAck seg \<Rightarrow> Input_Ack current seg c
    | SegCmd seg \<Rightarrow> Input_Cmd current seg c"
  have "conn_inv ?c"
    using 2(2,3) by (cases s) (auto intro: conn_inv_Input_Data conn_inv_Input_Ack conn_inv_Input_Cmd)
  with 2 show ?case by simp
qed simp

lemma conn_inv_rFlush: "conn_inv c \<Longrightarrow> conn_inv (conn_rFlush current c)"
proof -
  assume c: "conn_inv c"
  obtain w out where f: "r_Flush (c_conv c) (c_state c) (c_roundTrip c) current (c_receivingWorker c) = (w, out)"
    by fastforce
  from rcv_ok_Flush [OF conn_inv_parts(2) [OF c] f] c show ?thesis
    by (force simp: conn_rFlush_def f conn_inv_def)
qed

lemma s_Flush_total:
  assumes "GetTTIValue config \<le> 1000"
  shows "\<exists>r. s_Flush config conv state rt current w = Some r"
proof -
  obtain n where "GetSendingInFlightSize config = Some n"
    using assms by (auto simp: GetSendingInFlightSize_def InFlightSize_cases Let_def dest: leD)
  then show ?thesis
    by (auto simp: s_Flush_def congestion_window_def OnPacketLoss_def Let_def split: prod.split option.split)
qed

lemma conn_inv_sFlush:
  assumes "conn_inv c"
  shows "\<exists>c'. conn_sFlush current c = Some c' \<and> conn_inv c'"
proof -
  have "GetTTIValue (c_Config c) \<le> 1000" using assms by (simp add: conn_inv_def)
  then obtain w out ping where f:
    "s_Flush (c_Config c) (c_conv c) (c_state c) (c_roundTrip c) current (c_sendingWorker c) = Some (w, out, ping)"
    using s_Flush_total by (metis prod_cases3)
  let ?c = "c\<lparr>c_sendingWorker := w, c_output := c_output c @ map SegData out\<rparr>"
  have "wire_ok id (SegData seg) \<and> ds_Conv seg = c_conv c \<and> piece_ok (c_mss c) (ds_payload seg)" if seg: "seg \<in> set out" for seg
    using f
  proof (cases rule: s_Flush_cases)
    case (2 win loss cwnd)
    then obtain old where "old \<in> set (sw_cache (s_window (c_sendingWorker c)))" "ds_payload seg = ds_payload old"
      "ds_Conv seg = c_conv c"
      using sw_Flush_out(1) [OF 2(5)] seg by (auto simp: s_Write_def)
    moreover from this have "piece_ok (c_mss c) (ds_payload old)"
      using conn_inv_parts(1) [OF assms] by (auto simp: snd_ok_def win_view_def seg_view_def)
    ultimately show ?thesis
      using assms by (auto simp: piece_ok_def conn_inv_def split: option.splits)
  qed (use seg in simp)
  moreover have "snd_ok (c_mss c) w"
    using conn_inv_parts(1) [OF assms] s_Flush_view [OF f] by (simp add: snd_ok_def)
  ultimately have "conn_inv ?c" using assms by (auto simp: conn_inv_def)
  then show ?thesis
    by (simp add: conn_sFlush_def f Let_def conn_inv_Ping command_defs)
qed

lemma conn_inv_updateTask:
  assumes "conn_inv c"
  shows "\<exists>c'. updateTask current c = Some c' \<and> conn_inv c'"
proof -
  have tail: "\<exists>c'. do { c \<leftarrow> conn_sFlush current (conn_rFlush current c); Some (signalOutput
      (if current - c_lastPingTime c \<ge> 3000 then Ping current CommandPing c else c)) } = Some c' \<and> conn_inv c'"
    if "conn_inv c" for c
    using conn_inv_sFlush [OF conn_inv_rFlush [OF that], of current current]
    by (auto simp: command_defs intro!: inv_intros)
  have "conn_inv (Ping current CommandTerminate c)" if "conn_inv c" for c
    using that by (intro inv_intros) (simp_all add: command_defs)
  with assms tail show ?thesis
    by (simp add: updateTask_def Let_def inv_intros)
qed

lemma conn_inv_push_all:
  assumes "conn_inv c" "\<forall>b \<in> set bs. b \<noteq> [] \<and> length b \<le> unat (c_mss c)" "push_all bs k c = (r, rest, n, c')"
  shows "conn_inv c'"
  using assms
proof (induction bs k c rule: push_all.induct)
  case (1 k c)
  then show ?case by (auto intro: inv_intros)
next
  case (2 b bs k c)
  obtain ok w where p: "s_Push b (c_sendingWorker c) = (ok, w)" by fastforce
  show ?case
  proof (cases ok)
    case True
    have "snd_ok (c_mss c) w" using snd_ok_Push [OF conn_inv_parts(1) [OF 2(2)] _ _ p] 2(3) by simp
    then have "conn_inv (c\<lparr>c_sendingWorker := w\<rparr>)"
      using conn_inv_workers(1) [OF 2(2)] conn_inv_parts(2) [OF 2(2)] by blast
    from 2(1) [OF p [symmetric] _ this] show ?thesis
      using 2(3,4) p True by simp
  next
    case False
    with 2(2,4) p show ?thesis by (auto split: if_splits intro: inv_intros)
  qed
qed

lemma chunks_pieces: "b' \<in> set (chunks n b) \<Longrightarrow> b' \<noteq> [] \<and> length b' \<le> n"
  by (induction n b rule: chunks.induct) (subst (asm) (2) chunks.simps, auto split: if_splits)

lemma chunks_concat: "0 < n \<Longrightarrow> concat (chunks n b) = b"
  by (induction n b rule: chunks.induct) (subst chunks.simps, auto)

lemma conn_step_inv:
  assumes "conn_step bufRead c c'" "conn_inv c"
  shows "conn_inv c'"
  using assms(1)
proof cases
  case (input segments current)
  then show ?thesis using assms(2) by (auto simp: conn_Input_def intro!: conn_inv_input_loop inv_intros)
next
  case (data_round current)
  then show ?thesis
    using conn_inv_updateTask [OF assms(2), of current] assms(2)
    by (auto simp: dataRound_def split: if_splits intro: inv_intros)
next
  case (ping_round current)
  then show ?thesis
    using conn_inv_updateTask [OF assms(2), of current] assms(2)
    by (auto simp: pingRound_def split: if_splits intro: inv_intros)
next
  case (close current err)
  then show ?thesis using conn_inv_Close [OF assms(2), of current] by simp
next
  case (read n r)
  have "conn_inv (c\<lparr>c_receivingWorker := w\<rparr>)" if "rcv_ok w" for w
    using assms(2) that by (simp add: conn_inv_def)
  then show ?thesis
    using read r_Read_ok [OF conn_inv_parts(2) [OF assms(2)], of bufRead n] assms(2)
    by (auto simp: conn_Read_def Let_def split: if_splits intro: inv_intros)
next
  case (writes b r rest n)
  then show ?thesis
    using conn_inv_push_all [OF assms(2), of "chunks (unat (c_mss c)) b" 0 r rest n c'] chunks_pieces
      assms(2)
    by (auto simp: conn_Write_def split: if_splits)
next
  case (retry bs k r rest n)
  then show ?thesis using conn_inv_push_all [OF assms(2)] by blast
next
  case terminate
  then show ?thesis
    using assms(2) by (simp add: Terminate_def conn_inv_def s_Release_def sw_Release_def r_Release_def
        snd_ok_def rcv_ok_def win_view_def)
qed

inductive conn_reachable ::
  "(byte list \<Rightarrow> nat \<Rightarrow> byte list \<times> byte list) \<Rightarrow> u16 \<Rightarrow> nat \<Rightarrow> Config \<Rightarrow> Connection \<Rightarrow> bool"
  for bufRead conv overhead config where
  new: "NewConnection conv overhead config = Some c \<Longrightarrow> conn_reachable bufRead conv overhead config c"
| step: "\<lbrakk>conn_reachable bufRead conv overhead config c; conn_step bufRead c c'\<rbrakk> \<Longrightarrow>
    conn_reachable bufRead conv overhead config c'"

lemma NewConnection_inv:
  assumes "NewConnection conv overhead config = Some c" "overhead + 18 \<le> unat (GetMTUValue config)"
    and "unat (GetMTUValue config) < 65536"
  shows "conn_inv c \<and> c_conv c = conv \<and> unat (c_mss c) = unat (GetMTUValue config) - overhead - 18"
proof -
  obtain r s where rs: "NewReceivingWorker config = Some r" "NewSendingWorker config = Some s"
    "c_receivingWorker c = r" "c_sendingWorker c = s" "c_conv c = conv" "c_Config c = config" "c_output c = []"
    "c_mss c = GetMTUValue config - word_of_nat overhead - 18"
    using assms(1) by (auto simp: NewConnection_def bind_eq_Some_conv)
  have "GetTTIValue config \<le> 1000"
    using rs(1) by (auto simp: NewReceivingWorker_def GetReceivingInFlightSize_def InFlightSize_cases
        bind_eq_Some_conv not_less split: if_splits)
  moreover have o: "unat (word_of_nat overhead :: u32) = overhead"
    using assms(2,3) by (intro unat_word_of_nat32) simp
  moreover have "unat (GetMTUValue config - word_of_nat overhead) = unat (GetMTUValue config) - overhead"
    using assms(2) o by (subst unat_sub) (simp_all add: word_le_nat_alt)
  then have "unat (c_mss c) = unat (GetMTUValue config) - overhead - 18"
    unfolding rs(8) using assms(2) by (subst unat_sub) (simp_all add: word_le_nat_alt)
  moreover have "rcv_ok r" "snd_ok x s" for x
    using rs(1,2) by (auto simp: NewReceivingWorker_def NewSendingWorker_def NewReceivingWindow_def NewAckList_def
        NewSendingWindow_def rcv_ok_def snd_ok_def al_ok_def win_view_def bind_eq_Some_conv)
  ultimately show ?thesis
    using rs(3-7) assms(3) by (simp add: conn_inv_def)
qed

lemma conn_reachable_inv:
  assumes "conn_reachable bufRead conv overhead config c"
    and "overhead + 18 \<le> unat (GetMTUValue config)" "unat (GetMTUValue config) < 65536"
  shows "conn_inv c"
  using assms(1)
  by induction (use NewConnection_inv [OF _ assms(2,3)] conn_step_inv in blast)+

text \<open>No step changes the conversation or the segment size.\<close>

definition fixed :: "Connection \<Rightarrow> u16 \<times> u32 \<times> Config" where
  "fixed c = (c_conv c, c_mss c, c_Config c)"

named_theorems fixed_simps "handlers that keep the constants of a connection"

lemma fixed_signal [fixed_simps]:
  "fixed (signalInput c) = fixed c" "fixed (signalOutput c) = fixed c" "fixed (dataWakeUp c) = fixed c"
  "fixed (pingWakeUp c) = fixed c" "fixed (pingInterval n c) = fixed c" "fixed (conn_CloseWrite c) = fixed c"
  by (simp_all add: signal_defs fixed_def)

lemma fixed_fields [fixed_simps]:
  "fixed (c\<lparr>c_state := s\<rparr>) = fixed c" "fixed (c\<lparr>c_stateBeginTime := t\<rparr>) = fixed c"
  "fixed (c\<lparr>c_terminateScheduled := b\<rparr>) = fixed c" "fixed (c\<lparr>c_lastIncomingTime := t\<rparr>) = fixed c"
  "fixed (c\<lparr>c_dataUpdater := u\<rparr>) = fixed c" "fixed (c\<lparr>c_pingUpdater := u\<rparr>) = fixed c"
  "fixed (c\<lparr>c_sendingWorker := w\<rparr>) = fixed c" "fixed (c\<lparr>c_receivingWorker := r\<rparr>) = fixed c"
  "fixed (c\<lparr>c_roundTrip := rt\<rparr>) = fixed c" "fixed (c\<lparr>c_output := out\<rparr>) = fixed c"
  "fixed (c\<lparr>c_closerClosed := b\<rparr>) = fixed c" "fixed (c\<lparr>c_lastPingTime := t\<rparr>) = fixed c"
  by (simp_all add: fixed_def)

lemma fixed_SetState [fixed_simps]: "fixed (SetState current s c) = fixed c"
  by (cases s) (simp_all add: SetState_def Let_def fixed_simps)

lemma fixed_handlers [fixed_simps]:
  "fixed (HandleOption current opt c) = fixed c" "fixed (on_terminate current c) = fixed c"
  "fixed (Ping current cmd c) = fixed c" "fixed (conn_rFlush current c) = fixed c"
  "fixed (snd (conn_Close current c)) = fixed c"
  by (simp_all add: HandleOption_def OnPeerClosed_def on_terminate_def Ping_def conn_rFlush_def conn_Close_def
      Let_def fixed_simps split: State.split prod.split)

lemma fixed_inputs [fixed_simps]:
  "fixed (Input_Data current d c) = fixed c" "fixed (Input_Ack current a c) = fixed c"
  "fixed (Input_Cmd current m c) = fixed c"
  by (simp_all add: Input_Data_def Input_Ack_def Input_Cmd_def Let_def fixed_simps split: prod.split)

lemma fixed_input_loop: "fixed (input_loop current segs c) = fixed c"
  by (induction current segs c rule: input_loop.induct) (simp_all add: fixed_simps split: Segment.split)

lemma fixed_push_all: "push_all bs k c = (r, rest, n, c') \<Longrightarrow> fixed c' = fixed c"
  by (induction bs k c rule: push_all.induct)
    (auto simp: fixed_simps split: prod.splits bool.splits if_splits)

lemma fixed_sFlush: "conn_sFlush current c = Some c' \<Longrightarrow> fixed c' = fixed c"
  by (auto simp: conn_sFlush_def bind_eq_Some_conv Let_def fixed_simps)

lemma fixed_updateTask: "updateTask current c = Some c' \<Longrightarrow> fixed c' = fixed c"
  by (auto simp: updateTask_def Let_def bind_eq_Some_conv fixed_simps split: if_splits dest!: fixed_sFlush)

lemma fixed_step: "conn_step bufRead c c' \<Longrightarrow> fixed c' = fixed c"
proof (induction rule: conn_step.induct)
  case (input segments c current)
  then show ?case by (simp add: conn_Input_def fixed_input_loop fixed_simps)
next
  case (close current c err c')
  then show ?case using fixed_handlers(5) [of current c] by simp
next
  case (read n c r c')
  then show ?case
    by (auto simp: conn_Read_def bind_eq_Some_conv Let_def fixed_simps split: if_splits)
next
  case (terminate c)
  then show ?case by (simp add: Terminate_def fixed_simps)
qed (auto simp: dataRound_def pingRound_def conn_Write_def fixed_simps split: if_splits
      dest!: fixed_updateTask fixed_push_all)

lemma conn_reachable_fixed:
  assumes "conn_reachable bufRead conv overhead config c"
    and "overhead + 18 \<le> unat (GetMTUValue config)" "unat (GetMTUValue config) < 65536"
  shows "c_conv c = conv \<and> unat (c_mss c) = unat (GetMTUValue config) - overhead - 18"
  using assms(1)
proof induction
  case (new c)
  then show ?case using NewConnection_inv [OF _ assms(2,3)] by blast
next
  case (step c c')
  then show ?case using fixed_step [OF step.hyps(2)] by (simp add: fixed_def)
qed

lemma push_all_spec:
  assumes "push_all bs k c = (r, rest, n, c')"
  shows "\<exists>pre. bs = pre @ rest \<and> n = k + length (concat pre) \<and>
    map snd (win_view (s_window (c_sendingWorker c'))) =
      map snd (win_view (s_window (c_sendingWorker c))) @ map Some pre \<and>
    (\<forall>m. r = Done m \<longrightarrow> rest = [] \<and> m = n)"
  using assms
proof (induction bs k c rule: push_all.induct)
  case (1 k c)
  then show ?case by (auto simp: dataWakeUp_def)
next
  case (2 b bs k c)
  obtain ok w where p: "s_Push b (c_sendingWorker c) = (ok, w)" by fastforce
  show ?case
  proof (cases ok)
    case True
    then obtain pre where pre: "bs = pre @ rest" "n = k + length b + length (concat pre)"
      "map snd (win_view (s_window (c_sendingWorker c'))) = map snd (win_view (s_window w)) @ map Some pre"
      "\<forall>m. r = Done m \<longrightarrow> rest = [] \<and> m = n"
      using 2(1) [OF p [symmetric]] 2(2) p by auto
    have "map snd (win_view (s_window w)) = map snd (win_view (s_window (c_sendingWorker c))) @ [Some b]"
      using p True by (cases b "c_sendingWorker c" rule: s_Push_cases)
        (auto simp: sw_Push_def win_view_def seg_view_def)
    with pre show ?thesis by (intro exI [of _ "b # pre"]) simp
  next
    case False
    with 2(2) p show ?thesis by (intro exI [of _ "[]"]) (auto simp: dataWakeUp_def split: if_splits)
  qed
qed

subsection \<open>Properties of a connection\<close>

definition ex_conn :: Connection where "ex_conn = the (NewConnection 7 6 ex_cfg)"

lemma ex_conn: "NewConnection 7 6 ex_cfg = Some ex_conn"
proof -
  have "\<not> Option.is_none (NewConnection 7 6 ex_cfg)" by code_simp
  then show ?thesis by (auto simp: ex_conn_def Option.is_none_def)
qed

lemma ex_mtu: "6 + 18 \<le> unat (GetMTUValue ex_cfg)" "unat (GetMTUValue ex_cfg) < 65536"
proof -
  have "GetMTUValue ex_cfg = 1350" by code_simp
  then show "6 + 18 \<le> unat (GetMTUValue ex_cfg)" "unat (GetMTUValue ex_cfg) < 65536" by simp_all
qed







text \<open>\<open>Write\<close> hands its argument over completely and in order: on an active connection with a
  non-zero segment size, whatever the outcome, the bytes counted as written are those of the pieces
  pushed, the pieces pushed and the pieces left together are the argument, the payloads in the
  sending window are the old ones followed by the pieces pushed, and a completed write has pushed
  everything.\<close>

theorem conn_Write_pushes:
  assumes "conn_Write b c = (r, rest, n, c')" and "c_state c = StateActive" and "0 < c_mss c"
  shows "\<exists>pre. concat pre @ concat rest = b \<and> n = length (concat pre) \<and>
    map snd (win_view (s_window (c_sendingWorker c'))) =
      map snd (win_view (s_window (c_sendingWorker c))) @ map Some pre \<and>
    (\<forall>m. r = Done m \<longrightarrow> rest = [] \<and> m = length b)"
proof -
  have p: "push_all (chunks (unat (c_mss c)) b) 0 c = (r, rest, n, c')"
    using assms(1,2) by (simp add: conn_Write_def)
  have "concat (chunks (unat (c_mss c)) b) = b"
    using assms(3) by (intro chunks_concat) (simp add: word_less_nat_alt)
  with push_all_spec [OF p] show ?thesis by fastforce
qed

theorem conn_Write_pushes_witness:
  "\<exists>pre rest n r c'. conn_Write [1, 2, 3] ex_conn = (r, rest, n, c') \<and>
     concat pre @ concat rest = [1, 2, 3] \<and> n = length (concat pre)"
proof -
  obtain r rest n c' where w: "conn_Write [1, 2, 3] ex_conn = (r, rest, n, c')" by (metis prod_cases4)
  have "c_state ex_conn = StateActive" "0 < c_mss ex_conn" by code_simp+
  from conn_Write_pushes [OF w this] w show ?thesis by blast
qed

end
