(* ===== verification/MacAddress.thy ===== *)
theory MacAddress
  imports Prelude
begin

section \<open>Hardware addresses (\<open>adapter/network.go\<close>, \<open>net.ParseMAC\<close>)\<close>

text \<open>
  \<open>NormalizeWIFIBSSID\<close> of \<open>adapter/network.go\<close> brings the BSSID of a wireless network to one
  spelling, so that the \<open>wifi_bssid\<close> rule item can compare spellings as map keys. It rests on
  \<open>net.ParseMAC\<close>, \<open>HardwareAddr.String\<close>, \<open>hex.DecodeString\<close> and \<open>strings.TrimSpace\<close> of the
  standard library, which are modelled on byte strings (\<open>TrimSpace\<close> on ASCII white space).
\<close>

subsection \<open>Hexadecimal digits\<close>

definition hex_digit :: "char \<Rightarrow> nat option" where
  "hex_digit c =
     (let n = of_char c :: nat in
      if 48 \<le> n \<and> n \<le> 57 then Some (n - 48)
      else if 97 \<le> n \<and> n \<le> 102 then Some (n - 97 + 10)
      else if 65 \<le> n \<and> n \<le> 70 then Some (n - 65 + 10)
      else None)"

definition hex_char :: "nat \<Rightarrow> char" where
  "hex_char d = (if d < 10 then char_of (48 + d) else char_of (87 + d))"

definition hex_upper :: "nat \<Rightarrow> char" where
  "hex_upper d = (if d < 10 then char_of (48 + d) else char_of (55 + d))"

text \<open>A byte from its two digits, as \<open>xtoi2\<close> and \<open>hex.DecodeString\<close> read it.\<close>

definition hex_byte :: "char \<Rightarrow> char \<Rightarrow> byte option" where
  "hex_byte a b = do { h \<leftarrow> hex_digit a; l \<leftarrow> hex_digit b; Some (of_nat (16 * h + l)) }"

definition byte_hex :: "byte \<Rightarrow> string" where
  "byte_hex b = [hex_char (unat b div 16), hex_char (unat b mod 16)]"

definition byte_HEX :: "byte \<Rightarrow> string" where
  "byte_HEX b = [hex_upper (unat b div 16), hex_upper (unat b mod 16)]"

text \<open>\<open>hex.DecodeString\<close>: an odd length or a character that is no digit is an error.\<close>

fun DecodeString :: "string \<Rightarrow> byte list option" where
  "DecodeString [] = Some []"
| "DecodeString [_] = None"
| "DecodeString (a # b # s) = do { x \<leftarrow> hex_byte a b; xs \<leftarrow> DecodeString s; Some (x # xs) }"

subsection \<open>\<open>net.ParseMAC\<close> and \<open>HardwareAddr.String\<close>\<close>

text \<open>Pairs of digits, each but the last followed by the separator.\<close>

fun mac_pairs :: "char \<Rightarrow> string \<Rightarrow> byte list option" where
  "mac_pairs sep [a, b] = map_option (\<lambda>x. [x]) (hex_byte a b)"
| "mac_pairs sep (a # b # c # s) =
     (if c \<noteq> sep then None
      else do { x \<leftarrow> hex_byte a b; xs \<leftarrow> mac_pairs sep s; Some (x # xs) })"
| "mac_pairs sep _ = None"

text \<open>Groups of four digits separated by dots.\<close>

fun mac_dots :: "string \<Rightarrow> byte list option" where
  "mac_dots [a, b, c, d] = do { x \<leftarrow> hex_byte a b; y \<leftarrow> hex_byte c d; Some [x, y] }"
| "mac_dots (a # b # c # d # p # s) =
     (if p \<noteq> CHR ''.'' then None
      else do { x \<leftarrow> hex_byte a b; y \<leftarrow> hex_byte c d; xs \<leftarrow> mac_dots s; Some (x # y # xs) })"
| "mac_dots _ = None"

definition mac_length :: "nat \<Rightarrow> bool" where "mac_length n \<longleftrightarrow> n = 6 \<or> n = 8 \<or> n = 20"

definition ParseMAC :: "string \<Rightarrow> byte list option" where
  "ParseMAC s =
     (if length s < 14 then None
      else if s ! 2 = CHR '':'' \<or> s ! 2 = CHR ''-'' then
        (if (length s + 1) mod 3 \<noteq> 0 \<or> \<not> mac_length ((length s + 1) div 3) then None
         else mac_pairs (s ! 2) s)
      else if s ! 4 = CHR ''.'' then
        (if (length s + 1) mod 5 \<noteq> 0 \<or> \<not> mac_length (2 * (length s + 1) div 5) then None
         else mac_dots s)
      else None)"

fun HardwareAddr_String :: "byte list \<Rightarrow> string" where
  "HardwareAddr_String [] = []"
| "HardwareAddr_String [b] = byte_hex b"
| "HardwareAddr_String (b # bs) = byte_hex b @ CHR '':'' # HardwareAddr_String bs"

subsection \<open>\<open>NormalizeWIFIBSSID\<close>\<close>

definition is_space :: "char \<Rightarrow> bool" where
  "is_space c \<longleftrightarrow> (let n = of_char c :: nat in n = 32 \<or> (9 \<le> n \<and> n \<le> 13))"

definition TrimSpace :: "string \<Rightarrow> string" where
  "TrimSpace s = rev (dropWhile is_space (rev (dropWhile is_space s)))"

definition NormalizeWIFIBSSID :: "string \<Rightarrow> string" where
  "NormalizeWIFIBSSID raw =
     (let bssid = TrimSpace raw in
      if bssid = [] then []
      else case ParseMAC bssid of
        Some parsed \<Rightarrow> if length parsed = 6 then HardwareAddr_String parsed
          else if length bssid = 12
            then (case DecodeString bssid of Some d \<Rightarrow> HardwareAddr_String d | None \<Rightarrow> bssid)
            else bssid
      | None \<Rightarrow> if length bssid = 12
          then (case DecodeString bssid of Some d \<Rightarrow> HardwareAddr_String d | None \<Rightarrow> bssid)
          else bssid)"

subsection \<open>The digits of a byte\<close>

lemma hex_digit_char [simp]: "d < 16 \<Longrightarrow> hex_digit (hex_char d) = Some d"
  by (cases "d < 10") (auto simp: hex_digit_def hex_char_def)

lemma hex_digit_upper [simp]: "d < 16 \<Longrightarrow> hex_digit (hex_upper d) = Some d"
  by (cases "d < 10") (auto simp: hex_digit_def hex_upper_def)

lemma byte_digits: "unat (b :: byte) div 16 < 16"
  using unsigned_less [of b, where 'a = nat] by simp

lemma of_nat_digits: "16 * of_nat (unat b div 16) + of_nat (unat b mod 16) = (b :: byte)"
proof -
  have e: "(of_nat (unat b) :: byte) = b" by simp
  have "(of_nat (16 * (unat b div 16) + unat b mod 16) :: byte) = of_nat (unat b)"
    by (simp only: mult_div_mod_eq)
  then show ?thesis
    by (simp only: of_nat_add of_nat_mult of_nat_numeral e)
qed

lemma hex_byte_digits [simp]:
  "hex_byte (hex_char (unat b div 16)) (hex_char (unat b mod 16)) = Some b"
  "hex_byte (hex_upper (unat b div 16)) (hex_upper (unat b mod 16)) = Some b"
  using byte_digits [of b] by (simp_all add: hex_byte_def of_nat_digits)

text \<open>No digit is white space or a separator.\<close>

lemma digit_not_space: "hex_digit c = Some d \<Longrightarrow> \<not> is_space c \<and> c \<noteq> CHR '':'' \<and> c \<noteq> CHR ''-'' \<and> c \<noteq> CHR ''.''"
  by (auto simp: hex_digit_def is_space_def Let_def split: if_splits)

lemma byte_hex_plain [simp]:
  assumes "d < 16"
  shows "\<not> is_space (hex_char d)" "\<not> is_space (hex_upper d)"
    "hex_char d \<noteq> CHR '':''" "hex_char d \<noteq> CHR ''-''" "hex_upper d \<noteq> CHR '':''" "hex_upper d \<noteq> CHR ''-''"
  using digit_not_space [OF hex_digit_char [OF assms]] digit_not_space [OF hex_digit_upper [OF assms]]
  by auto

lemma dropWhile_last_rev: "s \<noteq> [] \<Longrightarrow> \<not> P (last s) \<Longrightarrow> dropWhile P (rev s) = rev s"
  by (cases s rule: rev_cases) auto

lemma TrimSpace_id: "s \<noteq> [] \<Longrightarrow> \<not> is_space (hd s) \<Longrightarrow> \<not> is_space (last s) \<Longrightarrow> TrimSpace s = s"
  using dropWhile_last_rev [of s is_space] by (cases s) (auto simp: TrimSpace_def)

lemma TrimSpace_idem [simp]: "TrimSpace (TrimSpace s) = TrimSpace s"
proof (cases "TrimSpace s = []")
  case True
  then show ?thesis by (simp only: True) (simp add: TrimSpace_def)
next
  case False
  define t where "t = dropWhile is_space s"
  have eq: "TrimSpace s = rev (dropWhile is_space (rev t))" by (simp add: TrimSpace_def t_def)
  have "t \<noteq> []" using False eq by auto
  then have hd: "\<not> is_space (hd t)" unfolding t_def by (metis hd_dropWhile)
  have ne: "dropWhile is_space (rev t) \<noteq> []" using False eq by auto
  have "t = TrimSpace s @ rev (takeWhile is_space (rev t))"
    unfolding eq by (metis rev_append rev_rev_ident takeWhile_dropWhile_id)
  then have "hd t = hd (TrimSpace s)" using False by (metis hd_append2)
  moreover have "last (TrimSpace s) = hd (dropWhile is_space (rev t))" using ne eq by (simp add: last_rev)
  ultimately show ?thesis using False hd hd_dropWhile [OF ne] by (intro TrimSpace_id) auto
qed

subsection \<open>Every spelling of an address is normalised to one\<close>

text \<open>The spellings: pairs joined by a separator, groups of four digits joined by dots, twelve digits.\<close>

fun spell_pairs :: "char \<Rightarrow> (byte \<Rightarrow> string) \<Rightarrow> byte list \<Rightarrow> string" where
  "spell_pairs sep f [] = []"
| "spell_pairs sep f [b] = f b"
| "spell_pairs sep f (b # bs) = f b @ sep # spell_pairs sep f bs"

fun spell_dots :: "(byte \<Rightarrow> string) \<Rightarrow> byte list \<Rightarrow> string" where
  "spell_dots f [b, c] = f b @ f c"
| "spell_dots f (b # c # bs) = f b @ f c @ CHR ''.'' # spell_dots f bs"
| "spell_dots f _ = []"

definition spellings :: "byte list \<Rightarrow> string list" where
  "spellings bs = concat (map (\<lambda>f. [spell_pairs (CHR '':'') f bs, spell_pairs (CHR ''-'') f bs,
     spell_dots f bs, concat (map f bs)]) [byte_hex, byte_HEX])"

lemma HardwareAddr_String_pairs: "HardwareAddr_String bs = spell_pairs (CHR '':'') byte_hex bs"
  by (induction bs rule: HardwareAddr_String.induct) auto

lemma list6: "length bs = 6 \<Longrightarrow> \<exists>a b c d e f. bs = [a, b, c, d, e, f]"
  by (auto simp: eval_nat_numeral length_Suc_conv)

lemmas spell_simps = byte_hex_def byte_HEX_def mac_length_def byte_digits

lemmas spell_eval = spellings_def byte_hex_def byte_HEX_def hex_char_def hex_upper_def char_of_def bit_0

lemma ParseMAC_spell6:
  assumes "g \<in> {byte_hex, byte_HEX}" "length bs = 6"
  shows "ParseMAC (spell_pairs (CHR '':'') g bs) = Some bs" "ParseMAC (spell_pairs (CHR ''-'') g bs) = Some bs"
    "ParseMAC (spell_dots g bs) = Some bs"
proof -
  obtain a b c d e f where "bs = [a, b, c, d, e, f]" using list6 assms(2) by blast
  moreover have "g = byte_hex \<or> g = byte_HEX" using assms(1) by simp
  ultimately show "ParseMAC (spell_pairs (CHR '':'') g bs) = Some bs"
    "ParseMAC (spell_pairs (CHR ''-'') g bs) = Some bs" "ParseMAC (spell_dots g bs) = Some bs"
    by (elim disjE; simp add: spell_simps ParseMAC_def)+
qed

lemma plain_spell6:
  assumes "g \<in> {byte_hex, byte_HEX}" "length bs = 6"
  shows "ParseMAC (concat (map g bs)) = None" "DecodeString (concat (map g bs)) = Some bs"
    "length (concat (map g bs)) = 12"
proof -
  obtain a b c d e f where "bs = [a, b, c, d, e, f]" using list6 assms(2) by blast
  moreover have "g = byte_hex \<or> g = byte_HEX" using assms(1) by simp
  ultimately show "ParseMAC (concat (map g bs)) = None" "DecodeString (concat (map g bs)) = Some bs"
    "length (concat (map g bs)) = 12"
    by (elim disjE; simp add: spell_simps ParseMAC_def)+
qed

lemma TrimSpace_spell6:
  assumes "s \<in> set (spellings bs)" "length bs = 6"
  shows "TrimSpace s = s" "s \<noteq> []"
proof -
  obtain a b c d e f where "bs = [a, b, c, d, e, f]" using list6 assms(2) by blast
  then have "s \<noteq> [] \<and> \<not> is_space (hd s) \<and> \<not> is_space (last s)"
    using assms(1) unfolding spellings_def
    by (simp add: spell_simps) (elim disjE; simp add: byte_digits)
  then show "TrimSpace s = s" "s \<noteq> []" using TrimSpace_id by auto
qed

lemma spellings_cases:
  assumes "s \<in> set (spellings bs)"
  shows "\<exists>g. g \<in> {byte_hex, byte_HEX} \<and>
    (s \<in> {spell_pairs (CHR '':'') g bs, spell_pairs (CHR ''-'') g bs, spell_dots g bs} \<or> s = concat (map g bs))"
proof -
  obtain g where "g \<in> set [byte_hex, byte_HEX]" "s \<in> set [spell_pairs (CHR '':'') g bs,
      spell_pairs (CHR ''-'') g bs, spell_dots g bs, concat (map g bs)]"
    using assms unfolding spellings_def set_concat set_map by blast
  then show ?thesis by (intro exI [of _ g]) simp
qed

text \<open>C25. However a user spells the six bytes of a BSSID - pairs separated by colons or dashes, groups
  of four digits separated by dots, or twelve bare digits, in lower or upper case -
  \<open>NormalizeWIFIBSSID\<close> yields the one canonical lower-case colon spelling, which is what the
  \<open>wifi_bssid\<close> rule item compares.\<close>

theorem NormalizeWIFIBSSID_spellings:
  assumes "length bs = 6" "s \<in> set (spellings bs)"
  shows "NormalizeWIFIBSSID s = HardwareAddr_String bs"
proof -
  have s: "TrimSpace s = s" "s \<noteq> []" using TrimSpace_spell6 assms by auto
  consider (pairs) g where "g \<in> {byte_hex, byte_HEX}"
        "s \<in> {spell_pairs (CHR '':'') g bs, spell_pairs (CHR ''-'') g bs, spell_dots g bs}"
    | (plain) g where "g \<in> {byte_hex, byte_HEX}" "s = concat (map g bs)"
    using spellings_cases [OF assms(2)] by blast
  then show ?thesis
  proof cases
    case pairs
    then have "ParseMAC s = Some bs" using ParseMAC_spell6 [OF _ assms(1), of g] by auto
    then show ?thesis using s assms(1) by (simp add: NormalizeWIFIBSSID_def)
  next
    case plain
    have "ParseMAC s = None" "DecodeString s = Some bs" "length s = 12"
      unfolding plain(2) by (rule plain_spell6 [OF plain(1) assms(1)])+
    then show ?thesis using s by (simp add: NormalizeWIFIBSSID_def)
  qed
qed

theorem NormalizeWIFIBSSID_spellings_witness:
  "NormalizeWIFIBSSID ''00-1A-2B-3C-4D-5E'' = ''00:1a:2b:3c:4d:5e'' \<and>
   NormalizeWIFIBSSID ''001A.2B3C.4D5E'' = ''00:1a:2b:3c:4d:5e'' \<and>
   NormalizeWIFIBSSID ''001a2b3c4d5e'' = ''00:1a:2b:3c:4d:5e''"
proof -
  let ?bs = "[0x00, 0x1A, 0x2B, 0x3C, 0x4D, 0x5E] :: byte list"
  have "HardwareAddr_String ?bs = ''00:1a:2b:3c:4d:5e''" by (simp add: spell_eval)
  moreover have "''00-1A-2B-3C-4D-5E'' \<in> set (spellings ?bs)" by (simp add: spell_eval)
  moreover have "''001A.2B3C.4D5E'' \<in> set (spellings ?bs)" by (simp add: spell_eval)
  moreover have "''001a2b3c4d5e'' \<in> set (spellings ?bs)" by (simp add: spell_eval)
  ultimately show ?thesis using NormalizeWIFIBSSID_spellings [of ?bs] by simp
qed

lemma DecodeString_length: "DecodeString s = Some d \<Longrightarrow> length s = 2 * length d"
  by (induction s arbitrary: d rule: DecodeString.induct) (auto split: bind_splits)

lemma NormalizeWIFIBSSID_TrimSpace: "NormalizeWIFIBSSID (TrimSpace s) = NormalizeWIFIBSSID s"
  by (simp add: NormalizeWIFIBSSID_def)

lemma NormalizeWIFIBSSID_cases:
  "NormalizeWIFIBSSID s = TrimSpace s \<or>
   (\<exists>bs. length bs = 6 \<and> NormalizeWIFIBSSID s = HardwareAddr_String bs)"
proof -
  define t where "t = TrimSpace s"
  have norm: "NormalizeWIFIBSSID s = NormalizeWIFIBSSID t" "TrimSpace t = t"
    by (simp_all add: t_def NormalizeWIFIBSSID_TrimSpace)
  consider "t = []" | bs where "t \<noteq> []" "ParseMAC t = Some bs" "length bs = 6"
    | (other) "t \<noteq> []" "\<forall>bs. ParseMAC t = Some bs \<longrightarrow> length bs \<noteq> 6" by blast
  then show ?thesis
  proof cases
    case other
    show ?thesis
    proof (cases "length t = 12 \<and> DecodeString t \<noteq> None")
      case True
      then obtain d where d: "DecodeString t = Some d" "length d = 6"
        using DecodeString_length by fastforce
      then have "NormalizeWIFIBSSID t = HardwareAddr_String d"
        using other True norm(2) by (auto simp: NormalizeWIFIBSSID_def split: option.split)
      then show ?thesis using d norm by auto
    next
      case False
      then have "NormalizeWIFIBSSID t = t"
        using other norm(2) by (auto simp: NormalizeWIFIBSSID_def split: option.split)
      then show ?thesis using norm t_def by simp
    qed
  qed (use norm t_def in \<open>auto simp: NormalizeWIFIBSSID_def\<close>)
qed

text \<open>Normalising is idempotent: a normalised BSSID, whether or not it is an address, is a fixed
  point, so the state reported by the system and the keys of the rule item can be normalised
  independently.\<close>

theorem NormalizeWIFIBSSID_idem: "NormalizeWIFIBSSID (NormalizeWIFIBSSID s) = NormalizeWIFIBSSID s"
proof (cases "\<exists>bs. length bs = 6 \<and> NormalizeWIFIBSSID s = HardwareAddr_String bs")
  case True
  then obtain bs where bs: "length bs = 6" "NormalizeWIFIBSSID s = HardwareAddr_String bs" by blast
  then have "ParseMAC (NormalizeWIFIBSSID s) = Some bs"
    using ParseMAC_spell6(1) [of byte_hex bs] by (simp add: HardwareAddr_String_pairs)
  moreover have "HardwareAddr_String bs \<in> set (spellings bs)"
    by (simp add: spellings_def HardwareAddr_String_pairs)
  ultimately show ?thesis
    using TrimSpace_spell6 [of _ bs] bs by (simp add: NormalizeWIFIBSSID_def [of "HardwareAddr_String bs"])
next
  case False
  then have "NormalizeWIFIBSSID s = TrimSpace s" using NormalizeWIFIBSSID_cases by blast
  then show ?thesis by (simp add: NormalizeWIFIBSSID_TrimSpace)
qed

end
