(* ===== verification/NetAddr.thy ===== *)
theory NetAddr
  imports Prelude
begin

section \<open>Addresses and prefixes (\<open>net/netip\<close>)\<close>

text \<open>
  What the repository uses of the standard library's \<open>net/netip\<close>: IPv4 and IPv6 addresses (without
  zones), their successor, prefixes, containment and overlap. An address is a word of its family's
  width; the zero \<open>netip.Addr\<close> is \<open>AddrInvalid\<close>.
\<close>

datatype Addr = AddrInvalid | Addr4 u32 | Addr6 "128 word"

fun IsValid :: "Addr \<Rightarrow> bool" where
  "IsValid AddrInvalid \<longleftrightarrow> False"
| "IsValid _ \<longleftrightarrow> True"

fun Is4 :: "Addr \<Rightarrow> bool" where
  "Is4 (Addr4 _) \<longleftrightarrow> True"
| "Is4 _ \<longleftrightarrow> False"

fun BitLen :: "Addr \<Rightarrow> nat" where
  "BitLen AddrInvalid = 0"
| "BitLen (Addr4 _) = 32"
| "BitLen (Addr6 _) = 128"

fun Unmap :: "Addr \<Rightarrow> Addr" where
  "Unmap (Addr6 a) = (if drop_bit 32 a = 0xFFFF then Addr4 (ucast a) else Addr6 a)"
| "Unmap a = a"

text \<open>A prefix; the zero value of the type has length \<open>-1\<close>.\<close>

record Prefix =
  p_addr :: Addr
  p_bits :: int

definition ZeroPrefix :: Prefix where "ZeroPrefix = \<lparr>p_addr = AddrInvalid, p_bits = -1\<rparr>"

definition Prefix_IsValid :: "Prefix \<Rightarrow> bool" where
  "Prefix_IsValid p \<longleftrightarrow> IsValid (p_addr p) \<and> 0 \<le> p_bits p \<and> p_bits p \<le> int (BitLen (p_addr p))"

text \<open>The bits of an address below a prefix length, with the family.\<close>

fun top_bits :: "nat \<Rightarrow> Addr \<Rightarrow> Addr" where
  "top_bits n AddrInvalid = AddrInvalid"
| "top_bits n (Addr4 a) = Addr4 (drop_bit (32 - n) a)"
| "top_bits n (Addr6 a) = Addr6 (drop_bit (128 - n) a)"

definition Prefix_Contains :: "Prefix \<Rightarrow> Addr \<Rightarrow> bool" where
  "Prefix_Contains p ip \<longleftrightarrow> Prefix_IsValid p \<and> BitLen (p_addr p) = BitLen ip \<and>
     top_bits (nat (p_bits p)) (p_addr p) = top_bits (nat (p_bits p)) ip"

definition Overlaps :: "Prefix \<Rightarrow> Prefix \<Rightarrow> bool" where
  "Overlaps p q \<longleftrightarrow> Prefix_IsValid p \<and> Prefix_IsValid q \<and>
     (p = q \<or> (Is4 (p_addr p) = Is4 (p_addr q) \<and>
        (let minBits = min (p_bits p) (p_bits q) in
         minBits = 0 \<or> top_bits (nat minBits) (p_addr p) = top_bits (nat minBits) (p_addr q))))"

text \<open>\<open>Addr.Next\<close>: the zero address after the last one of a family.\<close>

fun Next :: "Addr \<Rightarrow> Addr" where
  "Next AddrInvalid = AddrInvalid"
| "Next (Addr4 a) = (if a + 1 = 0 then AddrInvalid else Addr4 (a + 1))"
| "Next (Addr6 a) = (if a + 1 = 0 then AddrInvalid else Addr6 (a + 1))"

subsection \<open>Addresses as byte arrays\<close>

text \<open>The big-endian bytes of a word of \<open>8 n\<close> bits, and the word of a byte array.\<close>

definition be_bytes :: "nat \<Rightarrow> 'a::len word \<Rightarrow> byte list" where
  "be_bytes n w = map (\<lambda>k. ucast (drop_bit (8 * (n - 1 - k)) w)) [0..<n]"

definition from_be :: "byte list \<Rightarrow> 'a::len word" where
  "from_be bs = foldl (\<lambda>w b. push_bit 8 w OR ucast b) 0 bs"

lemma length_be_bytes [simp]: "length (be_bytes n w) = n"
  by (simp add: be_bytes_def)

lemma bit_be_bytes: "k < n \<Longrightarrow> bit (be_bytes n w ! k) m \<longleftrightarrow> m < 8 \<and> bit w (8 * (n - 1 - k) + m)"
  by (auto simp: be_bytes_def bit_ucast_iff bit_drop_bit_eq ac_simps)

lemma bit_from_be:
  "bit (from_be bs :: 'a::len word) j \<longleftrightarrow>
     j < LENGTH('a) \<and> j < 8 * length bs \<and> bit (bs ! (length bs - 1 - j div 8)) (j mod 8)"
proof (induction bs arbitrary: j rule: rev_induct)
  case Nil
  then show ?case by (simp add: from_be_def)
next
  case (snoc b bs)
  have step: "bit (from_be (bs @ [b]) :: 'a word) j \<longleftrightarrow>
      j < LENGTH('a) \<and> (if j < 8 then bit b j else bit (from_be bs :: 'a word) (j - 8))"
    by (auto simp: from_be_def bit_or_iff bit_push_bit_iff bit_ucast_iff dest: bit_imp_le_length)
  show ?case
  proof (cases "j < 8")
    case True
    then show ?thesis using step by (simp add: nth_append)
  next
    case False
    then obtain i where j: "j = i + 8" by (metis add.commute le_Suc_ex not_less)
    have d: "j div 8 = Suc (i div 8)" "j mod 8 = i mod 8" using j by simp_all
    have "(bs @ [b]) ! (length (bs @ [b]) - 1 - j div 8) = bs ! (length bs - 1 - i div 8)" if "i < 8 * length bs"
      proof -
      have "length bs - 1 - i div 8 < length bs" using that by (cases bs) simp_all
      then show ?thesis unfolding d by (simp add: nth_append_left)
    qed
    then show ?thesis
      unfolding step snoc.IH using False unfolding d(2) j by auto
  qed
qed

lemma from_be_bytes: "LENGTH('a) = 8 * n \<Longrightarrow> from_be (be_bytes n w) = (w :: 'a::len word)"
proof (rule bit_word_eqI)
  fix j assume n: "LENGTH('a) = 8 * n" and j: "j < LENGTH('a)"
  then have "j div 8 < n" by auto
  then have "bit (be_bytes n w ! (n - 1 - j div 8)) (j mod 8) \<longleftrightarrow> bit w (8 * (j div 8) + j mod 8)"
    by (subst bit_be_bytes) auto
  then show "bit (from_be (be_bytes n w) :: 'a word) j = bit w j"
    using n j by (simp add: bit_from_be)
qed

lemma be_bytes_from_be:
  assumes "LENGTH('a) = 8 * length bs"
  shows "be_bytes (length bs) (from_be bs :: 'a::len word) = bs"
proof (rule nth_equalityI)
  fix k assume k: "k < length (be_bytes (length bs) (from_be bs :: 'a word))"
  show "be_bytes (length bs) (from_be bs :: 'a word) ! k = bs ! k"
  proof (rule bit_word_eqI)
    fix m assume m: "m < LENGTH(8)"
    have "8 * (length bs - 1 - k) + m < 8 * length bs" using k m by auto
    moreover have "length bs - 1 - (8 * (length bs - 1 - k) + m) div 8 = k" using k m by auto
    moreover have "(8 * (length bs - 1 - k) + m) mod 8 = m" using m by auto
    ultimately show "bit (be_bytes (length bs) (from_be bs :: 'a word) ! k) m = bit (bs ! k) m"
      using k m assms by (simp add: bit_be_bytes bit_from_be)
  qed
qed simp

fun AsSlice :: "Addr \<Rightarrow> byte list" where
  "AsSlice AddrInvalid = []"
| "AsSlice (Addr4 a) = be_bytes 4 a"
| "AsSlice (Addr6 a) = be_bytes 16 a"

text \<open>\<open>As16\<close>: an IPv4 address is mapped into IPv6.\<close>

fun As16 :: "Addr \<Rightarrow> byte list" where
  "As16 AddrInvalid = replicate 16 0"
| "As16 (Addr4 a) = replicate 10 0 @ [0xFF, 0xFF] @ be_bytes 4 a"
| "As16 (Addr6 a) = be_bytes 16 a"

definition AddrFrom4 :: "byte list \<Rightarrow> Addr" where "AddrFrom4 bs = Addr4 (from_be bs)"
definition AddrFrom16 :: "byte list \<Rightarrow> Addr" where "AddrFrom16 bs = Addr6 (from_be bs)"

subsection \<open>Binary encodings\<close>

definition Addr_MarshalBinary :: "Addr \<Rightarrow> byte list" where "Addr_MarshalBinary a = AsSlice a"

text \<open>\<open>Addr.UnmarshalBinary\<close>; more than sixteen bytes would carry a zone and are rejected here.\<close>

definition Addr_UnmarshalBinary :: "byte list \<Rightarrow> string + Addr" where
  "Addr_UnmarshalBinary b =
     (if length b = 0 then Inr AddrInvalid
      else if length b = 4 then Inr (AddrFrom4 b)
      else if length b = 16 then Inr (AddrFrom16 b)
      else Inl ''unexpected slice size'')"

definition Prefix_MarshalBinary :: "Prefix \<Rightarrow> byte list" where
  "Prefix_MarshalBinary p = AsSlice (p_addr p) @ [of_int (p_bits p)]"

text \<open>\<open>PrefixFrom\<close>: lengths outside the family's range give an invalid prefix, of length -1.\<close>

definition PrefixFrom :: "Addr \<Rightarrow> int \<Rightarrow> Prefix" where
  "PrefixFrom a bits = \<lparr>p_addr = a, p_bits = (if IsValid a \<and> 0 \<le> bits \<and> bits \<le> int (BitLen a) then bits else -1)\<rparr>"

definition Prefix_UnmarshalBinary :: "byte list \<Rightarrow> string + Prefix" where
  "Prefix_UnmarshalBinary b =
     (if b = [] then Inl ''unexpected slice size''
      else case Addr_UnmarshalBinary (butlast b) of
        Inl err \<Rightarrow> Inl err
      | Inr a \<Rightarrow> Inr (PrefixFrom a (uint (last b))))"

lemma length_AsSlice: "length (AsSlice a) = BitLen a div 8"
  by (cases a) simp_all

lemma Addr_binary_roundtrip [simp]: "Addr_UnmarshalBinary (Addr_MarshalBinary a) = Inr a"
  by (cases a)
     (simp_all add: Addr_MarshalBinary_def Addr_UnmarshalBinary_def AddrFrom4_def AddrFrom16_def from_be_bytes)

text \<open>Prefixes as the library builds them: valid ones, and the zero prefix.\<close>

definition Prefix_ok :: "Prefix \<Rightarrow> bool" where
  "Prefix_ok p \<longleftrightarrow> Prefix_IsValid p \<or> p = ZeroPrefix"

lemma Prefix_binary_roundtrip [simp]:
  assumes "Prefix_ok p"
  shows "Prefix_UnmarshalBinary (Prefix_MarshalBinary p) = Inr p"
proof -
  have "BitLen (p_addr p) \<le> 128" by (cases "p_addr p") simp_all
  then have "uint (of_int (p_bits p) :: byte) = (if p_bits p = -1 then 255 else p_bits p)"
    using assms by (auto simp: Prefix_ok_def Prefix_IsValid_def ZeroPrefix_def uint_word_of_int)
  then show ?thesis
    using assms Addr_binary_roundtrip [of "p_addr p"]
    by (cases p) (auto simp: Prefix_UnmarshalBinary_def Prefix_MarshalBinary_def Addr_MarshalBinary_def
        PrefixFrom_def Prefix_ok_def Prefix_IsValid_def ZeroPrefix_def)
qed

subsection \<open>Addresses as numbers\<close>

fun addr_val :: "Addr \<Rightarrow> nat" where
  "addr_val AddrInvalid = 0"
| "addr_val (Addr4 a) = unat a"
| "addr_val (Addr6 a) = unat a"

text \<open>The number of host bits of a prefix.\<close>

definition host_bits :: "Prefix \<Rightarrow> nat" where
  "host_bits p = BitLen (p_addr p) - nat (p_bits p)"

lemma addr_val_less: "addr_val a < 2 ^ BitLen a"
  using unsigned_less [where 'b = 32 and 'a = nat] unsigned_less [where 'b = 128 and 'a = nat] by (cases a) simp_all

lemma addr_eq_iff: "a = b \<longleftrightarrow> BitLen a = BitLen b \<and> addr_val a = addr_val b"
  by (cases a; cases b) (simp_all add: word_unat_eq_iff)

lemma BitLen_cases: "BitLen a = 0 \<longleftrightarrow> a = AddrInvalid" "IsValid a \<longleftrightarrow> BitLen a \<noteq> 0"
  by (cases a; simp)+

lemma Is4_BitLen: "Is4 a \<longleftrightarrow> BitLen a = 32"
  by (cases a) simp_all

lemma unat_Suc: "unat w + 1 < 2 ^ LENGTH('a) \<Longrightarrow> unat (w + 1) = unat w + 1 \<and> w + 1 \<noteq> 0" for w :: "'a::len word"
  by (metis add_is_0 one_neq_zero unat_0 unat_word_ariths(1) mod_less unat_1)

lemma addr_val_Next:
  assumes "addr_val a + 1 < 2 ^ BitLen a"
  shows "addr_val (Next a) = addr_val a + 1" "BitLen (Next a) = BitLen a"
  using assms unat_Suc [where 'a = 32] unat_Suc [where 'a = 128] by (cases a; simp)+

lemma drop_bit_unat_eq: "drop_bit n v = drop_bit n w \<longleftrightarrow> unat w div 2 ^ n = unat v div 2 ^ n" for v w :: "'a::len word"
  unfolding word_unat_eq_iff unat_drop_bit_eq by (auto simp: drop_bit_eq_div)

lemma Prefix_Contains_val:
  assumes "Prefix_IsValid p"
  shows "Prefix_Contains p ip \<longleftrightarrow> BitLen ip = BitLen (p_addr p) \<and>
     addr_val ip div 2 ^ host_bits p = addr_val (p_addr p) div 2 ^ host_bits p"
  using assms
  by (cases ip; cases "p_addr p") (auto simp: Prefix_Contains_def Prefix_IsValid_def host_bits_def drop_bit_unat_eq)

lemma Prefix_Contains_base: "Prefix_IsValid p \<Longrightarrow> Prefix_Contains p (p_addr p)"
  by (simp add: Prefix_Contains_val)

lemma unat_or_mask: "unat (w OR mask n) = unat w div 2 ^ n * 2 ^ n + (2 ^ n - 1)"
  if "n \<le> LENGTH('a)" for w :: "'a::len word"
proof -
  have u: "unat (w OR mask n) = unat w OR mask n"
    using that by (intro bit_eqI) (auto simp: bit_unsigned_iff bit_or_iff bit_mask_iff dest: bit_imp_le_length)
  have d: "(unat w OR mask n) div 2 ^ n = unat w div 2 ^ n"
    by (simp add: drop_bit_mask_eq flip: drop_bit_eq_div)
  have m: "(unat w OR mask n) mod 2 ^ n = 2 ^ n - 1"
    unfolding take_bit_eq_mod [symmetric] mask_eq_exp_minus_1 [symmetric]
    by (rule bit_eqI) (auto simp: bit_take_bit_iff bit_or_iff bit_mask_iff)
  show ?thesis
    unfolding u using div_mult_mod_eq [of "unat w OR mask n" "2 ^ n"] d m by simp
qed

lemma length_As16 [simp]: "length (As16 a) = 16"
  by (cases a) simp_all

end
