(* ===== verification/RuleContext.thy ===== *)
theory RuleContext
  imports MacAddress NetAddr
begin

section \<open>What routing rules look at (\<open>adapter/inbound.go\<close>)\<close>

text \<open>
  DNS messages as far as rules inspect them, the \<open>InboundContext\<close> that a connection or query carries
  through the rules, and the
  environment: what rules ask of the network manager, the Clash server and of libraries outside the
  repository. The context is a record with the fields that some rule reads or writes; the others
  (routing results, timeouts, TLS options and the like) are left out.

  The library functions the rules rely on (the address classification of \<open>sing\<close>, the domain matchers,
  regular expressions, the IP set builder, textual address parsing, \<open>dns.IsDuplicate\<close>) are fields of
  the environment. The generic list helpers of \<open>sing/common\<close> (\<open>Any\<close>, \<open>All\<close>, \<open>Contains\<close>, \<open>Find\<close>,
  \<open>Map\<close>, \<open>FlatMap\<close>) are the list functions of that meaning. Strings are lists of bytes; \<open>ToLower\<close>
  and \<open>EqualFold\<close> act on ASCII letters.
\<close>

subsection \<open>Strings\<close>

definition ToLower_char :: "char \<Rightarrow> char" where
  "ToLower_char c = (let n = of_char c :: nat in if 65 \<le> n \<and> n \<le> 90 then char_of (n + 32) else c)"

definition ToLower :: "string \<Rightarrow> string" where "ToLower s = map ToLower_char s"

definition EqualFold :: "string \<Rightarrow> string \<Rightarrow> bool" where
  "EqualFold s t \<longleftrightarrow> ToLower s = ToLower t"

fun HasPrefix :: "string \<Rightarrow> string \<Rightarrow> bool" where
  "HasPrefix _ [] \<longleftrightarrow> True"
| "HasPrefix [] (_ # _) \<longleftrightarrow> False"
| "HasPrefix (a # s) (b # t) \<longleftrightarrow> a = b \<and> HasPrefix s t"

text \<open>\<open>strings.Contains\<close> and \<open>strings.Index\<close>.\<close>

fun Index :: "string \<Rightarrow> string \<Rightarrow> nat option" where
  "Index s t = (if HasPrefix s t then Some 0
     else case s of [] \<Rightarrow> None | _ # s' \<Rightarrow> map_option Suc (Index s' t))"

declare Index.simps [simp del]

definition Contains :: "string \<Rightarrow> string \<Rightarrow> bool" where
  "Contains s t \<longleftrightarrow> Index s t \<noteq> None"

text \<open>\<open>filepath.Base\<close> with the separator \<open>/\<close>.\<close>

definition Base :: "string \<Rightarrow> string" where
  "Base path =
     (if path = [] then ''.''
      else let p = rev (dropWhile (\<lambda>c. c = CHR ''/'') (rev path));
               b = rev (takeWhile (\<lambda>c. c \<noteq> CHR ''/'') (rev p))
           in if b = [] then ''/'' else b)"

subsection \<open>Socket addresses\<close>

record Socksaddr =
  sa_Addr :: Addr
  sa_Port :: u16
  sa_Fqdn :: string

subsection \<open>DNS messages\<close>

datatype SVCBKeyValue = SVCBIPv4Hint "byte list list" | SVCBIPv6Hint "byte list list" | SVCBOther

text \<open>Resource records: addresses as the raw IP of the message, everything else by its text.\<close>

datatype RR = RR_A "byte list" | RR_AAAA "byte list" | RR_HTTPS "SVCBKeyValue list" | RR_Other string

record Msg =
  m_Rcode :: int
  m_Answer :: "RR list"
  m_Ns :: "RR list"
  m_Extra :: "RR list"

definition RcodeSuccess :: int where "RcodeSuccess = 0"

subsection \<open>Context\<close>

record ConnectionOwner =
  co_ProcessID :: u32
  co_UserId :: int
  co_UserName :: string
  co_ProcessPath :: string
  co_AndroidPackageNames :: "string list"

record InboundContext =
  Inbound :: string
  IPVersion :: u8
  Network :: string
  Source :: Socksaddr
  Destination :: Socksaddr
  User :: string
  Outbound :: string
  Protocol :: string
  Domain :: string
  Client :: string
  DestinationAddresses :: "Addr list"
  DNSResponse :: "Msg option"
  NamedDNSResponses :: "string \<rightharpoonup> Msg"
  DestinationAddressMatchFromResponse :: bool
  ProcessInfo :: "ConnectionOwner option"
  SourceMACAddress :: "byte list option"
  SourceHostname :: string
  QueryType :: u16
  QueryClientSubnet :: Prefix
  QueryDNSSEC :: bool
  IPCIDRMatchSource :: bool
  IPCIDRAcceptEmpty :: bool
  SourceAddressMatch :: bool
  SourcePortMatch :: bool
  DestinationAddressMatch :: bool
  DestinationPortMatch :: bool
  DeferredIPCIDRMatchGroups :: u8
  IgnoreDestinationIPCIDRMatch :: bool

definition ResetRuleMatchCache :: "InboundContext \<Rightarrow> InboundContext" where
  "ResetRuleMatchCache c = c\<lparr>SourceAddressMatch := False, SourcePortMatch := False,
     DestinationAddressMatch := False, DestinationPortMatch := False,
     DeferredIPCIDRMatchGroups := 0\<rparr>"

definition ResetRuleCache :: "InboundContext \<Rightarrow> InboundContext" where
  "ResetRuleCache c = ResetRuleMatchCache (c\<lparr>IPCIDRMatchSource := False, IPCIDRAcceptEmpty := False\<rparr>)"

subsection \<open>Environment\<close>

datatype InterfaceType = InterfaceTypeWIFI | InterfaceTypeCellular | InterfaceTypeEthernet
  | InterfaceTypeOther

record Interface =
  if_Name :: string
  if_Addresses :: "Prefix list"

record NetworkInterface =
  ni_Interface :: Interface
  ni_Type :: InterfaceType
  ni_Expensive :: bool
  ni_Constrained :: bool

record WIFIState =
  SSID :: string
  BSSID :: string

text \<open>The state of the network manager and the Clash server, then the library functions.\<close>

record env =
  e_DefaultNetworkInterface :: "NetworkInterface option"
  e_NetworkInterfaces :: "NetworkInterface list"
  e_Interfaces :: "Interface list"
  e_MyInterfaces :: "string list"
  e_DefaultInterface :: "Interface option"
  e_WIFIState :: WIFIState
  e_ClashMode :: "string option"
  e_IsAndroid :: bool
  e_IsIP :: "Socksaddr \<Rightarrow> bool"
  e_IsIPv6 :: "Socksaddr \<Rightarrow> bool"
  e_IsPublicAddr :: "Addr \<Rightarrow> bool"
  e_AddrFromIP :: "byte list \<Rightarrow> Addr"
  e_IsDuplicate :: "RR \<Rightarrow> RR \<Rightarrow> bool"
  e_CanonicalName :: "string \<Rightarrow> string"
  e_NewMatcher :: "string list \<Rightarrow> string list \<Rightarrow> string \<Rightarrow> bool"
  e_NewAdGuardMatcher :: "string list \<Rightarrow> string \<Rightarrow> bool"
  e_Compile :: "string \<Rightarrow> (string \<Rightarrow> bool) option"
  e_ParsePrefix :: "string \<Rightarrow> Prefix option"
  e_ParseAddr :: "string \<Rightarrow> Addr option"
  e_IPSet :: "(Prefix + Addr) list \<Rightarrow> (Addr \<Rightarrow> bool) option"

text \<open>\<open>DNSResponseAddresses\<close>: the valid addresses of a successful response, address records and
  address hints of HTTPS records alike.\<close>

definition hint_addresses :: "env \<Rightarrow> SVCBKeyValue \<Rightarrow> Addr list" where
  "hint_addresses e value =
     (case value of
        SVCBIPv4Hint ips \<Rightarrow> filter IsValid (map (\<lambda>ip. Unmap (e_AddrFromIP e ip)) ips)
      | SVCBIPv6Hint ips \<Rightarrow> filter IsValid (map (e_AddrFromIP e) ips)
      | SVCBOther \<Rightarrow> [])"

definition record_addresses :: "env \<Rightarrow> RR \<Rightarrow> Addr list" where
  "record_addresses e rr =
     (case rr of
        RR_A ip \<Rightarrow> filter IsValid [e_AddrFromIP e ip]
      | RR_AAAA ip \<Rightarrow> filter IsValid [e_AddrFromIP e ip]
      | RR_HTTPS values \<Rightarrow> concat (map (hint_addresses e) values)
      | RR_Other _ \<Rightarrow> [])"

definition DNSResponseAddresses :: "env \<Rightarrow> Msg option \<Rightarrow> Addr list" where
  "DNSResponseAddresses e response =
     (case response of
        None \<Rightarrow> []
      | Some m \<Rightarrow> if m_Rcode m \<noteq> RcodeSuccess then []
          else concat (map (record_addresses e) (m_Answer m)))"

definition DNSResponseAddressesForMatch :: "env \<Rightarrow> InboundContext \<Rightarrow> Addr list" where
  "DNSResponseAddressesForMatch e c = DNSResponseAddresses e (DNSResponse c)"

end
