(* ===== verification/RuleItems.thy ===== *)
theory RuleItems
  imports RuleContext
begin

section \<open>Rule items (\<open>route/rule/rule_item_*.go\<close>, \<open>rule_*interface_address.go\<close>)\<close>

text \<open>
  A rule item is one condition of a rule. The source has one struct per kind of condition, with a
  constructor \<open>New...\<close> and a method \<open>Match\<close>; here each kind has a constructor of the datatype
  \<open>rule_item\<close> with the fields that \<open>Match\<close> reads, a function \<open>New...\<close> and a function \<open>..._Match\<close>,
  and \<open>item_Match\<close> is the dynamic dispatch of the interface \<open>RuleItem\<close>. A constructor that can fail
  returns an error message on the left of a sum. Fields that only serve the textual description of
  an item, and the methods \<open>String\<close>, are left out. The rule-set item refers to rules and is in
  theory \<open>RuleMatch\<close>.

  Items that the source resolves in \<open>Start\<close> (\<open>ClashModeItem\<close>, \<open>PreferredByItem\<close>,
  \<open>PreferredByDNSItem\<close>) carry what \<open>Start\<close> resolved: outbounds and DNS transports are represented
  by their methods \<open>PreferredDomain\<close> and \<open>PreferredAddress\<close>.
\<close>

record PreferredRoutes =
  PreferredDomain :: "InboundContext \<Rightarrow> string \<Rightarrow> bool"
  PreferredAddress :: "InboundContext \<Rightarrow> Addr \<Rightarrow> bool"

record rangeItem =
  ri_start :: u16
  ri_end :: u16

datatype rule_item =
    InboundItem "string \<rightharpoonup> bool"
  | IPVersionItem bool
  | NetworkItem "string \<rightharpoonup> bool"
  | AuthUserItem "string \<rightharpoonup> bool"
  | ProtocolItem "string \<rightharpoonup> bool"
  | ClientItem "string \<rightharpoonup> bool"
  | DomainItem "string \<Rightarrow> bool"
  | DomainKeywordItem "string list"
  | DomainRegexItem "(string \<Rightarrow> bool) list"
  | AdGuardDomainItem "string \<Rightarrow> bool"
  | IPCIDRItem "Addr \<Rightarrow> bool" bool
  | IPIsPrivateItem bool
  | IPAcceptAnyItem
  | PortItem "u16 \<rightharpoonup> bool" bool
  | PortRangeItem bool "rangeItem list"
  | ProcessItem "string \<rightharpoonup> bool"
  | ProcessPathItem "string \<rightharpoonup> bool"
  | ProcessPathRegexItem "(string \<Rightarrow> bool) list"
  | PackageNameItem "string \<rightharpoonup> bool"
  | PackageNameRegexItem "(string \<Rightarrow> bool) list"
  | UserItem "string \<rightharpoonup> bool"
  | UserIdItem "int \<rightharpoonup> bool"
  | OutboundItem "string \<rightharpoonup> bool" bool
  | ClashModeItem string bool
  | NetworkTypeItem "InterfaceType list"
  | NetworkIsExpensiveItem
  | NetworkIsConstrainedItem
  | WIFISSIDItem "string \<rightharpoonup> bool"
  | WIFIBSSIDItem "string \<rightharpoonup> bool"
  | InterfaceAddressItem "(string \<times> Prefix list) list"
  | NetworkInterfaceAddressItem "(InterfaceType \<times> Prefix list) list"
  | DefaultInterfaceAddressItem "Prefix list"
  | SourceMACAddressItem "string \<rightharpoonup> bool"
  | SourceHostnameItem "string \<rightharpoonup> bool"
  | PreferredByItem "PreferredRoutes list"
  | PreferredByDNSItem "(string \<Rightarrow> bool) list"
  | QueryTypeItem "u16 \<rightharpoonup> bool"
  | QueryClientSubnetItem "Prefix list"
  | QueryDNSSECItem
  | DNSResponseRCodeItem int
  | DNSResponseRecordItem "RR option list" "Msg \<Rightarrow> RR list"

subsection \<open>Constructors\<close>

definition NewInboundRule :: "string list \<Rightarrow> rule_item" where
  "NewInboundRule inbounds = InboundItem (set_all Map.empty inbounds)"

definition NewIPVersionItem :: "bool \<Rightarrow> rule_item" where
  "NewIPVersionItem isIPv6 = IPVersionItem isIPv6"

definition NewNetworkItem :: "string list \<Rightarrow> rule_item" where
  "NewNetworkItem networks = NetworkItem (set_all Map.empty networks)"

definition NewAuthUserItem :: "string list \<Rightarrow> rule_item" where
  "NewAuthUserItem users = AuthUserItem (set_all Map.empty users)"

definition NewProtocolItem :: "string list \<Rightarrow> rule_item" where
  "NewProtocolItem protocols = ProtocolItem (set_all Map.empty protocols)"

definition NewClientItem :: "string list \<Rightarrow> rule_item" where
  "NewClientItem clients = ClientItem (set_all Map.empty clients)"

definition NewDomainItem :: "env \<Rightarrow> string list \<Rightarrow> string list \<Rightarrow> string + rule_item" where
  "NewDomainItem e domains domainSuffixes =
     (if [] \<in> set domains then Inl ''domain: empty item is not allowed''
      else if [] \<in> set domainSuffixes then Inl ''domain_suffix: empty item is not allowed''
      else Inr (DomainItem (e_NewMatcher e domains domainSuffixes)))"

definition NewRawDomainItem :: "(string \<Rightarrow> bool) \<Rightarrow> rule_item" where
  "NewRawDomainItem matcher = DomainItem matcher"

definition NewDomainKeywordItem :: "string list \<Rightarrow> rule_item" where
  "NewDomainKeywordItem keywords = DomainKeywordItem keywords"

text \<open>The loop over regular expressions is the same in the three constructors that have one: it
  stops at the first expression that does not compile.\<close>

fun compile_all :: "env \<Rightarrow> string list \<Rightarrow> string + (string \<Rightarrow> bool) list" where
  "compile_all e [] = Inr []"
| "compile_all e (regex # rs) =
     (case e_Compile e regex of
        None \<Rightarrow> Inl ''parse expression''
      | Some matcher \<Rightarrow> (case compile_all e rs of Inl err \<Rightarrow> Inl err | Inr ms \<Rightarrow> Inr (matcher # ms)))"

definition NewDomainRegexItem :: "env \<Rightarrow> string list \<Rightarrow> string + rule_item" where
  "NewDomainRegexItem e expressions = map_sum id DomainRegexItem (compile_all e expressions)"

definition NewAdGuardDomainItem :: "env \<Rightarrow> string list \<Rightarrow> rule_item" where
  "NewAdGuardDomainItem e ruleLines = AdGuardDomainItem (e_NewAdGuardMatcher e ruleLines)"

definition NewRawAdGuardDomainItem :: "(string \<Rightarrow> bool) \<Rightarrow> rule_item" where
  "NewRawAdGuardDomainItem matcher = AdGuardDomainItem matcher"

text \<open>The loop of \<open>NewIPCIDRItem\<close>: what is added to the set builder, in order.\<close>

fun parse_cidrs :: "env \<Rightarrow> string list \<Rightarrow> string + (Prefix + Addr) list" where
  "parse_cidrs e [] = Inr []"
| "parse_cidrs e (s # ss) =
     (case e_ParsePrefix e s of
        Some prefix \<Rightarrow> map_sum id ((#) (Inl prefix)) (parse_cidrs e ss)
      | None \<Rightarrow>
         (case e_ParseAddr e s of
            Some addr \<Rightarrow> map_sum id ((#) (Inr addr)) (parse_cidrs e ss)
          | None \<Rightarrow> Inl ''parse''))"

definition NewIPCIDRItem :: "env \<Rightarrow> bool \<Rightarrow> string list \<Rightarrow> string + rule_item" where
  "NewIPCIDRItem e isSource prefixStrings =
     (case parse_cidrs e prefixStrings of
        Inl err \<Rightarrow> Inl err
      | Inr entries \<Rightarrow>
         (case e_IPSet e entries of
            None \<Rightarrow> Inl ''ip set''
          | Some ipSet \<Rightarrow> Inr (IPCIDRItem ipSet isSource)))"

definition NewRawIPCIDRItem :: "bool \<Rightarrow> (Addr \<Rightarrow> bool) \<Rightarrow> rule_item" where
  "NewRawIPCIDRItem isSource ipSet = IPCIDRItem ipSet isSource"

definition NewIPIsPrivateItem :: "bool \<Rightarrow> rule_item" where
  "NewIPIsPrivateItem isSource = IPIsPrivateItem isSource"

definition NewIPAcceptAnyItem :: rule_item where
  "NewIPAcceptAnyItem = IPAcceptAnyItem"

definition NewPortItem :: "bool \<Rightarrow> u16 list \<Rightarrow> rule_item" where
  "NewPortItem isSource ports = PortItem (set_all Map.empty ports) isSource"

text \<open>\<open>strconv.ParseUint(s, 10, 16)\<close>: digits only, at least one, and a value below \<open>2 ^ 16\<close>.\<close>

fun decimal :: "nat \<Rightarrow> string \<Rightarrow> nat option" where
  "decimal n [] = Some n"
| "decimal n (c # s) =
     (let d = of_char c :: nat in
      if 48 \<le> d \<and> d \<le> 57 then decimal (10 * n + (d - 48)) s else None)"

definition ParseUint16 :: "string \<Rightarrow> nat option" where
  "ParseUint16 s =
     (if s = [] then None
      else case decimal 0 s of
        None \<Rightarrow> None
      | Some n \<Rightarrow> if n < 65536 then Some n else None)"

text \<open>One round of the loop of \<open>NewPortRangeItem\<close>. An empty start is 0, an empty end \<open>0xFFFF\<close>.\<close>

definition parse_port_range :: "string \<Rightarrow> string + rangeItem" where
  "parse_port_range portRange =
     (case Index portRange '':'' of
        None \<Rightarrow> Inl ''bad port range''
      | Some subIndex \<Rightarrow>
         (case (if subIndex > 0 then ParseUint16 (take subIndex portRange) else Some 0) of
            None \<Rightarrow> Inl ''bad port range''
          | Some start \<Rightarrow>
             (case (if subIndex = length portRange - 1 then Some 0xFFFF
                    else ParseUint16 (drop (subIndex + 1) portRange)) of
                None \<Rightarrow> Inl ''bad port range''
              | Some end_ \<Rightarrow> Inr \<lparr>ri_start = of_nat start, ri_end = of_nat end_\<rparr>)))"

fun parse_port_ranges :: "string list \<Rightarrow> string + rangeItem list" where
  "parse_port_ranges [] = Inr []"
| "parse_port_ranges (s # ss) =
     (case parse_port_range s of
        Inl err \<Rightarrow> Inl err
      | Inr r \<Rightarrow> map_sum id ((#) r) (parse_port_ranges ss))"

definition NewPortRangeItem :: "bool \<Rightarrow> string list \<Rightarrow> string + rule_item" where
  "NewPortRangeItem isSource rangeList = map_sum id (PortRangeItem isSource) (parse_port_ranges rangeList)"

definition NewProcessItem :: "string list \<Rightarrow> rule_item" where
  "NewProcessItem processNameList = ProcessItem (set_all Map.empty processNameList)"

definition NewProcessPathItem :: "string list \<Rightarrow> rule_item" where
  "NewProcessPathItem processNameList = ProcessPathItem (set_all Map.empty processNameList)"

definition NewProcessPathRegexItem :: "env \<Rightarrow> string list \<Rightarrow> string + rule_item" where
  "NewProcessPathRegexItem e expressions = map_sum id ProcessPathRegexItem (compile_all e expressions)"

definition NewPackageNameItem :: "string list \<Rightarrow> rule_item" where
  "NewPackageNameItem packageNameList = PackageNameItem (set_all Map.empty packageNameList)"

definition NewPackageNameRegexItem :: "env \<Rightarrow> string list \<Rightarrow> string + rule_item" where
  "NewPackageNameRegexItem e expressions = map_sum id PackageNameRegexItem (compile_all e expressions)"

definition NewUserItem :: "string list \<Rightarrow> rule_item" where
  "NewUserItem users = UserItem (set_all Map.empty users)"

definition NewUserIDItem :: "int list \<Rightarrow> rule_item" where
  "NewUserIDItem userIdList = UserIdItem (set_all Map.empty userIdList)"

text \<open>\<open>NewOutboundRule\<close>: the tag \<open>any\<close> is not put in the map but sets \<open>matchAny\<close>.\<close>

fun outbound_loop :: "string list \<Rightarrow> (string \<rightharpoonup> bool) \<Rightarrow> bool \<Rightarrow> (string \<rightharpoonup> bool) \<times> bool" where
  "outbound_loop [] m matchAny = (m, matchAny)"
| "outbound_loop (outbound # rest) m matchAny =
     (if outbound = ''any'' then outbound_loop rest m True
      else outbound_loop rest (m(outbound \<mapsto> True)) matchAny)"

definition NewOutboundRule :: "string list \<Rightarrow> rule_item" where
  "NewOutboundRule outbounds =
     (let (m, matchAny) = outbound_loop outbounds Map.empty False in OutboundItem m matchAny)"

text \<open>\<open>NewClashModeItem\<close> followed by \<open>Start\<close>, which finds the Clash server or not.\<close>

definition NewClashModeItem :: "env \<Rightarrow> string \<Rightarrow> rule_item" where
  "NewClashModeItem e mode = ClashModeItem mode (e_ClashMode e \<noteq> None)"

definition NewNetworkTypeItem :: "InterfaceType list \<Rightarrow> rule_item" where
  "NewNetworkTypeItem networkType = NetworkTypeItem networkType"

definition NewNetworkIsExpensiveItem :: rule_item where
  "NewNetworkIsExpensiveItem = NetworkIsExpensiveItem"

definition NewNetworkIsConstrainedItem :: rule_item where
  "NewNetworkIsConstrainedItem = NetworkIsConstrainedItem"

definition NewWIFISSIDItem :: "string list \<Rightarrow> rule_item" where
  "NewWIFISSIDItem ssidList = WIFISSIDItem (set_all Map.empty ssidList)"

definition NewWIFIBSSIDItem :: "string list \<Rightarrow> rule_item" where
  "NewWIFIBSSIDItem bssidList = WIFIBSSIDItem (set_all Map.empty (map NormalizeWIFIBSSID bssidList))"

text \<open>The maps of the interface address items: entries of one configuration object, in which a later
  entry with the same key overwrites an earlier one. The order of the list stands for Go's iteration
  order, which does not matter: every entry must match.\<close>

fun put_entry :: "'k \<Rightarrow> 'v \<Rightarrow> ('k \<times> 'v) list \<Rightarrow> ('k \<times> 'v) list" where
  "put_entry k v [] = [(k, v)]"
| "put_entry k v ((k', v') # m) = (if k = k' then (k, v) # m else (k', v') # put_entry k v m)"

fun put_entries :: "('k \<times> 'v) list \<Rightarrow> ('k \<times> 'v) list \<Rightarrow> ('k \<times> 'v) list" where
  "put_entries m [] = m"
| "put_entries m ((k, v) # es) = put_entries (put_entry k v m) es"

definition NewInterfaceAddressItem :: "(string \<times> Prefix list) list \<Rightarrow> rule_item" where
  "NewInterfaceAddressItem entries = InterfaceAddressItem (put_entries [] entries)"

definition NewNetworkInterfaceAddressItem :: "(InterfaceType \<times> Prefix list) list \<Rightarrow> rule_item" where
  "NewNetworkInterfaceAddressItem entries = NetworkInterfaceAddressItem (put_entries [] entries)"

definition NewDefaultInterfaceAddressItem :: "Prefix list \<Rightarrow> rule_item" where
  "NewDefaultInterfaceAddressItem interfaceAddresses = DefaultInterfaceAddressItem interfaceAddresses"

text \<open>\<open>NewSourceMACAddressItem\<close>: addresses that parse are stored in canonical spelling.\<close>

definition mac_key :: "string \<Rightarrow> string" where
  "mac_key address = (case ParseMAC address of Some parsed \<Rightarrow> HardwareAddr_String parsed | None \<Rightarrow> address)"

definition NewSourceMACAddressItem :: "string list \<Rightarrow> rule_item" where
  "NewSourceMACAddressItem addressList = SourceMACAddressItem (set_all Map.empty (map mac_key addressList))"

definition NewSourceHostnameItem :: "string list \<Rightarrow> rule_item" where
  "NewSourceHostnameItem hostnameList = SourceHostnameItem (set_all Map.empty hostnameList)"

text \<open>\<open>Start\<close> of \<open>PreferredByItem\<close> and \<open>PreferredByDNSItem\<close>, with the manager's lookup as an
  argument: \<open>None\<close> for an unknown tag, \<open>Some None\<close> for one without preferred routes.\<close>

fun resolve_preferred :: "(string \<Rightarrow> 'a option option) \<Rightarrow> string list \<Rightarrow> string + 'a list" where
  "resolve_preferred lookup [] = Inr []"
| "resolve_preferred lookup (tag # tags) =
     (case lookup tag of
        None \<Rightarrow> Inl ''not found''
      | Some None \<Rightarrow> Inl ''does not support preferred_by''
      | Some (Some found) \<Rightarrow> map_sum id ((#) found) (resolve_preferred lookup tags))"

definition NewPreferredByItem :: "(string \<Rightarrow> PreferredRoutes option option) \<Rightarrow> string list \<Rightarrow> string + rule_item" where
  "NewPreferredByItem lookup outboundTags = map_sum id PreferredByItem (resolve_preferred lookup outboundTags)"

definition NewPreferredByDNSItem :: "(string \<Rightarrow> (string \<Rightarrow> bool) option option) \<Rightarrow> string list \<Rightarrow> string + rule_item" where
  "NewPreferredByDNSItem lookup transportTags = map_sum id PreferredByDNSItem (resolve_preferred lookup transportTags)"

definition NewQueryTypeItem :: "u16 list \<Rightarrow> rule_item" where
  "NewQueryTypeItem typeList = QueryTypeItem (set_all Map.empty typeList)"

definition NewQueryClientSubnetItem :: "Prefix list \<Rightarrow> rule_item" where
  "NewQueryClientSubnetItem prefixes = QueryClientSubnetItem prefixes"

definition NewQueryDNSSECItem :: rule_item where
  "NewQueryDNSSECItem = QueryDNSSECItem"

definition NewDNSResponseRCodeItem :: "int \<Rightarrow> rule_item" where
  "NewDNSResponseRCodeItem rcode = DNSResponseRCodeItem rcode"

definition NewDNSResponseRecordItem :: "RR option list \<Rightarrow> (Msg \<Rightarrow> RR list) \<Rightarrow> rule_item" where
  "NewDNSResponseRecordItem records selector = DNSResponseRecordItem records selector"

subsection \<open>Matching\<close>

definition InboundItem_Match :: "(string \<rightharpoonup> bool) \<Rightarrow> InboundContext \<Rightarrow> bool" where
  "InboundItem_Match inboundMap c = go_get inboundMap (Inbound c)"

definition IPVersionItem_Match :: "env \<Rightarrow> bool \<Rightarrow> InboundContext \<Rightarrow> bool" where
  "IPVersionItem_Match e isIPv6 c \<longleftrightarrow>
     (IPVersion c \<noteq> 0 \<and> (IPVersion c = 6) = isIPv6) \<or>
     (e_IsIP e (Destination c) \<and> e_IsIPv6 e (Destination c) = isIPv6)"

definition NetworkItem_Match :: "(string \<rightharpoonup> bool) \<Rightarrow> InboundContext \<Rightarrow> bool" where
  "NetworkItem_Match networkMap c = go_get networkMap (Network c)"

definition AuthUserItem_Match :: "(string \<rightharpoonup> bool) \<Rightarrow> InboundContext \<Rightarrow> bool" where
  "AuthUserItem_Match userMap c = go_get userMap (User c)"

definition ProtocolItem_Match :: "(string \<rightharpoonup> bool) \<Rightarrow> InboundContext \<Rightarrow> bool" where
  "ProtocolItem_Match protocolMap c = go_get protocolMap (Protocol c)"

definition ClientItem_Match :: "(string \<rightharpoonup> bool) \<Rightarrow> InboundContext \<Rightarrow> bool" where
  "ClientItem_Match clientMap c = go_get clientMap (Client c)"

text \<open>The domain the domain items look at: the sniffed or queried one, else the destination's.\<close>

definition domainHost :: "InboundContext \<Rightarrow> string" where
  "domainHost c = (if Domain c \<noteq> [] then Domain c else sa_Fqdn (Destination c))"

definition DomainItem_Match :: "(string \<Rightarrow> bool) \<Rightarrow> InboundContext \<Rightarrow> bool" where
  "DomainItem_Match matcher c =
     (if domainHost c = [] then False else matcher (ToLower (domainHost c)))"

definition DomainKeywordItem_Match :: "string list \<Rightarrow> InboundContext \<Rightarrow> bool" where
  "DomainKeywordItem_Match keywords c =
     (if domainHost c = [] then False
      else list_ex (\<lambda>keyword. Contains (ToLower (domainHost c)) keyword) keywords)"

definition DomainRegexItem_Match :: "(string \<Rightarrow> bool) list \<Rightarrow> InboundContext \<Rightarrow> bool" where
  "DomainRegexItem_Match matchers c =
     (if domainHost c = [] then False
      else list_ex (\<lambda>matcher. matcher (ToLower (domainHost c))) matchers)"

definition AdGuardDomainItem_Match :: "(string \<Rightarrow> bool) \<Rightarrow> InboundContext \<Rightarrow> bool" where
  "AdGuardDomainItem_Match matcher c =
     (if domainHost c = [] then False else matcher (ToLower (domainHost c)))"

definition IPCIDRItem_Match :: "env \<Rightarrow> (Addr \<Rightarrow> bool) \<Rightarrow> bool \<Rightarrow> InboundContext \<Rightarrow> bool" where
  "IPCIDRItem_Match e ipSet isSource c =
     (if isSource \<or> IPCIDRMatchSource c then ipSet (sa_Addr (Source c))
      else if DestinationAddressMatchFromResponse c then
        (let addresses = DNSResponseAddressesForMatch e c in
         if addresses = [] then IPCIDRAcceptEmpty c else list_ex ipSet addresses)
      else if e_IsIP e (Destination c) then ipSet (sa_Addr (Destination c))
      else if DestinationAddresses c \<noteq> [] then list_ex ipSet (DestinationAddresses c)
      else IPCIDRAcceptEmpty c)"

definition IPIsPrivateItem_Match :: "env \<Rightarrow> bool \<Rightarrow> InboundContext \<Rightarrow> bool" where
  "IPIsPrivateItem_Match e isSource c =
     (if isSource then \<not> e_IsPublicAddr e (sa_Addr (Source c))
      else if DestinationAddressMatchFromResponse c then
        list_ex (\<lambda>a. \<not> e_IsPublicAddr e a) (DNSResponseAddressesForMatch e c)
      else if IsValid (sa_Addr (Destination c)) then \<not> e_IsPublicAddr e (sa_Addr (Destination c))
      else list_ex (\<lambda>a. \<not> e_IsPublicAddr e a) (DestinationAddresses c))"

definition IPAcceptAnyItem_Match :: "env \<Rightarrow> InboundContext \<Rightarrow> bool" where
  "IPAcceptAnyItem_Match e c =
     (if DestinationAddressMatchFromResponse c then DNSResponseAddressesForMatch e c \<noteq> []
      else DestinationAddresses c \<noteq> [])"

definition PortItem_Match :: "(u16 \<rightharpoonup> bool) \<Rightarrow> bool \<Rightarrow> InboundContext \<Rightarrow> bool" where
  "PortItem_Match portMap isSource c =
     (if isSource then go_get portMap (sa_Port (Source c)) else go_get portMap (sa_Port (Destination c)))"

definition PortRangeItem_Match :: "bool \<Rightarrow> rangeItem list \<Rightarrow> InboundContext \<Rightarrow> bool" where
  "PortRangeItem_Match isSource portRangeList c =
     (let port = (if isSource then sa_Port (Source c) else sa_Port (Destination c)) in
      list_ex (\<lambda>portRange. port \<ge> ri_start portRange \<and> port \<le> ri_end portRange) portRangeList)"

definition ProcessItem_Match :: "(string \<rightharpoonup> bool) \<Rightarrow> InboundContext \<Rightarrow> bool" where
  "ProcessItem_Match processMap c =
     (case ProcessInfo c of
        None \<Rightarrow> False
      | Some info \<Rightarrow>
          if co_ProcessPath info = [] then False else go_get processMap (Base (co_ProcessPath info)))"

definition ProcessPathItem_Match :: "env \<Rightarrow> (string \<rightharpoonup> bool) \<Rightarrow> InboundContext \<Rightarrow> bool" where
  "ProcessPathItem_Match e processMap c =
     (case ProcessInfo c of
        None \<Rightarrow> False
      | Some info \<Rightarrow>
          if co_ProcessPath info \<noteq> [] \<and> go_get processMap (co_ProcessPath info) then True
          else if e_IsAndroid e then list_ex (go_get processMap) (co_AndroidPackageNames info)
          else False)"

definition ProcessPathRegexItem_Match :: "(string \<Rightarrow> bool) list \<Rightarrow> InboundContext \<Rightarrow> bool" where
  "ProcessPathRegexItem_Match matchers c =
     (case ProcessInfo c of
        None \<Rightarrow> False
      | Some info \<Rightarrow>
          if co_ProcessPath info = [] then False
          else list_ex (\<lambda>matcher. matcher (co_ProcessPath info)) matchers)"

definition PackageNameItem_Match :: "(string \<rightharpoonup> bool) \<Rightarrow> InboundContext \<Rightarrow> bool" where
  "PackageNameItem_Match packageMap c =
     (case ProcessInfo c of
        None \<Rightarrow> False
      | Some info \<Rightarrow> list_ex (go_get packageMap) (co_AndroidPackageNames info))"

definition PackageNameRegexItem_Match :: "(string \<Rightarrow> bool) list \<Rightarrow> InboundContext \<Rightarrow> bool" where
  "PackageNameRegexItem_Match matchers c =
     (case ProcessInfo c of
        None \<Rightarrow> False
      | Some info \<Rightarrow>
          if co_AndroidPackageNames info = [] then False
          else list_ex (\<lambda>matcher. list_ex matcher (co_AndroidPackageNames info)) matchers)"

definition UserItem_Match :: "(string \<rightharpoonup> bool) \<Rightarrow> InboundContext \<Rightarrow> bool" where
  "UserItem_Match userMap c =
     (case ProcessInfo c of
        None \<Rightarrow> False
      | Some info \<Rightarrow> if co_UserName info = [] then False else go_get userMap (co_UserName info))"

definition UserIdItem_Match :: "(int \<rightharpoonup> bool) \<Rightarrow> InboundContext \<Rightarrow> bool" where
  "UserIdItem_Match userIdMap c =
     (case ProcessInfo c of
        None \<Rightarrow> False
      | Some info \<Rightarrow> if co_UserId info = -1 then False else go_get userIdMap (co_UserId info))"

definition OutboundItem_Match :: "(string \<rightharpoonup> bool) \<Rightarrow> bool \<Rightarrow> InboundContext \<Rightarrow> bool" where
  "OutboundItem_Match outboundMap matchAny c =
     (if matchAny then Outbound c \<noteq> [] else go_get outboundMap (Outbound c))"

definition ClashModeItem_Match :: "env \<Rightarrow> string \<Rightarrow> bool \<Rightarrow> bool" where
  "ClashModeItem_Match e mode hasServer =
     (if \<not> hasServer then False
      else case e_ClashMode e of None \<Rightarrow> False | Some m \<Rightarrow> EqualFold m mode)"

definition NetworkTypeItem_Match :: "env \<Rightarrow> InterfaceType list \<Rightarrow> bool" where
  "NetworkTypeItem_Match e networkType =
     (case e_DefaultNetworkInterface e of
        None \<Rightarrow> False
      | Some networkInterface \<Rightarrow> ni_Type networkInterface \<in> set networkType)"

definition NetworkIsExpensiveItem_Match :: "env \<Rightarrow> bool" where
  "NetworkIsExpensiveItem_Match e =
     (case e_DefaultNetworkInterface e of None \<Rightarrow> False | Some ni \<Rightarrow> ni_Expensive ni)"

definition NetworkIsConstrainedItem_Match :: "env \<Rightarrow> bool" where
  "NetworkIsConstrainedItem_Match e =
     (case e_DefaultNetworkInterface e of None \<Rightarrow> False | Some ni \<Rightarrow> ni_Constrained ni)"

definition WIFISSIDItem_Match :: "env \<Rightarrow> (string \<rightharpoonup> bool) \<Rightarrow> bool" where
  "WIFISSIDItem_Match e ssidMap = go_get ssidMap (SSID (e_WIFIState e))"

definition WIFIBSSIDItem_Match :: "env \<Rightarrow> (string \<rightharpoonup> bool) \<Rightarrow> bool" where
  "WIFIBSSIDItem_Match e bssidMap = go_get bssidMap (BSSID (e_WIFIState e))"

text \<open>\<open>common.Find\<close> returns the zero interface, whose name is empty, when there is none.\<close>

definition InterfaceAddressItem_Match :: "env \<Rightarrow> (string \<times> Prefix list) list \<Rightarrow> bool" where
  "InterfaceAddressItem_Match e interfaceAddresses =
     list_all (\<lambda>(ifName, addresses).
       (case List.find (\<lambda>it. if_Name it = ifName) (e_Interfaces e) of
          None \<Rightarrow> False
        | Some iface \<Rightarrow>
            if if_Name iface = [] then False
            else \<not> list_all (\<lambda>address. list_all (\<lambda>it. \<not> Overlaps address it) (if_Addresses iface)) addresses))
       interfaceAddresses"

definition NetworkInterfaceAddressItem_Match :: "env \<Rightarrow> (InterfaceType \<times> Prefix list) list \<Rightarrow> bool" where
  "NetworkInterfaceAddressItem_Match e interfaceAddresses =
     list_all (\<lambda>(ifType, addresses).
       list_ex (\<lambda>networkInterface.
         if_Name (ni_Interface networkInterface) \<notin> set (e_MyInterfaces e) \<and>
         ni_Type networkInterface = ifType \<and>
         list_ex (\<lambda>it. list_ex (\<lambda>prefix. Overlaps prefix it) addresses)
           (if_Addresses (ni_Interface networkInterface)))
         (e_NetworkInterfaces e))
       interfaceAddresses"

definition DefaultInterfaceAddressItem_Match :: "env \<Rightarrow> Prefix list \<Rightarrow> bool" where
  "DefaultInterfaceAddressItem_Match e interfaceAddresses =
     (case e_DefaultInterface e of
        None \<Rightarrow> False
      | Some defaultInterface \<Rightarrow>
          list_all (\<lambda>address. \<not> list_all (\<lambda>it. \<not> Overlaps address it) (if_Addresses defaultInterface))
            interfaceAddresses)"

definition SourceMACAddressItem_Match :: "(string \<rightharpoonup> bool) \<Rightarrow> InboundContext \<Rightarrow> bool" where
  "SourceMACAddressItem_Match addressMap c =
     (case SourceMACAddress c of
        None \<Rightarrow> False
      | Some mac \<Rightarrow> go_get addressMap (HardwareAddr_String mac))"

definition SourceHostnameItem_Match :: "(string \<rightharpoonup> bool) \<Rightarrow> InboundContext \<Rightarrow> bool" where
  "SourceHostnameItem_Match hostnameMap c =
     (if SourceHostname c = [] then False else go_get hostnameMap (SourceHostname c))"

definition PreferredByItem_Match :: "env \<Rightarrow> PreferredRoutes list \<Rightarrow> InboundContext \<Rightarrow> bool" where
  "PreferredByItem_Match e outbounds c =
     (if domainHost c \<noteq> [] \<and> list_ex (\<lambda>out. PreferredDomain out c (domainHost c)) outbounds then True
      else if e_IsIP e (Destination c) \<and>
              list_ex (\<lambda>out. PreferredAddress out c (sa_Addr (Destination c))) outbounds then True
      else list_ex (\<lambda>address. list_ex (\<lambda>out. PreferredAddress out c address) outbounds)
             (DestinationAddresses c))"

definition PreferredByDNSItem_Match :: "env \<Rightarrow> (string \<Rightarrow> bool) list \<Rightarrow> InboundContext \<Rightarrow> bool" where
  "PreferredByDNSItem_Match e transports c =
     (if domainHost c = [] then False
      else list_ex (\<lambda>transport. transport (e_CanonicalName e (domainHost c))) transports)"

definition QueryTypeItem_Match :: "(u16 \<rightharpoonup> bool) \<Rightarrow> InboundContext \<Rightarrow> bool" where
  "QueryTypeItem_Match typeMap c = (if QueryType c = 0 then False else go_get typeMap (QueryType c))"

definition QueryClientSubnetItem_Match :: "Prefix list \<Rightarrow> InboundContext \<Rightarrow> bool" where
  "QueryClientSubnetItem_Match prefixes c =
     (let clientSubnet = QueryClientSubnet c in
      if \<not> Prefix_IsValid clientSubnet then False
      else list_ex (\<lambda>prefix. p_bits clientSubnet \<ge> p_bits prefix \<and>
             Prefix_Contains prefix (p_addr clientSubnet)) prefixes)"

definition QueryDNSSECItem_Match :: "InboundContext \<Rightarrow> bool" where
  "QueryDNSSECItem_Match c = QueryDNSSEC c"

definition DNSResponseRCodeItem_Match :: "int \<Rightarrow> InboundContext \<Rightarrow> bool" where
  "DNSResponseRCodeItem_Match rcode c =
     (case DNSResponse c of None \<Rightarrow> False | Some m \<Rightarrow> m_Rcode m = rcode)"

text \<open>\<open>DNSRecordOptions.Match\<close> of \<open>option/dns_record.go\<close>.\<close>

definition DNSRecordOptions_Match :: "env \<Rightarrow> RR option \<Rightarrow> RR \<Rightarrow> bool" where
  "DNSRecordOptions_Match e rr rec = (case rr of None \<Rightarrow> False | Some r \<Rightarrow> e_IsDuplicate e r rec)"

definition DNSResponseRecordItem_Match :: "env \<Rightarrow> RR option list \<Rightarrow> (Msg \<Rightarrow> RR list) \<Rightarrow> InboundContext \<Rightarrow> bool" where
  "DNSResponseRecordItem_Match e records selector c =
     (case DNSResponse c of
        None \<Rightarrow> False
      | Some m \<Rightarrow>
          list_ex (\<lambda>expected. list_ex (DNSRecordOptions_Match e expected) (selector m)) records)"

fun item_Match :: "env \<Rightarrow> rule_item \<Rightarrow> InboundContext \<Rightarrow> bool" where
  "item_Match e (InboundItem m) c = InboundItem_Match m c"
| "item_Match e (IPVersionItem v6) c = IPVersionItem_Match e v6 c"
| "item_Match e (NetworkItem m) c = NetworkItem_Match m c"
| "item_Match e (AuthUserItem m) c = AuthUserItem_Match m c"
| "item_Match e (ProtocolItem m) c = ProtocolItem_Match m c"
| "item_Match e (ClientItem m) c = ClientItem_Match m c"
| "item_Match e (DomainItem m) c = DomainItem_Match m c"
| "item_Match e (DomainKeywordItem ks) c = DomainKeywordItem_Match ks c"
| "item_Match e (DomainRegexItem ms) c = DomainRegexItem_Match ms c"
| "item_Match e (AdGuardDomainItem m) c = AdGuardDomainItem_Match m c"
| "item_Match e (IPCIDRItem s src) c = IPCIDRItem_Match e s src c"
| "item_Match e (IPIsPrivateItem src) c = IPIsPrivateItem_Match e src c"
| "item_Match e IPAcceptAnyItem c = IPAcceptAnyItem_Match e c"
| "item_Match e (PortItem m src) c = PortItem_Match m src c"
| "item_Match e (PortRangeItem src rs) c = PortRangeItem_Match src rs c"
| "item_Match e (ProcessItem m) c = ProcessItem_Match m c"
| "item_Match e (ProcessPathItem m) c = ProcessPathItem_Match e m c"
| "item_Match e (ProcessPathRegexItem ms) c = ProcessPathRegexItem_Match ms c"
| "item_Match e (PackageNameItem m) c = PackageNameItem_Match m c"
| "item_Match e (PackageNameRegexItem ms) c = PackageNameRegexItem_Match ms c"
| "item_Match e (UserItem m) c = UserItem_Match m c"
| "item_Match e (UserIdItem m) c = UserIdItem_Match m c"
| "item_Match e (OutboundItem m a) c = OutboundItem_Match m a c"
| "item_Match e (ClashModeItem mode s) c = ClashModeItem_Match e mode s"
| "item_Match e (NetworkTypeItem ts) c = NetworkTypeItem_Match e ts"
| "item_Match e NetworkIsExpensiveItem c = NetworkIsExpensiveItem_Match e"
| "item_Match e NetworkIsConstrainedItem c = NetworkIsConstrainedItem_Match e"
| "item_Match e (WIFISSIDItem m) c = WIFISSIDItem_Match e m"
| "item_Match e (WIFIBSSIDItem m) c = WIFIBSSIDItem_Match e m"
| "item_Match e (InterfaceAddressItem es) c = InterfaceAddressItem_Match e es"
| "item_Match e (NetworkInterfaceAddressItem es) c = NetworkInterfaceAddressItem_Match e es"
| "item_Match e (DefaultInterfaceAddressItem ps) c = DefaultInterfaceAddressItem_Match e ps"
| "item_Match e (SourceMACAddressItem m) c = SourceMACAddressItem_Match m c"
| "item_Match e (SourceHostnameItem m) c = SourceHostnameItem_Match m c"
| "item_Match e (PreferredByItem outs) c = PreferredByItem_Match e outs c"
| "item_Match e (PreferredByDNSItem ts) c = PreferredByDNSItem_Match e ts c"
| "item_Match e (QueryTypeItem m) c = QueryTypeItem_Match m c"
| "item_Match e (QueryClientSubnetItem ps) c = QueryClientSubnetItem_Match ps c"
| "item_Match e QueryDNSSECItem c = QueryDNSSECItem_Match c"
| "item_Match e (DNSResponseRCodeItem n) c = DNSResponseRCodeItem_Match n c"
| "item_Match e (DNSResponseRecordItem rs sel) c = DNSResponseRecordItem_Match e rs sel c"

end
