(* ===== verification/RuleMatch.thy ===== *)
theory RuleMatch
  imports RuleItems
begin

section \<open>Rule matching (\<open>match_state.go\<close>, \<open>rule_abstract.go\<close>, \<open>rule_item_rule_set.go\<close>)\<close>

text \<open>
  Default rules sort their items into groups (source address, source port, destination address,
  destination port): within a group one item must match, and every group and every other item must
  match. A rule-set item refers to rule sets, whose rules are rules again; a rule set that consists
  of one plain default rule is merged into the groups of the rule that refers to it. Logical rules
  combine rules by \<open>and\<close> or \<open>or\<close>; every rule can be inverted.

  \<open>Match\<close> takes the metadata by reference. The only field it writes is
  \<open>DeferredIPCIDRMatchGroups\<close>: under \<open>IgnoreDestinationIPCIDRMatch\<close>, the address conditions of a rule
  are not evaluated but recorded there, and a match with a non-zero field stands for an undecided one.
  Every function therefore returns its result together with the metadata it leaves. The rule types
  are mutually recursive, and so are the functions; loops that return early are functions of their
  own with the loop's variables as arguments.
\<close>

subsection \<open>Match state\<close>

type_synonym ruleMatchState = u8

definition ruleMatchSourceAddress :: ruleMatchState where "ruleMatchSourceAddress = 1"
definition ruleMatchSourcePort :: ruleMatchState where "ruleMatchSourcePort = 2"
definition ruleMatchDestinationAddress :: ruleMatchState where "ruleMatchDestinationAddress = 4"
definition ruleMatchDestinationPort :: ruleMatchState where "ruleMatchDestinationPort = 8"

record ruleGroupMatch =
  required :: ruleMatchState
  satisfied :: ruleMatchState

text \<open>Go's operator \<open>&^\<close>.\<close>

definition and_not :: "'a::len word \<Rightarrow> 'a word \<Rightarrow> 'a word" where
  "and_not a b = a AND (NOT b)"

definition group_done :: "ruleGroupMatch \<Rightarrow> bool" where
  "group_done g \<longleftrightarrow> and_not (required g) (satisfied g) = 0"

definition mergeWith :: "ruleGroupMatch \<Rightarrow> ruleGroupMatch \<Rightarrow> ruleGroupMatch" where
  "mergeWith g other = \<lparr>required = required g OR required other, satisfied = satisfied g OR satisfied other\<rparr>"

definition has :: "ruleMatchState \<Rightarrow> ruleMatchState \<Rightarrow> bool" where
  "has s target \<longleftrightarrow> s AND target \<noteq> 0"

subsection \<open>Rules\<close>

record RuleSetMetadata =
  ContainsProcessRule :: bool
  ContainsWIFIRule :: bool
  ContainsIPCIDRRule :: bool
  ContainsDNSQueryTypeRule :: bool
  ContainsNonIPCIDRRule :: bool

text \<open>
  The structs \<open>DefaultRule\<close>, \<open>DefaultHeadlessRule\<close> and \<open>DefaultDNSRule\<close> embed \<open>abstractDefaultRule\<close>
  (the last with fields of its own), the logical ones \<open>abstractLogicalRule\<close>; the constructors of
  \<open>HeadlessRule\<close> are the dynamic types behind that interface. In \<open>allItems\<close> the rule-set item is
  \<^const>\<open>None\<close>. Actions do not take part in matching; they are kept beside the rules where rules are
  selected. Local and remote rule sets match alike, so both are \<open>RuleSet\<close>.
\<close>

datatype abstractDefaultRule =
    DefaultRule
      (items: "rule_item list")
      (sourceAddressItems: "rule_item list")
      (sourcePortItems: "rule_item list")
      (destinationAddressItems: "rule_item list")
      (destinationIPCIDRItems: "rule_item list")
      (destinationPortItems: "rule_item list")
      (allItems: "rule_item option list")
      (ruleSetItem: "RuleSetItem option")
      (invert: bool)
and RuleSetItem =
    RuleSetItem (tagList: "string list") (setList: "RuleSet list")
      (ipCidrMatchSource: bool) (ipCidrAcceptEmpty: bool)
and RuleSet =
    RuleSet (set_rules: "HeadlessRule list") (set_metadata: RuleSetMetadata)
and HeadlessRule =
    RouteDefault abstractDefaultRule
  | HeadlessDefault abstractDefaultRule
  | DNSDefault abstractDefaultRule (matchResponse: bool) (matchResponseTag: string) (race: bool)
  | RouteLogical abstractLogicalRule
  | HeadlessLogical abstractLogicalRule
  | DNSLogical abstractLogicalRule (matchResponseTags: "string list") (matchResponseAnonymous: bool) (race: bool)
and abstractLogicalRule =
    LogicalRule (log_rules: "HeadlessRule list") (log_mode: string) (log_invert: bool)

subsection \<open>Groups of a default rule\<close>

definition matchAnyItem :: "env \<Rightarrow> rule_item list \<Rightarrow> InboundContext \<Rightarrow> bool" where
  "matchAnyItem e its c = list_ex (\<lambda>it. item_Match e it c) its"

definition destinationIPCIDRMatchesSource :: "abstractDefaultRule \<Rightarrow> InboundContext \<Rightarrow> bool" where
  "destinationIPCIDRMatchesSource r c \<longleftrightarrow> IPCIDRMatchSource c \<and> destinationIPCIDRItems r \<noteq> []"

definition destinationIPCIDRMatchesDestination :: "abstractDefaultRule \<Rightarrow> InboundContext \<Rightarrow> bool" where
  "destinationIPCIDRMatchesDestination r c \<longleftrightarrow>
     \<not> IgnoreDestinationIPCIDRMatch c \<and> \<not> IPCIDRMatchSource c \<and> destinationIPCIDRItems r \<noteq> []"

text \<open>One block of \<open>evaluateGroups\<close>: \<open>if cond { required |= bit; if try { satisfied |= bit } }\<close>.\<close>

definition eval_group :: "bool \<Rightarrow> ruleMatchState \<Rightarrow> (ruleGroupMatch \<Rightarrow> bool) \<Rightarrow> ruleGroupMatch \<Rightarrow> ruleGroupMatch" where
  "eval_group cond s attempt g =
     (if \<not> cond then g
      else let g1 = g\<lparr>required := required g OR s\<rparr> in
        if attempt g1 then g1\<lparr>satisfied := satisfied g1 OR s\<rparr> else g1)"

definition evaluateGroups :: "env \<Rightarrow> abstractDefaultRule \<Rightarrow> InboundContext \<Rightarrow> ruleGroupMatch \<times> InboundContext" where
  "evaluateGroups e r c =
     (let g0 = \<lparr>required = 0, satisfied = 0\<rparr>;
          g1 = eval_group (sourceAddressItems r \<noteq> []) ruleMatchSourceAddress
                 (\<lambda>_. matchAnyItem e (sourceAddressItems r) c) g0;
          g2 = eval_group (destinationIPCIDRMatchesSource r c) ruleMatchSourceAddress
                 (\<lambda>g. \<not> has (satisfied g) ruleMatchSourceAddress \<and> matchAnyItem e (destinationIPCIDRItems r) c) g1;
          g3 = eval_group (sourcePortItems r \<noteq> []) ruleMatchSourcePort
                 (\<lambda>_. matchAnyItem e (sourcePortItems r) c) g2;
          g4 = eval_group (destinationAddressItems r \<noteq> []) ruleMatchDestinationAddress
                 (\<lambda>_. matchAnyItem e (destinationAddressItems r) c) g3;
          g5 = eval_group (destinationIPCIDRMatchesDestination r c) ruleMatchDestinationAddress
                 (\<lambda>g. \<not> has (satisfied g) ruleMatchDestinationAddress \<and> matchAnyItem e (destinationIPCIDRItems r) c) g4;
          g6 = eval_group (destinationPortItems r \<noteq> []) ruleMatchDestinationPort
                 (\<lambda>_. matchAnyItem e (destinationPortItems r) c) g5
      in (g6,
          if IgnoreDestinationIPCIDRMatch c \<and> \<not> IPCIDRMatchSource c \<and>
             destinationIPCIDRItems r \<noteq> [] \<and> destinationAddressItems r = []
          then c\<lparr>DeferredIPCIDRMatchGroups := DeferredIPCIDRMatchGroups c OR ruleMatchDestinationAddress\<rparr>
          else c))"

definition evaluateForMerge :: "env \<Rightarrow> abstractDefaultRule \<Rightarrow> InboundContext \<Rightarrow> ruleGroupMatch option \<times> InboundContext" where
  "evaluateForMerge e r c =
     (let (groups, c1) = evaluateGroups e r c in
      if list_all (\<lambda>it. item_Match e it c1) (items r) then (Some groups, c1) else (None, c1))"

subsection \<open>Rule sets\<close>

definition nestedMetadata :: "bool \<Rightarrow> bool \<Rightarrow> InboundContext \<Rightarrow> InboundContext" where
  "nestedMetadata matchSource acceptEmpty c =
     (ResetRuleMatchCache c)\<lparr>IPCIDRMatchSource := matchSource, IPCIDRAcceptEmpty := acceptEmpty\<rparr>"

fun mergeableRuleIn :: "HeadlessRule list \<Rightarrow> abstractDefaultRule option" where
  "mergeableRuleIn [HeadlessDefault r] =
     (if invert r \<or> ruleSetItem r \<noteq> None then None else Some r)"
| "mergeableRuleIn _ = None"

definition clear_deferred :: "InboundContext \<Rightarrow> ruleMatchState \<Rightarrow> InboundContext" where
  "clear_deferred c s = c\<lparr>DeferredIPCIDRMatchGroups := and_not (DeferredIPCIDRMatchGroups c) s\<rparr>"

definition add_deferred :: "InboundContext \<Rightarrow> ruleMatchState \<Rightarrow> InboundContext" where
  "add_deferred c d = c\<lparr>DeferredIPCIDRMatchGroups := DeferredIPCIDRMatchGroups c OR d\<rparr>"

text \<open>The ends of the loops that collect deferred groups: \<open>matchWithOuterGroups\<close> and
  \<open>matchAnyHeadlessRule\<close>.\<close>

definition loop_end :: "InboundContext \<Rightarrow> bool \<Rightarrow> u8 \<Rightarrow> bool \<times> InboundContext" where
  "loop_end c matched deferred = (matched, if matched then add_deferred c deferred else c)"

text \<open>The end of \<open>abstractLogicalRule.Match\<close>, after the loops.\<close>

definition logical_end :: "bool \<Rightarrow> InboundContext \<Rightarrow> bool \<Rightarrow> u8 \<Rightarrow> bool \<times> InboundContext" where
  "logical_end inverted c matched deferred =
     (if inverted then (if \<not> matched then True else deferred \<noteq> 0) else matched,
      if matched then add_deferred c deferred else c)"

definition LogicalTypeAnd :: string where "LogicalTypeAnd = ''and''"
definition LogicalTypeOr :: string where "LogicalTypeOr = ''or''"

subsection \<open>Matching\<close>

text \<open>
  \<open>rule_Match\<close> is the dispatch of the interface \<open>HeadlessRule\<close>; for \<open>DefaultDNSRule\<close> it is
  \<open>matchForMatch\<close> of \<open>rule_dns.go\<close>, which matches on a copy of the metadata when the rule looks at a
  response. The loops of the logical rules return \<open>matched\<close> and \<open>deferredGroups\<close>.
\<close>

function (sequential) rule_Match :: "env \<Rightarrow> HeadlessRule \<Rightarrow> InboundContext \<Rightarrow> bool \<times> InboundContext"
  and default_Match :: "env \<Rightarrow> abstractDefaultRule \<Rightarrow> InboundContext \<Rightarrow> bool \<times> InboundContext"
  and matchInner :: "env \<Rightarrow> abstractDefaultRule \<Rightarrow> InboundContext \<Rightarrow> bool \<times> InboundContext"
  and matchWithOuterGroups :: "env \<Rightarrow> RuleSetItem \<Rightarrow> InboundContext \<Rightarrow> ruleGroupMatch \<Rightarrow> bool \<times> InboundContext"
  and set_loop :: "env \<Rightarrow> RuleSet list \<Rightarrow> bool \<Rightarrow> bool \<Rightarrow> InboundContext \<Rightarrow> ruleGroupMatch \<Rightarrow> bool \<Rightarrow> u8 \<Rightarrow> bool \<times> InboundContext"
  and set_Match :: "env \<Rightarrow> RuleSet \<Rightarrow> InboundContext \<Rightarrow> bool \<times> InboundContext"
  and matchAnyHeadlessRule :: "env \<Rightarrow> HeadlessRule list \<Rightarrow> InboundContext \<Rightarrow> bool \<Rightarrow> u8 \<Rightarrow> bool \<times> InboundContext"
  and logical_Match :: "env \<Rightarrow> abstractLogicalRule \<Rightarrow> InboundContext \<Rightarrow> bool \<times> InboundContext"
  and and_loop :: "env \<Rightarrow> HeadlessRule list \<Rightarrow> InboundContext \<Rightarrow> u8 \<Rightarrow> bool \<times> u8"
  and or_loop :: "env \<Rightarrow> HeadlessRule list \<Rightarrow> InboundContext \<Rightarrow> bool \<Rightarrow> u8 \<Rightarrow> bool \<times> u8"
where
  "rule_Match e (RouteDefault r) c = default_Match e r c"
| "rule_Match e (HeadlessDefault r) c = default_Match e r c"
| "rule_Match e (DNSDefault r onResponse tag isRace) c =
     (if onResponse then
        (case (if tag \<noteq> [] then NamedDNSResponses c tag else DNSResponse c) of
           None \<Rightarrow> (invert r, c)
         | Some response \<Rightarrow>
             (fst (default_Match e r (c\<lparr>DNSResponse := Some response,
                DestinationAddressMatchFromResponse := True\<rparr>)), c))
      else default_Match e r c)"
| "rule_Match e (RouteLogical l) c = logical_Match e l c"
| "rule_Match e (HeadlessLogical l) c = logical_Match e l c"
| "rule_Match e (DNSLogical l tags anonymous isRace) c = logical_Match e l c"

| "default_Match e r c =
     (if allItems r = [] then (True, c)
      else let (matched, c1) = matchInner e r c in
        if invert r then
          (if \<not> matched then (True, c1\<lparr>DeferredIPCIDRMatchGroups := 0\<rparr>)
           else (DeferredIPCIDRMatchGroups c1 \<noteq> 0, c1))
        else (matched, c1))"

| "matchInner e r c =
     (let (groups, c1) = evaluateGroups e r c in
      if \<not> list_all (\<lambda>it. item_Match e it c1) (items r) then (False, c1)
      else let (matched, c2) =
             (case ruleSetItem r of
                Some rs \<Rightarrow> matchWithOuterGroups e rs c1 groups
              | None \<Rightarrow> (group_done groups, c1))
           in (matched, if matched then clear_deferred c2 (satisfied groups) else c2))"

| "matchWithOuterGroups e (RuleSetItem tags sets matchSource acceptEmpty) c outerGroups =
     set_loop e sets matchSource acceptEmpty c outerGroups False 0"

| "set_loop e [] matchSource acceptEmpty c outerGroups matched deferred = loop_end c matched deferred"
| "set_loop e (ruleSet # sets) matchSource acceptEmpty c outerGroups matched deferred =
     (let nested = nestedMetadata matchSource acceptEmpty c in
      case mergeableRuleIn (set_rules ruleSet) of
        Some branch \<Rightarrow>
          (case evaluateForMerge e branch nested of
             (Some branchGroups, nested1) \<Rightarrow>
               let merged = mergeWith outerGroups branchGroups in
               if group_done merged then
                 let branchDeferred = and_not (DeferredIPCIDRMatchGroups nested1) (satisfied merged) in
                 if branchDeferred = 0 then (True, clear_deferred c (satisfied merged))
                 else set_loop e sets matchSource acceptEmpty c outerGroups True (deferred OR branchDeferred)
               else set_loop e sets matchSource acceptEmpty c outerGroups matched deferred
           | (None, _) \<Rightarrow> set_loop e sets matchSource acceptEmpty c outerGroups matched deferred)
      | None \<Rightarrow>
          if group_done outerGroups then
            (case set_Match e ruleSet nested of
               (True, nested1) \<Rightarrow>
                 if DeferredIPCIDRMatchGroups nested1 = 0 then (True, c)
                 else set_loop e sets matchSource acceptEmpty c outerGroups True
                        (deferred OR DeferredIPCIDRMatchGroups nested1)
             | (False, _) \<Rightarrow> set_loop e sets matchSource acceptEmpty c outerGroups matched deferred)
          else set_loop e sets matchSource acceptEmpty c outerGroups matched deferred)"

| "set_Match e (RuleSet rules meta) c = matchAnyHeadlessRule e rules c False 0"

| "matchAnyHeadlessRule e [] c matched deferred = loop_end c matched deferred"
| "matchAnyHeadlessRule e (rule # rules) c matched deferred =
     (case rule_Match e rule (ResetRuleMatchCache c) of
        (True, nested) \<Rightarrow>
          if DeferredIPCIDRMatchGroups nested = 0 then (True, c)
          else matchAnyHeadlessRule e rules c True (deferred OR DeferredIPCIDRMatchGroups nested)
      | (False, _) \<Rightarrow> matchAnyHeadlessRule e rules c matched deferred)"

| "logical_Match e (LogicalRule rules mode inverted) c =
     (let (matched, deferred) =
            (if mode = LogicalTypeAnd then and_loop e rules c 0 else or_loop e rules c False 0)
      in logical_end inverted c matched deferred)"

| "and_loop e [] c deferred = (True, deferred)"
| "and_loop e (rule # rules) c deferred =
     (case rule_Match e rule (ResetRuleCache c) of
        (False, _) \<Rightarrow> (False, 0)
      | (True, nested) \<Rightarrow> and_loop e rules c (deferred OR DeferredIPCIDRMatchGroups nested))"

| "or_loop e [] c matched deferred = (matched, deferred)"
| "or_loop e (rule # rules) c matched deferred =
     (case rule_Match e rule (ResetRuleCache c) of
        (False, _) \<Rightarrow> or_loop e rules c matched deferred
      | (True, nested) \<Rightarrow>
          if DeferredIPCIDRMatchGroups nested = 0 then (True, 0)
          else or_loop e rules c True (deferred OR DeferredIPCIDRMatchGroups nested))"
  by pat_completeness auto

text \<open>Every call descends into the rule, except that \<open>default_Match\<close> calls \<open>matchInner\<close> on the same rule.\<close>

termination
  by (relation "measure (\<lambda>call. case call of
        Inl (Inl (Inl (e, h, c))) \<Rightarrow> 2 * size h
      | Inl (Inl (Inr (e, r, c))) \<Rightarrow> 2 * size r + 1
      | Inl (Inr (Inl (e, r, c))) \<Rightarrow> 2 * size r
      | Inl (Inr (Inr (Inl (e, rs, c)))) \<Rightarrow> 2 * size rs
      | Inl (Inr (Inr (Inr (e, sets, _)))) \<Rightarrow> 2 * size_list size sets
      | Inr (Inl (Inl (e, s, c))) \<Rightarrow> 2 * size s
      | Inr (Inl (Inr (e, rules, _))) \<Rightarrow> 2 * size_list size rules
      | Inr (Inr (Inl (e, l, c))) \<Rightarrow> 2 * size l
      | Inr (Inr (Inr (Inl (e, rules, _)))) \<Rightarrow> 2 * size_list size rules
      | Inr (Inr (Inr (Inr (e, rules, _)))) \<Rightarrow> 2 * size_list size rules)")
     (simp_all, (case_tac r; simp)+)

declare default_Match.simps [simp del] matchInner.simps [simp del]

end
