(* ===== verification/RuleSemantics.thy ===== *)
theory RuleSemantics
  imports RuleMatch
begin

section \<open>What a rule means\<close>

text \<open>
  A declarative reading of rules, after the documentation of the rule format, and the proof that
  \<open>Match\<close> computes it whenever address conditions are evaluated. In this reading a default rule is a
  conjunction over its items and its groups, each group a disjunction; rule sets are alternatives,
  and one that holds a single plain rule contributes its items to the groups of the rule that refers
  to it; \<open>and\<close>, \<open>or\<close> and \<open>invert\<close> are the connectives. Nothing of the bit masks, the early exits and
  the threading of the metadata remains.
\<close>


subsection \<open>Facts about match states\<close>

lemmas state_bits = ruleMatchSourceAddress_def ruleMatchSourcePort_def ruleMatchDestinationAddress_def
  ruleMatchDestinationPort_def

lemma and_not_bit [simp]: "bit (and_not a b) n \<longleftrightarrow> bit a n \<and> \<not> bit b n"
  by (auto simp: and_not_def bit_and_iff bit_not_iff dest: bit_imp_le_length)

lemma word_eq_0_iff: "(w :: 'a::len word) = 0 \<longleftrightarrow> (\<forall>n. \<not> bit w n)"
  by (auto intro: bit_word_eqI)

lemma and_not_eq_0: "and_not a b = 0 \<longleftrightarrow> (\<forall>n. bit a n \<longrightarrow> bit b n)"
  by (auto simp: word_eq_0_iff)

lemma group_done_iff: "group_done g \<longleftrightarrow> (\<forall>n. bit (required g) n \<longrightarrow> bit (satisfied g) n)"
  by (simp add: group_done_def and_not_eq_0)

text \<open>The states as sets of groups.\<close>

datatype group = SourceAddress | SourcePort | DestinationAddress | DestinationPort

fun group_index :: "group \<Rightarrow> nat" where
  "group_index SourceAddress = 0"
| "group_index SourcePort = 1"
| "group_index DestinationAddress = 2"
| "group_index DestinationPort = 3"

lemma bit_states [simp]:
  "bit ruleMatchSourceAddress n \<longleftrightarrow> n = 0"
  "bit ruleMatchSourcePort n \<longleftrightarrow> n = 1"
  "bit ruleMatchDestinationAddress n \<longleftrightarrow> n = 2"
  "bit ruleMatchDestinationPort n \<longleftrightarrow> n = 3"
proof -
  show "bit ruleMatchSourceAddress n \<longleftrightarrow> n = 0" by (simp add: state_bits bit_1_iff)
  have "(2 :: u8) = push_bit 1 1" "(4 :: u8) = push_bit 2 1" "(8 :: u8) = push_bit 3 1" by simp_all
  then show "bit ruleMatchSourcePort n \<longleftrightarrow> n = 1"
    "bit ruleMatchDestinationAddress n \<longleftrightarrow> n = 2" "bit ruleMatchDestinationPort n \<longleftrightarrow> n = 3"
    unfolding state_bits by (auto simp only: bit_push_bit_iff bit_1_iff) (auto)
qed

lemma has_state [simp]:
  "has s ruleMatchSourceAddress \<longleftrightarrow> bit s 0"
  "has s ruleMatchDestinationAddress \<longleftrightarrow> bit s 2"
  by (simp_all add: has_def word_eq_0_iff bit_and_iff)

text \<open>What each group of a rule consists of: with \<open>IPCIDRMatchSource\<close> the address items of the
  destination count as source items.\<close>

fun group_items :: "abstractDefaultRule \<Rightarrow> bool \<Rightarrow> group \<Rightarrow> rule_item list" where
  "group_items r matchSource SourceAddress =
     sourceAddressItems r @ (if matchSource then destinationIPCIDRItems r else [])"
| "group_items r matchSource SourcePort = sourcePortItems r"
| "group_items r matchSource DestinationAddress =
     destinationAddressItems r @ (if matchSource then [] else destinationIPCIDRItems r)"
| "group_items r matchSource DestinationPort = destinationPortItems r"

text \<open>The items of a group that take part in matching in a context: the address items are left out
  when they are ignored.\<close>

definition active_items :: "abstractDefaultRule \<Rightarrow> InboundContext \<Rightarrow> group \<Rightarrow> rule_item list" where
  "active_items r c g =
     (if IgnoreDestinationIPCIDRMatch c \<and> \<not> IPCIDRMatchSource c \<and> g = DestinationAddress
      then destinationAddressItems r else group_items r (IPCIDRMatchSource c) g)"

lemma matchAnyItem_simps [simp]:
  "matchAnyItem e [] c \<longleftrightarrow> False"
  "matchAnyItem e (xs @ ys) c \<longleftrightarrow> matchAnyItem e xs c \<or> matchAnyItem e ys c"
  by (simp_all add: matchAnyItem_def)

lemma eval_group_bits:
  "bit (required (eval_group cond s attempt g)) n \<longleftrightarrow> bit (required g) n \<or> (cond \<and> bit s n)"
  "bit (satisfied (eval_group cond s attempt g)) n \<longleftrightarrow>
     bit (satisfied g) n \<or> (cond \<and> bit s n \<and> attempt (g\<lparr>required := required g OR s\<rparr>))"
  by (auto simp: eval_group_def Let_def bit_or_iff)

lemma ex_group: "(\<exists>g. P g) \<longleftrightarrow> P SourceAddress \<or> P SourcePort \<or> P DestinationAddress \<or> P DestinationPort"
  by (metis group.exhaust)

lemma required_bits:
  "bit (required (fst (evaluateGroups e r c))) n \<longleftrightarrow>
     (\<exists>g. n = group_index g \<and> active_items r c g \<noteq> [])"
  unfolding evaluateGroups_def Let_def fst_conv eval_group_bits ex_group
  by (auto simp: active_items_def destinationIPCIDRMatchesSource_def destinationIPCIDRMatchesDestination_def)

lemma matchAnyItem_nonempty: "matchAnyItem e xs c \<Longrightarrow> xs \<noteq> []"
  by auto

lemma satisfied_bits:
  "bit (satisfied (fst (evaluateGroups e r c))) n \<longleftrightarrow>
     (\<exists>g. n = group_index g \<and> matchAnyItem e (active_items r c g) c)"
proof -
  consider "n = 0" | "n = 1" | "n = 2" | "n = 3" | "n > 3" by linarith
  then show ?thesis
    by cases (simp_all add: evaluateGroups_def Let_def eval_group_bits ex_group active_items_def
        destinationIPCIDRMatchesSource_def destinationIPCIDRMatchesDestination_def,
        (use matchAnyItem_nonempty in blast)+)
qed

definition defers :: "abstractDefaultRule \<Rightarrow> InboundContext \<Rightarrow> bool" where
  "defers r c \<longleftrightarrow> IgnoreDestinationIPCIDRMatch c \<and> \<not> IPCIDRMatchSource c \<and>
     destinationIPCIDRItems r \<noteq> [] \<and> destinationAddressItems r = []"

lemma evaluateGroups_context:
  "snd (evaluateGroups e r c) = (if defers r c then add_deferred c ruleMatchDestinationAddress else c)"
  by (simp add: evaluateGroups_def defers_def add_deferred_def Let_def)


subsection \<open>Declarative reading\<close>

definition all_groups :: "group list" where
  "all_groups = [SourceAddress, SourcePort, DestinationAddress, DestinationPort]"

lemma set_all_groups [simp]: "set all_groups = UNIV"
  using group.exhaust by (auto simp: all_groups_def)

text \<open>Rules whose groups are merged, each with the context it is evaluated in, and the items of a
  group: every group that has an item has one that matches.\<close>

definition groups_met_by ::
    "(abstractDefaultRule \<Rightarrow> InboundContext \<Rightarrow> group \<Rightarrow> rule_item list) \<Rightarrow> env \<Rightarrow>
     (abstractDefaultRule \<times> InboundContext) list \<Rightarrow> bool" where
  "groups_met_by its e rcs \<longleftrightarrow>
     (\<forall>g\<in>set all_groups. (\<exists>(r, c)\<in>set rcs. its r c g \<noteq> []) \<longrightarrow>
        (\<exists>(r, c)\<in>set rcs. matchAnyItem e (its r c g) c))"

definition groups_met :: "env \<Rightarrow> (abstractDefaultRule \<times> InboundContext) list \<Rightarrow> bool" where
  "groups_met = groups_met_by (\<lambda>r c. group_items r (IPCIDRMatchSource c))"

lemma size_member: "x \<in> set xs \<Longrightarrow> f x < size_list f xs"
  by (induction xs) auto

lemma rule_set_item_size:
  assumes "ruleSetItem r = Some (RuleSetItem tags sets ms ae)" "s \<in> set sets" "h \<in> set (set_rules s)"
  shows "size h < size r"
proof -
  have "size h < size s" using assms(3) by (cases s) (auto dest: size_member [of _ _ size])
  moreover have "size s < size_list size sets" using assms(2) by (rule size_member)
  moreover have "size_list size sets < size (RuleSetItem tags sets ms ae)" by simp
  moreover have "size (RuleSetItem tags sets ms ae) < size r" using assms(1) by (cases r) simp
  ultimately show ?thesis by linarith
qed

function (sequential) rule_sem :: "env \<Rightarrow> HeadlessRule \<Rightarrow> InboundContext \<Rightarrow> bool"
  and default_sem :: "env \<Rightarrow> abstractDefaultRule \<Rightarrow> InboundContext \<Rightarrow> bool"
  and inner_sem :: "env \<Rightarrow> abstractDefaultRule \<Rightarrow> InboundContext \<Rightarrow> bool"
  and logical_sem :: "env \<Rightarrow> abstractLogicalRule \<Rightarrow> InboundContext \<Rightarrow> bool"
where
  "rule_sem e (RouteDefault r) c = default_sem e r c"
| "rule_sem e (HeadlessDefault r) c = default_sem e r c"
| "rule_sem e (DNSDefault r onResponse tag isRace) c =
     (if onResponse then
        (case (if tag \<noteq> [] then NamedDNSResponses c tag else DNSResponse c) of
           None \<Rightarrow> invert r
         | Some response \<Rightarrow> default_sem e r (c\<lparr>DNSResponse := Some response,
             DestinationAddressMatchFromResponse := True\<rparr>))
      else default_sem e r c)"
| "rule_sem e (RouteLogical l) c = logical_sem e l c"
| "rule_sem e (HeadlessLogical l) c = logical_sem e l c"
| "rule_sem e (DNSLogical l tags anonymous isRace) c = logical_sem e l c"
| "default_sem e r c \<longleftrightarrow> allItems r = [] \<or> inner_sem e r c \<noteq> invert r"
| "inner_sem e r c \<longleftrightarrow>
     (\<forall>it\<in>set (items r). item_Match e it c) \<and>
     (case ruleSetItem r of
        None \<Rightarrow> groups_met e [(r, c)]
      | Some (RuleSetItem tags sets matchSource acceptEmpty) \<Rightarrow>
          \<exists>s\<in>set sets.
            let nested = nestedMetadata matchSource acceptEmpty c in
            (case mergeableRuleIn (set_rules s) of
               Some branch \<Rightarrow> (\<forall>it\<in>set (items branch). item_Match e it nested) \<and>
                 groups_met e [(r, c), (branch, nested)]
             | None \<Rightarrow> groups_met e [(r, c)] \<and> (\<exists>h\<in>set (set_rules s). rule_sem e h nested)))"
| "logical_sem e (LogicalRule rules mode inverted) c \<longleftrightarrow>
     (if mode = LogicalTypeAnd then \<forall>h\<in>set rules. rule_sem e h (ResetRuleCache c)
      else \<exists>h\<in>set rules. rule_sem e h (ResetRuleCache c)) \<noteq> inverted"
  by pat_completeness auto

termination
  by (relation "measure (\<lambda>call. case call of
        Inl (Inl (e, h, c)) \<Rightarrow> 2 * size h
      | Inl (Inr (e, r, c)) \<Rightarrow> 2 * size r + 1
      | Inr (Inl (e, r, c)) \<Rightarrow> 2 * size r
      | Inr (Inr (e, l, c)) \<Rightarrow> 2 * size l)")
     (auto simp: rule_set_item_size dest!: size_member [of _ _ size])

declare default_sem.simps [simp del] inner_sem.simps [simp del]

subsection \<open>The bit masks are the groups\<close>

lemma group_index_inj: "group_index g = group_index h \<longleftrightarrow> g = h"
  by (cases g; cases h) simp_all

lemma group_bits:
  "(\<forall>n. (\<exists>g. n = group_index g \<and> P g) \<longrightarrow> (\<exists>g. n = group_index g \<and> Q g)) \<longleftrightarrow> (\<forall>g. P g \<longrightarrow> Q g)"
  using group_index_inj by metis

lemma group_bits_merged:
  "(\<exists>g. n = group_index g \<and> P g) \<or> (\<exists>g. n = group_index g \<and> Q g) \<longleftrightarrow> (\<exists>g. n = group_index g \<and> (P g \<or> Q g))"
  by blast

lemma group_done_single:
  "group_done (fst (evaluateGroups e r c)) \<longleftrightarrow> groups_met_by active_items e [(r, c)]"
  unfolding group_done_iff required_bits satisfied_bits group_bits groups_met_by_def by simp

lemma group_done_merged:
  "group_done (mergeWith (fst (evaluateGroups e r c)) (fst (evaluateGroups e b n))) \<longleftrightarrow>
     groups_met_by active_items e [(r, c), (b, n)]"
  unfolding group_done_iff mergeWith_def ruleGroupMatch.simps bit_or_iff required_bits satisfied_bits
    group_bits_merged group_bits groups_met_by_def
  by simp

lemma active_items_full: "\<not> IgnoreDestinationIPCIDRMatch c \<Longrightarrow>
    active_items r c g = group_items r (IPCIDRMatchSource c) g"
  by (simp add: active_items_def)

lemma groups_met_full:
  "\<forall>(r, c)\<in>set rcs. \<not> IgnoreDestinationIPCIDRMatch c \<Longrightarrow> groups_met_by active_items e rcs = groups_met e rcs"
  unfolding groups_met_def groups_met_by_def
  by (intro ball_cong refl arg_cong2 [where f = "(\<longrightarrow>)"] bex_cong) (auto simp: active_items_full)

subsection \<open>Evaluating contexts\<close>

text \<open>A context in which address conditions are evaluated and nothing has been deferred.\<close>

definition evaluating :: "InboundContext \<Rightarrow> bool" where
  "evaluating c \<longleftrightarrow> \<not> IgnoreDestinationIPCIDRMatch c \<and> DeferredIPCIDRMatchGroups c = 0"

lemma evaluating_nested [simp]:
  "evaluating (nestedMetadata ms ae c) \<longleftrightarrow> \<not> IgnoreDestinationIPCIDRMatch c"
  "evaluating (ResetRuleCache c) \<longleftrightarrow> \<not> IgnoreDestinationIPCIDRMatch c"
  "evaluating (ResetRuleMatchCache c) \<longleftrightarrow> \<not> IgnoreDestinationIPCIDRMatch c"
  by (simp_all add: evaluating_def nestedMetadata_def ResetRuleCache_def ResetRuleMatchCache_def)

lemma nestedMetadata_reset [simp]:
  "ResetRuleMatchCache (nestedMetadata ms ae c) = nestedMetadata ms ae c"
  by (simp add: nestedMetadata_def ResetRuleMatchCache_def)

lemma evaluateGroups_evaluating:
  assumes "evaluating c"
  shows "evaluateGroups e r c = (fst (evaluateGroups e r c), c)"
proof -
  have "snd (evaluateGroups e r c) = c"
    using assms by (simp add: evaluateGroups_context defers_def evaluating_def)
  then show ?thesis by (metis prod.collapse)
qed

lemma deferred_clear [simp]:
  "evaluating c \<Longrightarrow> clear_deferred c s = c" "add_deferred c 0 = c"
  by (simp_all add: clear_deferred_def add_deferred_def evaluating_def and_not_def)

lemma evaluating_deferred: "evaluating c \<Longrightarrow> DeferredIPCIDRMatchGroups c = 0"
  by (simp add: evaluating_def)

subsection \<open>Loops over evaluating contexts\<close>

lemma matchAnyHeadlessRule_evaluating:
  assumes "\<And>h. h \<in> set rules \<Longrightarrow> rule_Match e h (ResetRuleMatchCache c) = (P h, ResetRuleMatchCache c)"
    and "evaluating c"
  shows "matchAnyHeadlessRule e rules c False 0 = ((\<exists>h\<in>set rules. P h), c)"
  using assms
proof (induction rules)
  case (Cons h rules)
  then have "DeferredIPCIDRMatchGroups (ResetRuleMatchCache c) = 0" by (simp add: ResetRuleMatchCache_def)
  with Cons show ?case by (cases "P h") auto
qed (simp add: loop_end_def)

lemma and_loop_evaluating:
  assumes "\<And>h. h \<in> set rules \<Longrightarrow> rule_Match e h (ResetRuleCache c) = (P h, ResetRuleCache c)"
  shows "and_loop e rules c 0 = ((\<forall>h\<in>set rules. P h), 0)"
  using assms
proof (induction rules)
  case (Cons h rules)
  have "DeferredIPCIDRMatchGroups (ResetRuleCache c) = 0"
    by (simp add: ResetRuleCache_def ResetRuleMatchCache_def)
  with Cons show ?case by (cases "P h") auto
qed simp

lemma or_loop_evaluating:
  assumes "\<And>h. h \<in> set rules \<Longrightarrow> rule_Match e h (ResetRuleCache c) = (P h, ResetRuleCache c)"
  shows "or_loop e rules c False 0 = ((\<exists>h\<in>set rules. P h), 0)"
  using assms
proof (induction rules)
  case (Cons h rules)
  have "DeferredIPCIDRMatchGroups (ResetRuleCache c) = 0"
    by (simp add: ResetRuleCache_def ResetRuleMatchCache_def)
  with Cons show ?case by (cases "P h") auto
qed simp

text \<open>What one rule set contributes to a rule that refers to it.\<close>

definition set_sem :: "env \<Rightarrow> abstractDefaultRule \<Rightarrow> bool \<Rightarrow> bool \<Rightarrow> InboundContext \<Rightarrow> RuleSet \<Rightarrow> bool" where
  "set_sem e r ms ae c s \<longleftrightarrow>
     (case mergeableRuleIn (set_rules s) of
        Some branch \<Rightarrow> (\<forall>it\<in>set (items branch). item_Match e it (nestedMetadata ms ae c)) \<and>
          groups_met e [(r, c), (branch, nestedMetadata ms ae c)]
      | None \<Rightarrow> groups_met e [(r, c)] \<and> (\<exists>h\<in>set (set_rules s). rule_sem e h (nestedMetadata ms ae c)))"

lemma inner_sem_unfold:
  "inner_sem e r c \<longleftrightarrow>
     (\<forall>it\<in>set (items r). item_Match e it c) \<and>
     (case ruleSetItem r of
        None \<Rightarrow> groups_met e [(r, c)]
      | Some (RuleSetItem tags sets ms ae) \<Rightarrow> \<exists>s\<in>set sets. set_sem e r ms ae c s)"
  unfolding inner_sem.simps [of e r c] set_sem_def Let_def by (rule refl)

lemma evaluateForMerge_evaluating:
  assumes "evaluating n"
  shows "evaluateForMerge e b n =
    (if \<forall>it\<in>set (items b). item_Match e it n then Some (fst (evaluateGroups e b n)) else None, n)"
  using evaluateGroups_evaluating [OF assms, of e b]
  by (auto simp: evaluateForMerge_def list_all_iff split: prod.splits)

lemma set_loop_evaluating:
  assumes rules: "\<And>s h. s \<in> set sets \<Longrightarrow> h \<in> set (set_rules s) \<Longrightarrow>
      rule_Match e h (nestedMetadata ms ae c) = (rule_sem e h (nestedMetadata ms ae c), nestedMetadata ms ae c)"
    and c: "evaluating c"
  shows "set_loop e sets ms ae c (fst (evaluateGroups e r c)) False 0 = ((\<exists>s\<in>set sets. set_sem e r ms ae c s), c)"
  using rules
proof (induction sets)
  case (Cons s sets)
  let ?n = "nestedMetadata ms ae c" and ?g = "fst (evaluateGroups e r c)"
  have n: "evaluating ?n" using c by (simp add: evaluating_def [of c])
  have set: "set_Match e s ?n = ((\<exists>h\<in>set (set_rules s). rule_sem e h ?n), ?n)"
  proof -
    have "matchAnyHeadlessRule e (set_rules s) ?n False 0 = ((\<exists>h\<in>set (set_rules s). rule_sem e h ?n), ?n)"
      using Cons.prems n by (intro matchAnyHeadlessRule_evaluating) auto
    then show ?thesis by (cases s) simp
  qed
  have full: "groups_met_by active_items e [(r, c)] = groups_met e [(r, c)]"
    "\<And>b. groups_met_by active_items e [(r, c), (b, ?n)] = groups_met e [(r, c), (b, ?n)]"
    using c n by (auto intro!: groups_met_full simp: evaluating_def)
  have d: "DeferredIPCIDRMatchGroups ?n = 0" using n by (rule evaluating_deferred)
  have IH: "set_loop e sets ms ae c ?g False 0 = ((\<exists>s\<in>set sets. set_sem e r ms ae c s), c)"
    using Cons.prems by (intro Cons.IH) auto
  show ?case
  proof (cases "mergeableRuleIn (set_rules s)")
    case None
    then show ?thesis
      using IH set d
      by (auto simp: set_sem_def [of e r ms ae c s] group_done_single full Let_def split: bool.split)
  next
    case (Some b)
    then show ?thesis
      using IH d c
      by (auto simp: set_sem_def [of e r ms ae c s] evaluateForMerge_evaluating [OF n] group_done_merged full Let_def
          and_not_eq_0)
  qed
qed (simp add: loop_end_def)

subsection \<open>\<open>Match\<close> computes the declarative reading\<close>

lemma matchInner_evaluating:
  assumes rules: "\<And>tags sets ms ae s h. ruleSetItem r = Some (RuleSetItem tags sets ms ae) \<Longrightarrow>
      s \<in> set sets \<Longrightarrow> h \<in> set (set_rules s) \<Longrightarrow>
      rule_Match e h (nestedMetadata ms ae c) = (rule_sem e h (nestedMetadata ms ae c), nestedMetadata ms ae c)"
    and c: "evaluating c"
  shows "matchInner e r c = (inner_sem e r c, c)"
proof -
  have full: "groups_met_by active_items e [(r, c)] = groups_met e [(r, c)]"
    using c by (intro groups_met_full) (simp add: evaluating_def)
  obtain g where eg: "evaluateGroups e r c = (g, c)" and g: "g = fst (evaluateGroups e r c)"
    using evaluateGroups_evaluating [OF c] by blast
  show ?thesis
  proof (cases "ruleSetItem r")
    case None
    then show ?thesis
      unfolding matchInner.simps [of e r c] inner_sem_unfold eg
      using c group_done_single [of e r c, folded g] by (simp add: list_all_iff full)
  next
    case (Some rs)
    obtain tags sets ms ae where rs: "rs = RuleSetItem tags sets ms ae" by (cases rs)
    have "set_loop e sets ms ae c g False 0 = ((\<exists>s\<in>set sets. set_sem e r ms ae c s), c)"
      using rules [of tags sets ms ae] Some rs c unfolding g by (intro set_loop_evaluating) auto
    then show ?thesis
      unfolding matchInner.simps [of e r c] inner_sem_unfold eg
      using c Some rs by (simp add: list_all_iff)
  qed
qed

lemma default_Match_evaluating:
  assumes "matchInner e r c = (inner_sem e r c, c)" "evaluating c"
  shows "default_Match e r c = (default_sem e r c, c)"
  using assms by (auto simp: default_Match.simps [of e r c] default_sem.simps [of e r c] evaluating_def)

lemma DNSDefault_evaluating:
  assumes "\<And>c. evaluating c \<Longrightarrow> default_Match e r c = (default_sem e r c, c)" "evaluating c"
  shows "rule_Match e (DNSDefault r onResponse tag isRace) c = (rule_sem e (DNSDefault r onResponse tag isRace) c, c)"
  using assms by (auto simp: evaluating_def split: option.split)

lemma logical_Match_evaluating:
  assumes "\<And>h c. h \<in> set rules \<Longrightarrow> evaluating c \<Longrightarrow> rule_Match e h c = (rule_sem e h c, c)" "evaluating c"
  shows "logical_Match e (LogicalRule rules mode inverted) c = (logical_sem e (LogicalRule rules mode inverted) c, c)"
proof -
  have r: "rule_Match e h (ResetRuleCache c) = (rule_sem e h (ResetRuleCache c), ResetRuleCache c)"
    if "h \<in> set rules" for h using assms(1) [OF that] assms(2) by (simp add: evaluating_def [of c])
  show ?thesis
    by (auto simp: and_loop_evaluating [OF r] or_loop_evaluating [OF r] logical_end_def Let_def)
qed

lemma rule_Match_evaluating:
  "evaluating c \<Longrightarrow> rule_Match e h c = (rule_sem e h c, c)"
proof -
  let ?D = "\<lambda>r. \<forall>c. evaluating c \<longrightarrow> default_Match e r c = (default_sem e r c, c)"
  let ?H = "\<lambda>h. \<forall>c. evaluating c \<longrightarrow> rule_Match e h c = (rule_sem e h c, c)"
  let ?L = "\<lambda>l. \<forall>c. evaluating c \<longrightarrow> logical_Match e l c = (logical_sem e l c, c)"
  let ?S = "\<lambda>s. \<forall>h\<in>set (set_rules s). ?H h"
  let ?R = "\<lambda>rs. \<forall>s\<in>set (setList rs). ?S s"
  have "?H h"
  proof (induction h rule: HeadlessRule.induct [where ?P1.0 = ?D and ?P2.0 = ?R and ?P3.0 = ?S and ?P5.0 = ?L])
    case (DefaultRule x1 x2 x3 x4 x5 x6 x7 x8 x9)
    let ?r = "DefaultRule x1 x2 x3 x4 x5 x6 x7 x8 x9"
    show ?case
    proof (intro allI impI)
      fix c assume c: "evaluating c"
      have "matchInner e ?r c = (inner_sem e ?r c, c)"
        using DefaultRule c by (intro matchInner_evaluating) (auto simp: evaluating_def [of c])
      then show "default_Match e ?r c = (default_sem e ?r c, c)"
        using c by (rule default_Match_evaluating)
    qed
  next
    case (LogicalRule rules mode inverted)
    then show ?case using logical_Match_evaluating by blast
  next
    case (DNSDefault r onResponse tag isRace)
    then show ?case using DNSDefault_evaluating by blast
  qed auto
  then show "evaluating c \<Longrightarrow> rule_Match e h c = (rule_sem e h c, c)" by blast
qed

subsection \<open>Properties\<close>

text \<open>An environment and a connection to evaluate rules on.\<close>

definition ex_env :: env where
  "ex_env = \<lparr>e_DefaultNetworkInterface = None, e_NetworkInterfaces = [], e_Interfaces = [],
     e_MyInterfaces = [], e_DefaultInterface = None, e_WIFIState = \<lparr>SSID = [], BSSID = []\<rparr>,
     e_ClashMode = None, e_IsAndroid = False, e_IsIP = (\<lambda>s. IsValid (sa_Addr s)),
     e_IsIPv6 = (\<lambda>s. IsValid (sa_Addr s) \<and> \<not> Is4 (sa_Addr s)), e_IsPublicAddr = (\<lambda>_. True),
     e_AddrFromIP = (\<lambda>bs. if length bs = 4 then Addr4 (foldl (\<lambda>w b. 256 * w + ucast b) 0 bs) else AddrInvalid),
     e_IsDuplicate = (\<lambda>a b. a = b), e_CanonicalName = ToLower,
     e_NewMatcher = (\<lambda>ds ss h. h \<in> set ds), e_NewAdGuardMatcher = (\<lambda>_ _. False), e_Compile = (\<lambda>_. None),
     e_ParsePrefix = (\<lambda>_. None), e_ParseAddr = (\<lambda>_. None),
     e_IPSet = (\<lambda>entries. Some (\<lambda>a. \<exists>x\<in>set entries. case x of Inl p \<Rightarrow> Prefix_Contains p a | Inr b \<Rightarrow> a = b))\<rparr>"

definition ex_ctx :: InboundContext where
  "ex_ctx = \<lparr>Inbound = ''tun'', IPVersion = 4, Network = ''tcp'',
     Source = \<lparr>sa_Addr = Addr4 0x0A000001, sa_Port = 50000, sa_Fqdn = []\<rparr>,
     Destination = \<lparr>sa_Addr = Addr4 0xC0A80101, sa_Port = 443, sa_Fqdn = []\<rparr>,
     User = [], Outbound = [], Protocol = ''tls'', Domain = ''www.example.org'', Client = [],
     DestinationAddresses = [], DNSResponse = None, NamedDNSResponses = Map.empty,
     DestinationAddressMatchFromResponse = False, ProcessInfo = None, SourceMACAddress = None,
     SourceHostname = [], QueryType = 0, QueryClientSubnet = ZeroPrefix, QueryDNSSEC = False,
     IPCIDRMatchSource = False, IPCIDRAcceptEmpty = False, SourceAddressMatch = False,
     SourcePortMatch = False, DestinationAddressMatch = False, DestinationPortMatch = False,
     DeferredIPCIDRMatchGroups = 0, IgnoreDestinationIPCIDRMatch = False\<rparr>"

definition no_metadata :: RuleSetMetadata where
  "no_metadata = \<lparr>ContainsProcessRule = False, ContainsWIFIRule = False, ContainsIPCIDRRule = False,
     ContainsDNSQueryTypeRule = False, ContainsNonIPCIDRRule = False\<rparr>"

text \<open>A rule for port 443 that refers to a rule set with one plain rule on domains.\<close>

definition ex_branch :: abstractDefaultRule where
  "ex_branch = DefaultRule [] [] [] [DomainKeywordItem [''example'']] [] []
     [Some (DomainKeywordItem [''example''])] None False"

definition ex_rule :: abstractDefaultRule where
  "ex_rule = DefaultRule [] [] [] [] [] [NewPortItem False [443]] [Some (NewPortItem False [443]), None]
     (Some (RuleSetItem [''set''] [RuleSet [HeadlessDefault ex_branch] no_metadata] False False)) False"

text \<open>C18. Matching computes the declarative reading of a rule: for every rule, however nested, and
  every context in which addresses are evaluated, the bit masks, early exits and threaded metadata
  of \<open>Match\<close> yield exactly the Boolean value of the rule - conjunction of items and groups,
  disjunction within a group and over rule sets, merging of a rule set with one plain rule,
  \<open>and\<close>, \<open>or\<close>, \<open>invert\<close> - and leave the metadata as it was.\<close>

theorem Match_computes_meaning:
  assumes "\<not> IgnoreDestinationIPCIDRMatch c" "DeferredIPCIDRMatchGroups c = 0"
  shows "rule_Match e h c = (rule_sem e h c, c)"
  using assms by (intro rule_Match_evaluating) (simp add: evaluating_def)

theorem Match_computes_meaning_witness:
  "rule_Match ex_env (RouteDefault ex_rule) ex_ctx = (True, ex_ctx)"
proof -
  have "rule_sem ex_env (RouteDefault ex_rule) ex_ctx" by code_simp
  moreover have "\<not> IgnoreDestinationIPCIDRMatch ex_ctx" "DeferredIPCIDRMatchGroups ex_ctx = 0"
    by (simp_all add: ex_ctx_def)
  ultimately show ?thesis using Match_computes_meaning [of ex_ctx ex_env "RouteDefault ex_rule"] by simp
qed

text \<open>C22. A default rule without rule sets matches as the documentation of the rule format says: some
  domain or address condition, if there are any; some destination port condition; some source
  address condition; some source port condition; and all other fields - the whole negated by
  \<open>invert\<close>. A rule with no condition at all matches everything, inverted or not.\<close>

theorem default_rule_documented:
  assumes "\<not> IgnoreDestinationIPCIDRMatch c" "DeferredIPCIDRMatchGroups c = 0"
    and "\<not> IPCIDRMatchSource c" "ruleSetItem r = None"
  shows "fst (rule_Match e (RouteDefault r) c) \<longleftrightarrow>
    allItems r = [] \<or>
    ((destinationAddressItems r @ destinationIPCIDRItems r = [] \<or>
        (\<exists>it\<in>set (destinationAddressItems r @ destinationIPCIDRItems r). item_Match e it c)) \<and>
     (destinationPortItems r = [] \<or> (\<exists>it\<in>set (destinationPortItems r). item_Match e it c)) \<and>
     (sourceAddressItems r = [] \<or> (\<exists>it\<in>set (sourceAddressItems r). item_Match e it c)) \<and>
     (sourcePortItems r = [] \<or> (\<exists>it\<in>set (sourcePortItems r). item_Match e it c)) \<and>
     (\<forall>it\<in>set (items r). item_Match e it c)) \<noteq> invert r"
proof -
  let ?any = "\<lambda>its. its = [] \<or> (\<exists>it\<in>set its. item_Match e it c)"
  have met: "groups_met e [(r, c)] \<longleftrightarrow>
      ?any (sourceAddressItems r) \<and> ?any (sourcePortItems r) \<and>
      ?any (destinationAddressItems r @ destinationIPCIDRItems r) \<and> ?any (destinationPortItems r)"
    unfolding groups_met_def groups_met_by_def all_groups_def
    using assms(3) by (simp add: matchAnyItem_def list_ex_iff disj_imp)
  have "inner_sem e r c \<longleftrightarrow>
      ?any (destinationAddressItems r @ destinationIPCIDRItems r) \<and> ?any (destinationPortItems r) \<and>
      ?any (sourceAddressItems r) \<and> ?any (sourcePortItems r) \<and> (\<forall>it\<in>set (items r). item_Match e it c)"
    unfolding inner_sem_unfold met assms(4) by (simp only: option.case) argo
  moreover have "fst (rule_Match e (RouteDefault r) c) \<longleftrightarrow> allItems r = [] \<or> inner_sem e r c \<noteq> invert r"
    using rule_Match_evaluating [of c e "RouteDefault r"] assms(1,2)
    by (simp add: evaluating_def default_sem.simps [of e r c])
  ultimately show ?thesis by (simp only:)
qed

definition ex_plain :: abstractDefaultRule where
  "ex_plain = DefaultRule [NewNetworkItem [''tcp'']] [] [] [NewDomainKeywordItem [''nowhere'']]
     [IPCIDRItem (\<lambda>a. a = Addr4 0xC0A80101) False] [] [Some (NewNetworkItem [''tcp''])] None True"

theorem default_rule_documented_witness:
  "\<not> fst (rule_Match ex_env (RouteDefault ex_plain) ex_ctx)"
proof -
  have c: "\<not> IgnoreDestinationIPCIDRMatch ex_ctx" "DeferredIPCIDRMatchGroups ex_ctx = 0"
    "\<not> IPCIDRMatchSource ex_ctx" "ruleSetItem ex_plain = None"
    by (simp_all add: ex_ctx_def ex_plain_def)
  have "item_Match ex_env (NewNetworkItem [''tcp'']) ex_ctx" by code_simp
  moreover have "item_Match ex_env (IPCIDRItem (\<lambda>a. a = Addr4 0xC0A80101) False) ex_ctx" by code_simp
  ultimately show ?thesis
    using default_rule_documented [OF c] by (simp add: ex_plain_def)
qed

subsection \<open>Rule sets merged into a rule\<close>

text \<open>The rule with the fields of both, and the rule with its rule sets dropped.\<close>

definition merge_rules :: "abstractDefaultRule \<Rightarrow> abstractDefaultRule \<Rightarrow> abstractDefaultRule" where
  "merge_rules r b = DefaultRule (items r @ items b) (sourceAddressItems r @ sourceAddressItems b)
     (sourcePortItems r @ sourcePortItems b) (destinationAddressItems r @ destinationAddressItems b)
     (destinationIPCIDRItems r @ destinationIPCIDRItems b) (destinationPortItems r @ destinationPortItems b)
     (allItems r) None (invert r)"

definition without_rule_sets :: "abstractDefaultRule \<Rightarrow> abstractDefaultRule" where
  "without_rule_sets r = DefaultRule (items r) (sourceAddressItems r) (sourcePortItems r)
     (destinationAddressItems r) (destinationIPCIDRItems r) (destinationPortItems r) (allItems r) None (invert r)"

lemma set_Match_evaluating:
  assumes "evaluating c" "ResetRuleMatchCache c = c"
  shows "set_Match e s c = ((\<exists>h\<in>set (set_rules s). rule_sem e h c), c)"
proof -
  have "matchAnyHeadlessRule e (set_rules s) c False 0 = ((\<exists>h\<in>set (set_rules s). rule_sem e h c), c)"
    using assms rule_Match_evaluating [of c e] by (intro matchAnyHeadlessRule_evaluating) auto
  then show ?thesis by (cases s) simp
qed

lemma matchInner_meaning: "evaluating c \<Longrightarrow> matchInner e r c = (inner_sem e r c, c)"
proof (rule matchInner_evaluating)
  fix ms ae h assume "evaluating c"
  then have "evaluating (nestedMetadata ms ae c)" by (simp add: evaluating_def [of c])
  then show "rule_Match e h (nestedMetadata ms ae c) =
      (rule_sem e h (nestedMetadata ms ae c), nestedMetadata ms ae c)" by (rule rule_Match_evaluating)
qed

lemma groups_met_merge: "groups_met e [(merge_rules r b, c)] = groups_met e [(r, c), (b, c)]"
proof -
  have "group_items (merge_rules r b) m g = [] \<longleftrightarrow> group_items r m g = [] \<and> group_items b m g = []"
    "matchAnyItem e (group_items (merge_rules r b) m g) c \<longleftrightarrow>
      matchAnyItem e (group_items r m g) c \<or> matchAnyItem e (group_items b m g) c" for m g
    by (cases g; auto simp: merge_rules_def)+
  then show ?thesis by (simp add: groups_met_def groups_met_by_def)
qed

lemma groups_met_without: "groups_met e [(without_rule_sets r, c)] = groups_met e [(r, c)]"
proof -
  have "group_items (without_rule_sets r) m g = group_items r m g" for m g
    by (cases g) (auto simp: without_rule_sets_def)
  then show ?thesis by (simp add: groups_met_def groups_met_by_def)
qed

text \<open>C19. Rule sets as the documentation describes them: a rule set that holds a single default rule
  without \<open>invert\<close> acts as if its fields were written in the rule that refers to it; any other rule
  set is one more condition beside the rule's own; different rule sets are alternatives; and
  \<open>invert\<close> negates the whole.\<close>

theorem rule_sets_merge:
  assumes "\<not> IgnoreDestinationIPCIDRMatch c" "ResetRuleMatchCache c = c"
    and "\<not> IPCIDRMatchSource c" "IPCIDRAcceptEmpty c = ae"
    and "ruleSetItem r = Some (RuleSetItem tags sets False ae)" "allItems r \<noteq> []"
  shows "fst (rule_Match e (RouteDefault r) c) \<longleftrightarrow>
    (\<exists>s\<in>set sets. case mergeableRuleIn (set_rules s) of
       Some b \<Rightarrow> fst (matchInner e (merge_rules r b) c)
     | None \<Rightarrow> fst (matchInner e (without_rule_sets r) c) \<and> fst (set_Match e s c)) \<noteq> invert r"
proof -
  have c: "evaluating c" using assms(1,2) by (metis evaluating_nested(3))
  have n: "nestedMetadata False ae c = c"
    using assms(2,3,4) by (simp add: nestedMetadata_def)
  have "inner_sem e r c \<longleftrightarrow> (\<forall>it\<in>set (items r). item_Match e it c) \<and> (\<exists>s\<in>set sets. set_sem e r False ae c s)"
    by (simp add: inner_sem_unfold [of e r] assms(5))
  also have "\<dots> \<longleftrightarrow> (\<exists>s\<in>set sets. case mergeableRuleIn (set_rules s) of
       Some b \<Rightarrow> inner_sem e (merge_rules r b) c
     | None \<Rightarrow> inner_sem e (without_rule_sets r) c \<and> (\<exists>h\<in>set (set_rules s). rule_sem e h c))"
  proof -
    have "inner_sem e (merge_rules r b) c \<longleftrightarrow> (\<forall>it\<in>set (items r). item_Match e it c) \<and>
        (\<forall>it\<in>set (items b). item_Match e it c) \<and> groups_met e [(r, c), (b, c)]" for b
      unfolding inner_sem_unfold groups_met_merge by (auto simp: merge_rules_def)
    moreover have "inner_sem e (without_rule_sets r) c \<longleftrightarrow>
        (\<forall>it\<in>set (items r). item_Match e it c) \<and> groups_met e [(r, c)]"
      unfolding inner_sem_unfold groups_met_without by (auto simp: without_rule_sets_def)
    ultimately have "(\<forall>it\<in>set (items r). item_Match e it c) \<and> set_sem e r False ae c s \<longleftrightarrow>
        (case mergeableRuleIn (set_rules s) of
           Some b \<Rightarrow> inner_sem e (merge_rules r b) c
         | None \<Rightarrow> inner_sem e (without_rule_sets r) c \<and> (\<exists>h\<in>set (set_rules s). rule_sem e h c))" for s
      unfolding set_sem_def n by (cases "mergeableRuleIn (set_rules s)") auto
    then show ?thesis by blast
  qed
  finally have inner: "inner_sem e r c \<longleftrightarrow> \<dots>" .
  have "fst (rule_Match e (RouteDefault r) c) \<longleftrightarrow> inner_sem e r c \<noteq> invert r"
    using rule_Match_evaluating [OF c, of e "RouteDefault r"] assms(6) by (simp add: default_sem.simps [of e r c])
  then show ?thesis
    unfolding matchInner_meaning [OF c] set_Match_evaluating [OF c assms(2)] fst_conv inner .
qed

theorem rule_sets_merge_witness: "fst (rule_Match ex_env (RouteDefault ex_rule) ex_ctx)"
proof -
  have c: "\<not> IgnoreDestinationIPCIDRMatch ex_ctx" "ResetRuleMatchCache ex_ctx = ex_ctx"
    "\<not> IPCIDRMatchSource ex_ctx" "IPCIDRAcceptEmpty ex_ctx = False"
    by (simp_all add: ex_ctx_def ResetRuleMatchCache_def)
  have r: "ruleSetItem ex_rule = Some (RuleSetItem [''set''] [RuleSet [HeadlessDefault ex_branch] no_metadata] False False)"
    "allItems ex_rule \<noteq> []" by (simp_all add: ex_rule_def)
  have "fst (matchInner ex_env (merge_rules ex_rule ex_branch) ex_ctx)" by code_simp
  moreover have "mergeableRuleIn [HeadlessDefault ex_branch] = Some ex_branch" "\<not> invert ex_rule"
    by (simp_all add: ex_branch_def ex_rule_def)
  ultimately show ?thesis using rule_sets_merge [OF c r, of ex_env] by simp
qed

text \<open>C24. The flags that a rule sets for its rule sets - match \<open>ip_cidr\<close> against the source, accept an
  empty answer - do not reach rules below a logical rule of a rule set: a logical rule matches the
  same whatever the flags are.\<close>

theorem logical_rule_drops_flags:
  "fst (rule_Match e (HeadlessLogical l) (c\<lparr>IPCIDRMatchSource := ms, IPCIDRAcceptEmpty := ae\<rparr>)) =
   fst (rule_Match e (HeadlessLogical l) c)"
proof -
  have reset: "ResetRuleCache (c\<lparr>IPCIDRMatchSource := ms, IPCIDRAcceptEmpty := ae\<rparr>) = ResetRuleCache c"
    by (simp add: ResetRuleCache_def ResetRuleMatchCache_def)
  have "and_loop e rules (c\<lparr>IPCIDRMatchSource := ms, IPCIDRAcceptEmpty := ae\<rparr>) d = and_loop e rules c d"
    "or_loop e rules (c\<lparr>IPCIDRMatchSource := ms, IPCIDRAcceptEmpty := ae\<rparr>) m d = or_loop e rules c m d" for rules d m
    by (induction rules arbitrary: d m) (simp_all add: reset split: prod.split bool.split)
  then show ?thesis by (cases l) (simp add: logical_end_def split: prod.split)
qed

end
