(* ===== verification/RuleDns.thy ===== *)
theory RuleDns
  imports RuleSemantics
begin

section \<open>DNS rules (\<open>rule_dns.go\<close>, address limits of \<open>dns/router.go\<close>)\<close>

text \<open>
  A DNS rule with address conditions cannot be decided before the query is answered. In legacy mode
  the router therefore matches in two steps: \<open>LegacyPreMatch\<close>, before the query is sent, ignores
  address conditions and records that they are outstanding; \<open>MatchAddressLimit\<close> matches again on the
  response, for rules with \<open>WithAddressLimit\<close>. This theory has these operations and shows when the first
  step is a sound approximation of the second.

  The methods belong to \<open>DefaultDNSRule\<close> and \<open>LogicalDNSRule\<close>; for the other rule types, which do not
  have them, the functions return the result of no match.
\<close>

subsection \<open>Operations\<close>

definition ContainsDestinationIPCIDRRule :: "RuleSetItem \<Rightarrow> bool" where
  "ContainsDestinationIPCIDRRule rs =
     (if ipCidrMatchSource rs then False
      else list_ex (\<lambda>s. ContainsIPCIDRRule (set_metadata s)) (setList rs))"

fun WithAddressLimit :: "HeadlessRule \<Rightarrow> bool" where
  "WithAddressLimit (DNSDefault r onResponse tag isRace) =
     (if destinationIPCIDRItems r \<noteq> [] then True
      else case ruleSetItem r of None \<Rightarrow> False | Some rs \<Rightarrow> ContainsDestinationIPCIDRRule rs)"
| "WithAddressLimit (DNSLogical (LogicalRule rules mode inverted) tags anonymous isRace) =
     (\<exists>h\<in>set rules. WithAddressLimit h)"
| "WithAddressLimit _ = False"

definition without_ignore :: "bool \<times> InboundContext \<Rightarrow> bool \<times> InboundContext" where
  "without_ignore res = (fst res, (snd res)\<lparr>IgnoreDestinationIPCIDRMatch := False\<rparr>)"

fun LegacyPreMatch :: "env \<Rightarrow> HeadlessRule \<Rightarrow> InboundContext \<Rightarrow> bool \<times> InboundContext" where
  "LegacyPreMatch e (DNSDefault r onResponse tag isRace) c =
     (if onResponse then (False, c)
      else without_ignore (default_Match e r (c\<lparr>IgnoreDestinationIPCIDRMatch := True\<rparr>)))"
| "LegacyPreMatch e (DNSLogical l tags anonymous isRace) c =
     without_ignore (logical_Match e l (c\<lparr>IgnoreDestinationIPCIDRMatch := True\<rparr>))"
| "LegacyPreMatch e _ c = (False, c)"

definition response_metadata :: "InboundContext \<Rightarrow> Msg option \<Rightarrow> InboundContext" where
  "response_metadata c response = (ResetRuleCache c)\<lparr>DNSResponse := response, DestinationAddressMatchFromResponse := True\<rparr>"

fun MatchAddressLimit :: "env \<Rightarrow> HeadlessRule \<Rightarrow> InboundContext \<Rightarrow> Msg option \<Rightarrow> bool" where
  "MatchAddressLimit e (DNSDefault r onResponse tag isRace) c response =
     fst (default_Match e r (response_metadata c response))"
| "MatchAddressLimit e (DNSLogical l tags anonymous isRace) c response =
     fst (logical_Match e l (response_metadata c response))"
| "MatchAddressLimit e _ c response = False"

fun MatchResponseTag :: "HeadlessRule \<Rightarrow> string" where
  "MatchResponseTag (DNSDefault r onResponse tag isRace) = tag"
| "MatchResponseTag _ = []"

fun MatchResponseTags :: "HeadlessRule \<Rightarrow> string list" where
  "MatchResponseTags (DNSDefault r onResponse tag isRace) = (if tag = [] then [] else [tag])"
| "MatchResponseTags (DNSLogical l tags anonymous isRace) = tags"
| "MatchResponseTags _ = []"

fun MatchResponseAnonymous :: "HeadlessRule \<Rightarrow> bool" where
  "MatchResponseAnonymous (DNSDefault r onResponse tag isRace) \<longleftrightarrow> onResponse \<and> tag = []"
| "MatchResponseAnonymous (DNSLogical l tags anonymous isRace) \<longleftrightarrow> anonymous"
| "MatchResponseAnonymous _ \<longleftrightarrow> False"

text \<open>\<open>addressLimitResponseCheck\<close> of \<open>dns/router.go\<close>: no check without an address limit.\<close>

definition addressLimitResponseCheck :: "env \<Rightarrow> HeadlessRule option \<Rightarrow> InboundContext \<Rightarrow> (Msg option \<Rightarrow> bool) option" where
  "addressLimitResponseCheck e rule c =
     (case rule of
        None \<Rightarrow> None
      | Some h \<Rightarrow> if \<not> WithAddressLimit h then None else Some (MatchAddressLimit e h c))"

subsection \<open>Rules with outstanding address conditions\<close>

text \<open>Whether a rule has address conditions on the destination, at any depth; the flag says whether
  its \<open>ip_cidr\<close> items count as source conditions. Below a logical rule the flag is reset.\<close>

function (sequential) limited :: "bool \<Rightarrow> HeadlessRule \<Rightarrow> bool"
  and limited_default :: "bool \<Rightarrow> abstractDefaultRule \<Rightarrow> bool"
  and limited_logical :: "abstractLogicalRule \<Rightarrow> bool"
where
  "limited ms (RouteDefault r) = limited_default ms r"
| "limited ms (HeadlessDefault r) = limited_default ms r"
| "limited ms (DNSDefault r onResponse tag isRace) = limited_default ms r"
| "limited ms (RouteLogical l) = limited_logical l"
| "limited ms (HeadlessLogical l) = limited_logical l"
| "limited ms (DNSLogical l tags anonymous isRace) = limited_logical l"
| "limited_default ms r \<longleftrightarrow> (\<not> ms \<and> destinationIPCIDRItems r \<noteq> []) \<or>
     (case ruleSetItem r of
        None \<Rightarrow> False
      | Some (RuleSetItem tags sets matchSource acceptEmpty) \<Rightarrow>
          \<exists>s\<in>set sets. \<exists>h\<in>set (set_rules s). limited matchSource h)"
| "limited_logical (LogicalRule rules mode inverted) \<longleftrightarrow> (\<exists>h\<in>set rules. limited False h)"
  by pat_completeness auto

termination
  by (relation "measure (\<lambda>call. case call of
        Inl (ms, h) \<Rightarrow> size h | Inr (Inl (ms, r)) \<Rightarrow> size r | Inr (Inr l) \<Rightarrow> size l)")
     (auto simp: rule_set_item_size dest!: size_member [of _ _ size])

declare limited_default.simps [simp del]

subsection \<open>What matching writes\<close>

text \<open>The bits of the deferred groups stay within a given set; bit 2 is the destination address.\<close>

definition within :: "nat set \<Rightarrow> u8 \<Rightarrow> bool" where
  "within K d \<longleftrightarrow> (\<forall>n. bit d n \<longrightarrow> n \<in> K)"

definition framed :: "nat set \<Rightarrow> InboundContext \<Rightarrow> InboundContext \<Rightarrow> bool" where
  "framed K c c' \<longleftrightarrow> c' = c\<lparr>DeferredIPCIDRMatchGroups := DeferredIPCIDRMatchGroups c'\<rparr> \<and>
     (within K (DeferredIPCIDRMatchGroups c) \<longrightarrow> within K (DeferredIPCIDRMatchGroups c'))"

lemma within_simps [simp]:
  "within K 0" "within K ruleMatchDestinationAddress \<longleftrightarrow> 2 \<in> K"
  "within K (a OR b) \<longleftrightarrow> within K a \<and> within K b"
  "within K a \<Longrightarrow> within K (and_not a b)"
  by (auto simp: within_def bit_or_iff)

lemma within_empty: "within {} d \<longleftrightarrow> d = 0"
  by (simp add: within_def word_eq_0_iff)

lemma framed_refl [simp]: "framed K c c"
  by (simp add: framed_def)

lemma framed_clear [simp]: "framed K c (clear_deferred c s)"
  by (simp add: framed_def clear_deferred_def)

lemma framed_add [simp]: "within K d \<Longrightarrow> framed K c (add_deferred c d)"
  by (simp add: framed_def add_deferred_def)

lemma framed_zero [simp]: "framed K c (c\<lparr>DeferredIPCIDRMatchGroups := 0\<rparr>)"
  by (simp add: framed_def)

lemma framed_trans: "framed K a b \<Longrightarrow> framed K b c \<Longrightarrow> framed K a c"
  unfolding framed_def by (metis InboundContext.surjective InboundContext.update_convs(27))

lemma framed_evaluateGroups:
  "2 \<in> K \<or> IPCIDRMatchSource c \<or> destinationIPCIDRItems r = [] \<Longrightarrow> framed K c (snd (evaluateGroups e r c))"
  by (auto simp: evaluateGroups_context defers_def)

lemma framed_loop_end: "within K d \<Longrightarrow> framed K c (snd (loop_end c m d))"
  by (simp add: loop_end_def)

lemma framed_deferred: "framed K c c' \<Longrightarrow> DeferredIPCIDRMatchGroups c = 0 \<Longrightarrow> within K (DeferredIPCIDRMatchGroups c')"
  by (auto simp: framed_def)

lemma deferred_reset [simp]:
  "DeferredIPCIDRMatchGroups (ResetRuleMatchCache c) = 0"
  "DeferredIPCIDRMatchGroups (ResetRuleCache c) = 0"
  "DeferredIPCIDRMatchGroups (nestedMetadata ms ae c) = 0"
  by (simp_all add: ResetRuleMatchCache_def ResetRuleCache_def nestedMetadata_def)

lemma match_source_reset [simp]:
  "IPCIDRMatchSource (ResetRuleMatchCache c) = IPCIDRMatchSource c"
  "IPCIDRMatchSource (ResetRuleCache c) = False"
  "IPCIDRMatchSource (nestedMetadata ms ae c) = ms"
  by (simp_all add: ResetRuleMatchCache_def ResetRuleCache_def nestedMetadata_def)

lemma matchAnyHeadlessRule_framed:
  assumes "\<And>h. h \<in> set rules \<Longrightarrow> framed K (ResetRuleMatchCache c) (snd (rule_Match e h (ResetRuleMatchCache c)))"
    and "within K d"
  shows "framed K c (snd (matchAnyHeadlessRule e rules c m d))"
  using assms
proof (induction rules arbitrary: m d)
  case (Cons h rules)
  have "framed K (ResetRuleMatchCache c) (snd (rule_Match e h (ResetRuleMatchCache c)))" using Cons.prems by simp
  then have "within K (DeferredIPCIDRMatchGroups (snd (rule_Match e h (ResetRuleMatchCache c))))"
    by (rule framed_deferred) simp
  then show ?case using Cons by (auto split: prod.split bool.split)
qed (simp add: framed_loop_end)

lemma rule_Match_within:
  "framed K (ResetRuleCache c) c' \<Longrightarrow> within K (DeferredIPCIDRMatchGroups c')"
  by (erule framed_deferred) simp

lemma and_loop_within:
  assumes "\<And>h. h \<in> set rules \<Longrightarrow> framed K (ResetRuleCache c) (snd (rule_Match e h (ResetRuleCache c)))" "within K d"
  shows "within K (snd (and_loop e rules c d))"
  using assms
proof (induction rules arbitrary: d)
  case (Cons h rules)
  have "within K (DeferredIPCIDRMatchGroups (snd (rule_Match e h (ResetRuleCache c))))"
    using Cons.prems by (intro rule_Match_within [of K c]) simp
  then show ?case using Cons by (auto split: prod.split bool.split)
qed simp

lemma or_loop_within:
  assumes "\<And>h. h \<in> set rules \<Longrightarrow> framed K (ResetRuleCache c) (snd (rule_Match e h (ResetRuleCache c)))" "within K d"
  shows "within K (snd (or_loop e rules c m d))"
  using assms
proof (induction rules arbitrary: m d)
  case (Cons h rules)
  have "within K (DeferredIPCIDRMatchGroups (snd (rule_Match e h (ResetRuleCache c))))"
    using Cons.prems by (intro rule_Match_within [of K c]) simp
  then show ?case using Cons by (auto split: prod.split bool.split)
qed simp

lemma evaluateForMerge_context: "snd (evaluateForMerge e b n) = snd (evaluateGroups e b n)"
  by (simp add: evaluateForMerge_def split: prod.split)

lemma mergeableRuleIn_SomeD:
  "mergeableRuleIn rules = Some b \<Longrightarrow> rules = [HeadlessDefault b] \<and> \<not> invert b \<and> ruleSetItem b = None"
  by (induction rules rule: mergeableRuleIn.induct) (auto split: if_splits)

lemma set_loop_framed:
  assumes "\<And>s h. s \<in> set sets \<Longrightarrow> h \<in> set (set_rules s) \<Longrightarrow>
      framed K (nestedMetadata ms ae c) (snd (rule_Match e h (nestedMetadata ms ae c)))"
    and "\<And>s h. s \<in> set sets \<Longrightarrow> h \<in> set (set_rules s) \<Longrightarrow> 2 \<in> K \<or> \<not> limited ms h"
    and "within K d"
  shows "framed K c (snd (set_loop e sets ms ae c g m d))"
  using assms
proof (induction sets arbitrary: m d)
  case (Cons s sets)
  let ?n = "nestedMetadata ms ae c"
  have "framed K ?n (snd (matchAnyHeadlessRule e (set_rules s) ?n False 0))"
    using Cons.prems(1) by (intro matchAnyHeadlessRule_framed) auto
  then have set: "within K (DeferredIPCIDRMatchGroups (snd (set_Match e s ?n)))"
    by (cases s) (auto dest: framed_deferred)
  have branch: "within K (DeferredIPCIDRMatchGroups (snd (evaluateForMerge e b ?n)))"
    if "mergeableRuleIn (set_rules s) = Some b" for b
  proof -
    have "2 \<in> K \<or> IPCIDRMatchSource ?n \<or> destinationIPCIDRItems b = []"
      using Cons.prems(2) [of s "HeadlessDefault b"] mergeableRuleIn_SomeD [OF that]
      by (auto simp: limited_default.simps [of ms b])
    then show ?thesis
      unfolding evaluateForMerge_context by (intro framed_deferred [OF framed_evaluateGroups]) simp_all
  qed
  have IH: "framed K c (snd (set_loop e sets ms ae c g m d))" if "within K d" for m d
    using that Cons.prems(1,2) by (intro Cons.IH) auto
  show ?case
  proof (cases "mergeableRuleIn (set_rules s)")
    case None
    then show ?thesis using set IH Cons.prems(3) by (auto simp: Let_def split: prod.split bool.split)
  next
    case (Some b)
    then show ?thesis
      using branch [of b] IH Cons.prems(3) by (auto simp: Let_def split: prod.split option.split)
  qed
qed (simp add: framed_loop_end)

lemma matchInner_framed:
  assumes rules: "\<And>tags sets ms ae s h. ruleSetItem r = Some (RuleSetItem tags sets ms ae) \<Longrightarrow>
      s \<in> set sets \<Longrightarrow> h \<in> set (set_rules s) \<Longrightarrow> 2 \<in> K \<or> \<not> limited ms h \<Longrightarrow>
      framed K (nestedMetadata ms ae c) (snd (rule_Match e h (nestedMetadata ms ae c)))"
    and lim: "2 \<in> K \<or> \<not> limited_default (IPCIDRMatchSource c) r"
  shows "framed K c (snd (matchInner e r c))"
proof -
  obtain g c1 where eg: "evaluateGroups e r c = (g, c1)" by (metis prod.exhaust)
  have c1: "framed K c c1"
    using framed_evaluateGroups [of K c r e] lim eg by (auto simp: limited_default.simps [of _ r])
  have n: "nestedMetadata ms ae c1 = nestedMetadata ms ae c" for ms ae
  proof -
    obtain d where "c1 = c\<lparr>DeferredIPCIDRMatchGroups := d\<rparr>" using c1 unfolding framed_def by blast
    then show ?thesis by (simp add: nestedMetadata_def ResetRuleMatchCache_def)
  qed
  have mwo: "framed K c1 (snd (matchWithOuterGroups e rs c1 g))" if rs: "ruleSetItem r = Some rs" for rs
  proof (cases rs)
    case (RuleSetItem tags sets ms ae)
    then have "2 \<in> K \<or> \<not> limited ms h" if "s \<in> set sets" "h \<in> set (set_rules s)" for s h
      using that lim rs by (auto simp: limited_default.simps [of _ r])
    then show ?thesis using rules rs RuleSetItem by (auto intro!: set_loop_framed simp: n)
  qed
  show ?thesis
    unfolding matchInner.simps [of e r c] eg
    using c1 mwo by (auto intro: framed_trans framed_trans [OF framed_trans [OF c1] framed_clear]
        simp: Let_def split: option.split prod.split)
qed

lemma default_Match_framed:
  assumes "framed K c (snd (matchInner e r c))"
  shows "framed K c (snd (default_Match e r c))"
  using assms by (auto simp: default_Match.simps [of e r c] intro: framed_trans split: prod.split)

lemma logical_Match_framed:
  assumes "\<And>h. h \<in> set rules \<Longrightarrow> framed K (ResetRuleCache c) (snd (rule_Match e h (ResetRuleCache c)))"
  shows "framed K c (snd (logical_Match e (LogicalRule rules mode inverted) c))"
proof -
  define res where "res = (if mode = LogicalTypeAnd then and_loop e rules c 0 else or_loop e rules c False 0)"
  have "within K (snd res)"
    using assms by (simp add: res_def and_loop_within or_loop_within)
  moreover have "logical_Match e (LogicalRule rules mode inverted) c = logical_end inverted c (fst res) (snd res)"
    by (simp only: logical_Match.simps res_def Let_def case_prod_unfold)
  ultimately show ?thesis by (simp add: logical_end_def)
qed

text \<open>Matching writes the deferred groups only, and only if the rule has address conditions.\<close>

lemma rule_Match_framed:
  "2 \<in> K \<or> \<not> limited (IPCIDRMatchSource c) h \<Longrightarrow> framed K c (snd (rule_Match e h c))"
proof -
  let ?D = "\<lambda>r. \<forall>c. 2 \<in> K \<or> \<not> limited_default (IPCIDRMatchSource c) r \<longrightarrow> framed K c (snd (default_Match e r c))"
  let ?H = "\<lambda>h. \<forall>c. 2 \<in> K \<or> \<not> limited (IPCIDRMatchSource c) h \<longrightarrow> framed K c (snd (rule_Match e h c))"
  let ?L = "\<lambda>l. \<forall>c. 2 \<in> K \<or> \<not> limited_logical l \<longrightarrow> framed K c (snd (logical_Match e l c))"
  let ?S = "\<lambda>s. \<forall>h\<in>set (set_rules s). ?H h"
  let ?R = "\<lambda>rs. \<forall>s\<in>set (setList rs). ?S s"
  have "?H h"
  proof (induction h rule: HeadlessRule.induct [where ?P1.0 = ?D and ?P2.0 = ?R and ?P3.0 = ?S and ?P5.0 = ?L])
    case (DefaultRule x1 x2 x3 x4 x5 x6 x7 x8 x9)
    then show ?case by (fastforce intro!: default_Match_framed matchInner_framed)
  next
    case (LogicalRule rules mode inverted)
    then show ?case by (fastforce intro!: logical_Match_framed)
  next
    case (DNSDefault r onResponse tag isRace)
    then show ?case by (auto split: option.split)
  qed auto
  then show "2 \<in> K \<or> \<not> limited (IPCIDRMatchSource c) h \<Longrightarrow> framed K c (snd (rule_Match e h c))" by blast
qed

subsection \<open>Conditions that do not depend on the answer\<close>

text \<open>Items that look neither at the addresses of the destination nor at the response.\<close>

fun plain :: "rule_item \<Rightarrow> bool" where
  "plain (IPCIDRItem ipSet isSource) \<longleftrightarrow> isSource"
| "plain (IPIsPrivateItem isSource) \<longleftrightarrow> isSource"
| "plain IPAcceptAnyItem \<longleftrightarrow> False"
| "plain (DNSResponseRCodeItem rcode) \<longleftrightarrow> False"
| "plain (DNSResponseRecordItem records selector) \<longleftrightarrow> False"
| "plain (PreferredByItem outbounds) \<longleftrightarrow> False"
| "plain _ \<longleftrightarrow> True"

fun is_cidr :: "rule_item \<Rightarrow> bool" where
  "is_cidr (IPCIDRItem ipSet isSource) \<longleftrightarrow> True"
| "is_cidr _ \<longleftrightarrow> False"

text \<open>What plain items see of a context.\<close>

definition query_view :: "InboundContext \<Rightarrow> InboundContext" where
  "query_view c = c\<lparr>DNSResponse := None, DestinationAddressMatchFromResponse := False,
     IPCIDRMatchSource := False, IPCIDRAcceptEmpty := False, SourceAddressMatch := False,
     SourcePortMatch := False, DestinationAddressMatch := False, DestinationPortMatch := False,
     DeferredIPCIDRMatchGroups := 0, IgnoreDestinationIPCIDRMatch := False\<rparr>"

lemma query_view_item: "plain it \<Longrightarrow> item_Match e it (query_view c) = item_Match e it c"
  by (cases it)
     (simp_all add: query_view_def InboundItem_Match_def IPVersionItem_Match_def NetworkItem_Match_def
       AuthUserItem_Match_def ProtocolItem_Match_def ClientItem_Match_def DomainItem_Match_def
       DomainKeywordItem_Match_def DomainRegexItem_Match_def AdGuardDomainItem_Match_def domainHost_def
       IPCIDRItem_Match_def IPIsPrivateItem_Match_def PortItem_Match_def PortRangeItem_Match_def
       ProcessItem_Match_def ProcessPathItem_Match_def ProcessPathRegexItem_Match_def
       PackageNameItem_Match_def PackageNameRegexItem_Match_def UserItem_Match_def UserIdItem_Match_def
       OutboundItem_Match_def SourceMACAddressItem_Match_def SourceHostnameItem_Match_def
       PreferredByDNSItem_Match_def QueryTypeItem_Match_def QueryClientSubnetItem_Match_def
       QueryDNSSECItem_Match_def)

text \<open>A context before the answer and one after it.\<close>

definition answered :: "InboundContext \<Rightarrow> InboundContext \<Rightarrow> bool" where
  "answered c f \<longleftrightarrow> query_view c = query_view f \<and> IPCIDRMatchSource c = IPCIDRMatchSource f \<and>
     IgnoreDestinationIPCIDRMatch c \<and> \<not> IgnoreDestinationIPCIDRMatch f"

lemma answered_plain: "answered c f \<Longrightarrow> plain it \<Longrightarrow> item_Match e it c = item_Match e it f"
  by (metis answered_def query_view_item)

lemma answered_cidr:
  assumes "answered c f" "IPCIDRMatchSource c" "is_cidr it"
  shows "item_Match e it c = item_Match e it f"
proof -
  have "Source c = Source (query_view c)" "Source f = Source (query_view f)" by (simp_all add: query_view_def)
  then have "Source c = Source f" using assms(1) by (simp add: answered_def)
  then show ?thesis using assms by (cases it) (simp_all add: answered_def IPCIDRItem_Match_def)
qed

lemma query_view_reset [simp]:
  "query_view (ResetRuleMatchCache c) = query_view c"
  "query_view (ResetRuleCache c) = query_view c"
  "query_view (nestedMetadata ms ae c) = query_view c"
  "query_view (add_deferred c d) = query_view c"
  by (simp_all add: query_view_def ResetRuleMatchCache_def ResetRuleCache_def nestedMetadata_def add_deferred_def)

lemma ignore_reset [simp]:
  "IgnoreDestinationIPCIDRMatch (ResetRuleMatchCache c) = IgnoreDestinationIPCIDRMatch c"
  "IgnoreDestinationIPCIDRMatch (ResetRuleCache c) = IgnoreDestinationIPCIDRMatch c"
  "IgnoreDestinationIPCIDRMatch (nestedMetadata ms ae c) = IgnoreDestinationIPCIDRMatch c"
  "IgnoreDestinationIPCIDRMatch (add_deferred c d) = IgnoreDestinationIPCIDRMatch c"
  by (simp_all add: ResetRuleMatchCache_def ResetRuleCache_def nestedMetadata_def add_deferred_def)

lemma answered_nested:
  "answered c f \<Longrightarrow> answered (ResetRuleMatchCache c) (ResetRuleMatchCache f)"
  "answered c f \<Longrightarrow> answered (ResetRuleCache c) (ResetRuleCache f)"
  "answered c f \<Longrightarrow> answered (nestedMetadata ms ae c) (nestedMetadata ms ae f)"
  by (simp_all add: answered_def)

subsection \<open>Rules the pre-match can be trusted with\<close>

definition plain_rule :: "bool \<Rightarrow> abstractDefaultRule \<Rightarrow> bool" where
  "plain_rule ms r \<longleftrightarrow>
     list_all plain (items r @ sourceAddressItems r @ sourcePortItems r @ destinationAddressItems r @ destinationPortItems r) \<and>
     (ms \<longrightarrow> list_all is_cidr (destinationIPCIDRItems r))"

text \<open>Domain conditions and address conditions do not share a group.\<close>

definition unmixed :: "(bool \<times> abstractDefaultRule) list \<Rightarrow> bool" where
  "unmixed rs \<longleftrightarrow> (\<forall>(ms, r)\<in>set rs. destinationAddressItems r = []) \<or>
     (\<forall>(ms, r)\<in>set rs. ms \<or> destinationIPCIDRItems r = [])"

text \<open>
  Rules for which the pre-match is exact up to deferral: all conditions but those on the destination's
  addresses are plain, no group mixes domains and addresses (also not through merging), and no rule
  with domain conditions refers to an unmergeable rule set with address conditions.
\<close>

function (sequential) separable :: "bool \<Rightarrow> HeadlessRule \<Rightarrow> bool"
  and separable_default :: "bool \<Rightarrow> abstractDefaultRule \<Rightarrow> bool"
  and separable_logical :: "abstractLogicalRule \<Rightarrow> bool"
where
  "separable ms (RouteDefault r) = separable_default ms r"
| "separable ms (HeadlessDefault r) = separable_default ms r"
| "separable ms (DNSDefault r onResponse tag isRace) \<longleftrightarrow> \<not> onResponse \<and> separable_default ms r"
| "separable ms (RouteLogical l) = separable_logical l"
| "separable ms (HeadlessLogical l) = separable_logical l"
| "separable ms (DNSLogical l tags anonymous isRace) = separable_logical l"
| "separable_default ms r \<longleftrightarrow> plain_rule ms r \<and>
     (case ruleSetItem r of
        None \<Rightarrow> unmixed [(ms, r)]
      | Some (RuleSetItem tags sets matchSource acceptEmpty) \<Rightarrow>
          \<forall>s\<in>set sets.
            (case mergeableRuleIn (set_rules s) of
               Some b \<Rightarrow> plain_rule matchSource b \<and> unmixed [(ms, r), (matchSource, b)]
             | None \<Rightarrow> unmixed [(ms, r)] \<and> (\<forall>h\<in>set (set_rules s). separable matchSource h) \<and>
                 (destinationAddressItems r = [] \<or> (\<forall>h\<in>set (set_rules s). \<not> limited matchSource h))))"
| "separable_logical (LogicalRule rules mode inverted) \<longleftrightarrow> (\<forall>h\<in>set rules. separable False h)"
  by pat_completeness auto

termination
  by (relation "measure (\<lambda>call. case call of
        Inl (ms, h) \<Rightarrow> size h | Inr (Inl (ms, r)) \<Rightarrow> size r | Inr (Inr l) \<Rightarrow> size l)")
     (auto simp: rule_set_item_size dest!: size_member [of _ _ size])

declare separable_default.simps [simp del]

subsection \<open>The groups before and after the answer\<close>

definition outstanding :: "abstractDefaultRule \<Rightarrow> InboundContext \<Rightarrow> bool" where
  "outstanding r c \<longleftrightarrow> \<not> IPCIDRMatchSource c \<and> destinationIPCIDRItems r \<noteq> []"

lemma active_items_answered:
  assumes "answered c f"
  shows "active_items r f g = active_items r c g @
    (if g = DestinationAddress \<and> outstanding r c then destinationIPCIDRItems r else [])"
  using assms by (cases g) (auto simp: active_items_def answered_def outstanding_def)

lemma matchAnyItem_answered:
  assumes "answered c f" "plain_rule (IPCIDRMatchSource c) r"
  shows "matchAnyItem e (active_items r c g) f = matchAnyItem e (active_items r c g) c"
proof -
  have "item_Match e it c = item_Match e it f" if "it \<in> set (active_items r c g)" for it
  proof -
    have "plain it \<or> (IPCIDRMatchSource c \<and> is_cidr it)"
      using that assms by (cases g) (auto simp: active_items_def plain_rule_def answered_def list_all_iff split: if_splits)
    then show ?thesis using answered_plain [OF assms(1)] answered_cidr [OF assms(1)] by blast
  qed
  then show ?thesis by (auto simp: matchAnyItem_def list_ex_iff)
qed

text \<open>Pairs of a rule with the contexts it is evaluated in before and after the answer.\<close>

definition answered_rules :: "(abstractDefaultRule \<times> InboundContext \<times> InboundContext) list \<Rightarrow> bool" where
  "answered_rules ts \<longleftrightarrow> (\<forall>(r, c, f)\<in>set ts. answered c f \<and> plain_rule (IPCIDRMatchSource c) r) \<and>
     unmixed (map (\<lambda>(r, c, f). (IPCIDRMatchSource c, r)) ts)"

abbreviation (input) before :: "(abstractDefaultRule \<times> InboundContext \<times> InboundContext) list \<Rightarrow> (abstractDefaultRule \<times> InboundContext) list" where
  "before ts \<equiv> map (\<lambda>(r, c, f). (r, c)) ts"

abbreviation (input) after :: "(abstractDefaultRule \<times> InboundContext \<times> InboundContext) list \<Rightarrow> (abstractDefaultRule \<times> InboundContext) list" where
  "after ts \<equiv> map (\<lambda>(r, c, f). (r, f)) ts"

lemma unmixed_no_outstanding:
  assumes "answered_rules ts" "(r, c, f) \<in> set ts" "active_items r c DestinationAddress \<noteq> []" "(r', c', f') \<in> set ts"
  shows "\<not> outstanding r' c'"
proof -
  have "destinationAddressItems r \<noteq> []"
    using assms(1-3) by (auto simp: answered_rules_def active_items_def answered_def split: if_splits)
  then show ?thesis using assms(1,2,4) by (fastforce simp: answered_rules_def unmixed_def outstanding_def)
qed

lemma groups_after:
  assumes "groups_met_by active_items e (after ts)" "answered_rules ts"
  shows "groups_met_by active_items e (before ts)"
  unfolding groups_met_by_def
proof (intro ballI impI)
  fix g assume "\<exists>(r, c)\<in>set (before ts). active_items r c g \<noteq> []"
  then obtain r c f where r: "(r, c, f) \<in> set ts" "active_items r c g \<noteq> []" by auto
  then have "active_items r f g \<noteq> []"
    using assms(2) active_items_answered [of c f r g] by (auto simp: answered_rules_def)
  then obtain r' c' f' where r': "(r', c', f') \<in> set ts" "matchAnyItem e (active_items r' f' g) f'"
    using assms(1) r(1) by (fastforce simp: groups_met_by_def)
  have a: "answered c' f'" "plain_rule (IPCIDRMatchSource c') r'" using r'(1) assms(2) by (auto simp: answered_rules_def)
  have "\<not> (g = DestinationAddress \<and> outstanding r' c')"
    using unmixed_no_outstanding [OF assms(2) r(1) _ r'(1)] r(2) by blast
  then have "active_items r' f' g = active_items r' c' g"
    using active_items_answered [OF a(1), of r' g] by auto
  then have "matchAnyItem e (active_items r' c' g) c'" using r'(2) matchAnyItem_answered [OF a] by simp
  then show "\<exists>(r, c)\<in>set (before ts). matchAnyItem e (active_items r c g) c" using r'(1) by force
qed

lemma groups_before:
  assumes "groups_met_by active_items e (before ts)" "answered_rules ts"
    and "\<And>r c f. (r, c, f) \<in> set ts \<Longrightarrow> \<not> outstanding r c"
  shows "groups_met_by active_items e (after ts)"
  unfolding groups_met_by_def
proof (intro ballI impI)
  have same: "active_items r f g = active_items r c g"
    "matchAnyItem e (active_items r f g) f = matchAnyItem e (active_items r c g) c"
    if "(r, c, f) \<in> set ts" for r c f g
  proof -
    have a: "answered c f" "plain_rule (IPCIDRMatchSource c) r" using that assms(2) by (auto simp: answered_rules_def)
    then show "active_items r f g = active_items r c g"
      using active_items_answered [OF a(1)] assms(3) [OF that] by simp
    then show "matchAnyItem e (active_items r f g) f = matchAnyItem e (active_items r c g) c"
      using matchAnyItem_answered [OF a] by simp
  qed
  fix g assume "\<exists>(r, c)\<in>set (after ts). active_items r c g \<noteq> []"
  then obtain r c f where "(r, c, f) \<in> set ts" "active_items r f g \<noteq> []" by auto
  then have "(r, c) \<in> set (before ts) \<and> active_items r c g \<noteq> []" using same(1) by force
  then have "\<exists>(r, c)\<in>set (before ts). matchAnyItem e (active_items r c g) c"
    using assms(1) unfolding groups_met_by_def by fastforce
  then obtain r' c' f' where "(r', c', f') \<in> set ts" "matchAnyItem e (active_items r' c' g) c'" by auto
  then have "(r', f') \<in> set (after ts) \<and> matchAnyItem e (active_items r' f' g) f'" using same(2) by force
  then show "\<exists>(r, c)\<in>set (after ts). matchAnyItem e (active_items r c g) c" by blast
qed

text \<open>A rule with outstanding conditions defers, unless the answer is already in its domains.\<close>

lemma defers_outstanding:
  assumes "answered_rules ts" "(r, c, f) \<in> set ts"
  shows "defers r c \<longleftrightarrow> outstanding r c"
proof -
  have "IgnoreDestinationIPCIDRMatch c" using assms by (auto simp: answered_rules_def answered_def)
  moreover have "destinationAddressItems r = []" if "outstanding r c"
    using unmixed_no_outstanding [OF assms _ assms(2)] that calculation
    by (auto simp: active_items_def outstanding_def)
  ultimately show ?thesis by (auto simp: defers_def outstanding_def)
qed

lemma satisfied_address:
  "bit (satisfied (fst (evaluateGroups e r c))) 2 \<longleftrightarrow> matchAnyItem e (active_items r c DestinationAddress) c"
  unfolding satisfied_bits ex_group by simp

lemma deferred_evaluateGroups:
  "DeferredIPCIDRMatchGroups c = 0 \<Longrightarrow>
   DeferredIPCIDRMatchGroups (snd (evaluateGroups e r c)) = (if defers r c then ruleMatchDestinationAddress else 0)"
  by (simp add: evaluateGroups_context add_deferred_def)

subsection \<open>The pre-match approximates the match\<close>

text \<open>The result of a pre-match: no match rules the rule out, a match without deferred groups
  decides it, a match with deferred groups leaves it open.\<close>

definition approximates :: "bool \<times> InboundContext \<Rightarrow> bool \<Rightarrow> bool" where
  "approximates res v \<longleftrightarrow> (\<not> fst res \<longrightarrow> \<not> v) \<and> (fst res \<and> DeferredIPCIDRMatchGroups (snd res) = 0 \<longrightarrow> v)"

lemma or_eq_0 [simp]: "(a :: 'a::len word) OR b = 0 \<longleftrightarrow> a = 0 \<and> b = 0"
  by (auto simp: word_eq_0_iff bit_or_iff)

lemma matchAnyHeadlessRule_approximates:
  assumes "\<And>h. h \<in> set rules \<Longrightarrow> approximates (rule_Match e h (ResetRuleMatchCache c)) (V h)"
    and "DeferredIPCIDRMatchGroups c = 0" "m \<longrightarrow> d \<noteq> 0"
  shows "let res = matchAnyHeadlessRule e rules c m d in
    (\<not> fst res \<longrightarrow> \<not> m \<and> (\<forall>h\<in>set rules. \<not> V h)) \<and>
    (fst res \<and> DeferredIPCIDRMatchGroups (snd res) = 0 \<longrightarrow> (\<exists>h\<in>set rules. V h))"
  using assms
proof (induction rules arbitrary: m d)
  case (Cons h rules)
  obtain b n where h: "rule_Match e h (ResetRuleMatchCache c) = (b, n)" by (metis prod.exhaust)
  then have a: "\<not> b \<Longrightarrow> \<not> V h" "b \<Longrightarrow> DeferredIPCIDRMatchGroups n = 0 \<Longrightarrow> V h"
    using Cons.prems(1) [of h] by (auto simp: approximates_def)
  have IH: "m \<longrightarrow> d \<noteq> 0 \<Longrightarrow> let res = matchAnyHeadlessRule e rules c m d in
    (\<not> fst res \<longrightarrow> \<not> m \<and> (\<forall>h\<in>set rules. \<not> V h)) \<and>
    (fst res \<and> DeferredIPCIDRMatchGroups (snd res) = 0 \<longrightarrow> (\<exists>h\<in>set rules. V h))" for m d
    using Cons.prems(1,2) by (intro Cons.IH) auto
  show ?case
    using a h IH [of m d] IH [of True "d OR DeferredIPCIDRMatchGroups n"] Cons.prems(3)
    by (cases b; cases "DeferredIPCIDRMatchGroups n = 0") (auto simp: Let_def)
qed (auto simp: loop_end_def add_deferred_def)

lemma set_Match_approximates:
  assumes "\<And>h. h \<in> set (set_rules s) \<Longrightarrow> approximates (rule_Match e h (ResetRuleMatchCache c)) (V h)"
    and "DeferredIPCIDRMatchGroups c = 0"
  shows "approximates (set_Match e s c) (\<exists>h\<in>set (set_rules s). V h)"
  using matchAnyHeadlessRule_approximates [OF assms, where m = False and d = 0]
  by (cases s) (auto simp: approximates_def Let_def)

lemma and_loop_approximates:
  assumes "\<And>h. h \<in> set rules \<Longrightarrow> approximates (rule_Match e h (ResetRuleCache c)) (V h)"
  shows "let res = and_loop e rules c d in
    (\<not> fst res \<longrightarrow> (\<exists>h\<in>set rules. \<not> V h)) \<and> (fst res \<and> snd res = 0 \<longrightarrow> d = 0 \<and> (\<forall>h\<in>set rules. V h))"
  using assms
proof (induction rules arbitrary: d)
  case (Cons h rules)
  obtain b n where h: "rule_Match e h (ResetRuleCache c) = (b, n)" by (metis prod.exhaust)
  then have a: "\<not> b \<Longrightarrow> \<not> V h" "b \<Longrightarrow> DeferredIPCIDRMatchGroups n = 0 \<Longrightarrow> V h"
    using Cons.prems(1) [of h] by (auto simp: approximates_def)
  have IH: "let res = and_loop e rules c d in
    (\<not> fst res \<longrightarrow> (\<exists>h\<in>set rules. \<not> V h)) \<and> (fst res \<and> snd res = 0 \<longrightarrow> d = 0 \<and> (\<forall>h\<in>set rules. V h))" for d
    using Cons.prems(1) by (intro Cons.IH) auto
  show ?case
    using a h IH [of "d OR DeferredIPCIDRMatchGroups n"] by (cases b) (auto simp: Let_def)
qed simp

lemma or_loop_approximates:
  assumes "\<And>h. h \<in> set rules \<Longrightarrow> approximates (rule_Match e h (ResetRuleCache c)) (V h)" "m \<longrightarrow> d \<noteq> 0"
  shows "let res = or_loop e rules c m d in
    (\<not> fst res \<longrightarrow> \<not> m \<and> (\<forall>h\<in>set rules. \<not> V h)) \<and> (fst res \<and> snd res = 0 \<longrightarrow> (\<exists>h\<in>set rules. V h))"
  using assms
proof (induction rules arbitrary: m d)
  case (Cons h rules)
  obtain b n where h: "rule_Match e h (ResetRuleCache c) = (b, n)" by (metis prod.exhaust)
  then have a: "\<not> b \<Longrightarrow> \<not> V h" "b \<Longrightarrow> DeferredIPCIDRMatchGroups n = 0 \<Longrightarrow> V h"
    using Cons.prems(1) [of h] by (auto simp: approximates_def)
  have IH: "m \<longrightarrow> d \<noteq> 0 \<Longrightarrow> let res = or_loop e rules c m d in
    (\<not> fst res \<longrightarrow> \<not> m \<and> (\<forall>h\<in>set rules. \<not> V h)) \<and> (fst res \<and> snd res = 0 \<longrightarrow> (\<exists>h\<in>set rules. V h))" for m d
    using Cons.prems(1) by (intro Cons.IH) auto
  show ?case
    using a h IH [of m d] IH [of True "d OR DeferredIPCIDRMatchGroups n"] Cons.prems(2)
    by (cases b; cases "DeferredIPCIDRMatchGroups n = 0") (auto simp: Let_def)
qed simp

lemma logical_Match_approximates:
  assumes "\<And>h. h \<in> set rules \<Longrightarrow> approximates (rule_Match e h (ResetRuleCache c)) (rule_sem e h (ResetRuleCache f))"
    and "DeferredIPCIDRMatchGroups c = 0"
  shows "approximates (logical_Match e (LogicalRule rules mode inverted) c) (logical_sem e (LogicalRule rules mode inverted) f)"
proof -
  define res where "res = (if mode = LogicalTypeAnd then and_loop e rules c 0 else or_loop e rules c False 0)"
  define v where "v = (if mode = LogicalTypeAnd then \<forall>h\<in>set rules. rule_sem e h (ResetRuleCache f)
      else \<exists>h\<in>set rules. rule_sem e h (ResetRuleCache f))"
  have "(\<not> fst res \<longrightarrow> \<not> v) \<and> (fst res \<and> snd res = 0 \<longrightarrow> v)"
    using and_loop_approximates [OF assms(1), where d = 0]
      or_loop_approximates [OF assms(1), where m = False and d = 0]
    by (auto simp: res_def v_def Let_def)
  moreover have "logical_Match e (LogicalRule rules mode inverted) c = logical_end inverted c (fst res) (snd res)"
    by (simp only: logical_Match.simps res_def Let_def case_prod_unfold)
  moreover have "logical_sem e (LogicalRule rules mode inverted) f \<longleftrightarrow> v \<noteq> inverted"
    by (simp add: v_def)
  ultimately show ?thesis
    using assms(2) by (auto simp: approximates_def logical_end_def add_deferred_def)
qed

lemma default_Match_approximates:
  assumes "approximates (matchInner e r c) (inner_sem e r f)"
  shows "approximates (default_Match e r c) (default_sem e r f)"
  using assms
  by (auto simp: approximates_def default_Match.simps [of e r c] default_sem.simps [of e r f] split: prod.splits)

lemma branchDeferred_zero:
  assumes "DeferredIPCIDRMatchGroups n = 0"
  shows "and_not (DeferredIPCIDRMatchGroups (snd (evaluateGroups e b n))) s = 0 \<longleftrightarrow> \<not> defers b n \<or> bit s 2"
  using assms by (auto simp: deferred_evaluateGroups and_not_eq_0)

text \<open>One merged rule set, before and after the answer.\<close>

lemma merged_approximates:
  assumes ts: "answered_rules [(r, c, f), (b, n, nf)]"
    and g: "merged = mergeWith (fst (evaluateGroups e r c)) (fst (evaluateGroups e b n))"
  shows "\<not> group_done merged \<Longrightarrow> \<not> groups_met_by active_items e [(r, f), (b, nf)]"
    and "group_done merged \<Longrightarrow> \<not> defers r c \<and> \<not> defers b n \<or> bit (satisfied merged) 2 \<Longrightarrow>
      groups_met_by active_items e [(r, f), (b, nf)]"
proof -
  show "\<not> groups_met_by active_items e [(r, f), (b, nf)]" if "\<not> group_done merged"
    using that groups_after [OF _ ts, of e] by (auto simp: g group_done_merged)
  assume d: "group_done merged" and nd: "\<not> defers r c \<and> \<not> defers b n \<or> bit (satisfied merged) 2"
  have "\<not> outstanding r c \<and> \<not> outstanding b n"
  proof (cases "bit (satisfied merged) 2")
    case True
    then have "active_items r c DestinationAddress \<noteq> [] \<or> active_items b n DestinationAddress \<noteq> []"
      by (auto simp: g mergeWith_def bit_or_iff satisfied_address)
    then show ?thesis using unmixed_no_outstanding [OF ts] by (metis list.set_intros)
  next
    case False
    then show ?thesis using nd defers_outstanding [OF ts] by (metis list.set_intros)
  qed
  then show "groups_met_by active_items e [(r, f), (b, nf)]"
    using d groups_before [OF _ ts, of e] by (auto simp: g group_done_merged)
qed

lemma single_approximates:
  assumes ts: "answered_rules [(r, c, f)]" and g: "g = fst (evaluateGroups e r c)"
  shows "\<not> group_done g \<Longrightarrow> \<not> groups_met_by active_items e [(r, f)]"
    and "group_done g \<Longrightarrow> \<not> defers r c \<or> bit (satisfied g) 2 \<Longrightarrow> groups_met_by active_items e [(r, f)]"
proof -
  show "\<not> groups_met_by active_items e [(r, f)]" if "\<not> group_done g"
    using that groups_after [OF _ ts, of e] by (auto simp: g group_done_single)
  assume d: "group_done g" and nd: "\<not> defers r c \<or> bit (satisfied g) 2"
  have "\<not> outstanding r c"
    using nd defers_outstanding [OF ts] unmixed_no_outstanding [OF ts, of r c f r c f]
    by (auto simp: g satisfied_address dest: matchAnyItem_nonempty)
  then show "groups_met_by active_items e [(r, f)]"
    using d groups_before [OF _ ts, of e] by (auto simp: g group_done_single)
qed

text \<open>The loop over rule sets. The metadata it starts from is the one that \<open>evaluateGroups\<close> leaves; a
  recorded match has deferred the destination address, which the rule's own groups do not satisfy.\<close>

definition set_separable :: "bool \<Rightarrow> bool \<Rightarrow> abstractDefaultRule \<Rightarrow> RuleSet \<Rightarrow> bool" where
  "set_separable ms matchSource r s \<longleftrightarrow>
     (case mergeableRuleIn (set_rules s) of
        Some b \<Rightarrow> plain_rule matchSource b \<and> unmixed [(ms, r), (matchSource, b)]
      | None \<Rightarrow> unmixed [(ms, r)] \<and> (\<forall>h\<in>set (set_rules s). separable matchSource h) \<and>
          (destinationAddressItems r = [] \<or> (\<forall>h\<in>set (set_rules s). \<not> limited matchSource h)))"

definition loop_approximates :: "bool \<times> InboundContext \<Rightarrow> u8 \<Rightarrow> bool \<Rightarrow> bool \<Rightarrow> bool" where
  "loop_approximates res sat m v \<longleftrightarrow> (\<not> fst res \<longrightarrow> \<not> m \<and> \<not> v) \<and>
     (fst res \<and> and_not (DeferredIPCIDRMatchGroups (snd res)) sat = 0 \<longrightarrow> v)"

lemma answered_evaluateGroups: "answered n nf \<Longrightarrow> answered (snd (evaluateGroups e b n)) nf"
  by (simp add: evaluateGroups_context answered_def) (simp add: add_deferred_def)

lemma merged_step:
  assumes "mergeableRuleIn (set_rules s) = Some b" and ts: "answered_rules [(r, c, f), (b, n, nf)]"
    and "nf = nestedMetadata matchSource ae f"
    and g: "g = fst (evaluateGroups e r c)" and c1: "c1 = snd (evaluateGroups e r c)"
    and n: "nestedMetadata matchSource ae c1 = n" and d: "DeferredIPCIDRMatchGroups c = 0"
    and full: "groups_met e [(r, f), (b, nf)] = groups_met_by active_items e [(r, f), (b, nf)]"
  obtains "\<not> set_sem e r matchSource ae f s"
      "set_loop e (s # sets) matchSource ae c1 g m dd = set_loop e sets matchSource ae c1 g m dd"
  | x where "bit x 2" "\<not> bit (satisfied g) 2"
      "set_loop e (s # sets) matchSource ae c1 g m dd = set_loop e sets matchSource ae c1 g True (dd OR x)"
  | c' where "set_loop e (s # sets) matchSource ae c1 g m dd = (True, c')"
      "and_not (DeferredIPCIDRMatchGroups c') (satisfied g) = 0 \<longrightarrow> set_sem e r matchSource ae f s"
proof -
  define bg n' where "bg = fst (evaluateGroups e b n)" and "n' = snd (evaluateGroups e b n)"
  define merged where "merged = mergeWith g bg"
  define x where "x = and_not (DeferredIPCIDRMatchGroups n') (satisfied merged)"
  have d0: "DeferredIPCIDRMatchGroups n = 0" using n by auto
  have sat: "bit (satisfied g) k \<Longrightarrow> bit (satisfied merged) k" for k
    by (simp add: merged_def mergeWith_def bit_or_iff)
  have items_eq: "(\<forall>it\<in>set (items b). item_Match e it n') \<longleftrightarrow> (\<forall>it\<in>set (items b). item_Match e it nf)"
    using ts by (auto simp: n'_def answered_rules_def plain_rule_def list_all_iff
        dest: answered_plain [OF answered_evaluateGroups, of n nf _ e e b])
  have sem: "set_sem e r matchSource ae f s \<longleftrightarrow> (\<forall>it\<in>set (items b). item_Match e it n') \<and>
      groups_met_by active_items e [(r, f), (b, nf)]"
    unfolding items_eq using full assms(3) by (simp add: set_sem_def assms(1))
  have merge: "evaluateForMerge e b n = (if \<forall>it\<in>set (items b). item_Match e it n' then Some bg else None, n')"
    by (simp add: evaluateForMerge_def bg_def n'_def list_all_iff split: prod.split)
  have x0: "x = 0 \<longleftrightarrow> \<not> defers b n \<or> bit (satisfied merged) 2"
    unfolding x_def n'_def by (rule branchDeferred_zero [OF d0])
  have merged': "merged = mergeWith (fst (evaluateGroups e r c)) (fst (evaluateGroups e b n))"
    by (simp add: merged_def g bg_def)
  consider (no) "\<not> (\<forall>it\<in>set (items b). item_Match e it n') \<or> \<not> group_done merged"
    | (decided) "\<forall>it\<in>set (items b). item_Match e it n'" "group_done merged" "x = 0"
    | (deferred) "\<forall>it\<in>set (items b). item_Match e it n'" "group_done merged" "x \<noteq> 0" by blast
  then show ?thesis
  proof cases
    case no
    then have "\<not> set_sem e r matchSource ae f s"
      using sem merged_approximates(1) [OF ts merged'] by blast
    moreover have "set_loop e (s # sets) matchSource ae c1 g m dd = set_loop e sets matchSource ae c1 g m dd"
      using no assms(1) merge n by (auto simp: Let_def merged_def)
    ultimately show ?thesis using that(1) by blast
  next
    case decided
    have "set_loop e (s # sets) matchSource ae c1 g m dd = (True, clear_deferred c1 (satisfied merged))"
      using decided assms(1) merge n by (simp add: Let_def merged_def x_def)
    moreover have "set_sem e r matchSource ae f s"
      if "and_not (DeferredIPCIDRMatchGroups (clear_deferred c1 (satisfied merged))) (satisfied g) = 0"
    proof -
      have "\<not> defers r c \<or> bit (satisfied merged) 2"
        using that sat by (auto simp: clear_deferred_def c1 deferred_evaluateGroups [OF d] and_not_eq_0 split: if_splits)
      then show ?thesis using decided x0 sem merged_approximates(2) [OF ts merged'] by blast
    qed
    ultimately show ?thesis using that(3) by blast
  next
    case deferred
    then have "bit x 2" "\<not> bit (satisfied g) 2"
      using x0 sat deferred_evaluateGroups [OF d0, of e b] by (auto simp: x_def n'_def)
    moreover have "set_loop e (s # sets) matchSource ae c1 g m dd = set_loop e sets matchSource ae c1 g True (dd OR x)"
      using deferred assms(1) merge n by (simp add: Let_def merged_def x_def)
    ultimately show ?thesis using that(2) by blast
  qed
qed

lemma set_Match_framed:
  assumes "2 \<in> K \<or> (\<forall>h\<in>set (set_rules s). \<not> limited (IPCIDRMatchSource n) h)"
  shows "framed K n (snd (set_Match e s n))"
proof -
  have "framed K n (snd (matchAnyHeadlessRule e (set_rules s) n False 0))"
    using assms by (intro matchAnyHeadlessRule_framed rule_Match_framed) auto
  then show ?thesis by (cases s) simp
qed

lemma other_step:
  assumes "mergeableRuleIn (set_rules s) = None" and ts: "answered_rules [(r, c, f)]"
    and sep: "set_separable (IPCIDRMatchSource c) matchSource r s"
    and g: "g = fst (evaluateGroups e r c)" and c1: "c1 = snd (evaluateGroups e r c)"
    and n: "nestedMetadata matchSource ae c1 = n" and d: "DeferredIPCIDRMatchGroups c = 0"
    and full: "groups_met e [(r, f)] = groups_met_by active_items e [(r, f)]"
    and set: "approximates (set_Match e s n) (\<exists>h\<in>set (set_rules s). rule_sem e h (nestedMetadata matchSource ae f))"
  obtains "\<not> set_sem e r matchSource ae f s"
      "set_loop e (s # sets) matchSource ae c1 g m dd = set_loop e sets matchSource ae c1 g m dd"
  | x where "bit x 2" "\<not> bit (satisfied g) 2"
      "set_loop e (s # sets) matchSource ae c1 g m dd = set_loop e sets matchSource ae c1 g True (dd OR x)"
  | c' where "set_loop e (s # sets) matchSource ae c1 g m dd = (True, c')"
      "and_not (DeferredIPCIDRMatchGroups c') (satisfied g) = 0 \<longrightarrow> set_sem e r matchSource ae f s"
proof -
  obtain b n' where bn: "set_Match e s n = (b, n')" by (metis prod.exhaust)
  have d0: "DeferredIPCIDRMatchGroups n = 0" "IPCIDRMatchSource n = matchSource" using n by auto
  have sem: "set_sem e r matchSource ae f s \<longleftrightarrow> groups_met_by active_items e [(r, f)] \<and>
      (\<exists>h\<in>set (set_rules s). rule_sem e h (nestedMetadata matchSource ae f))"
    unfolding full [symmetric] by (simp add: set_sem_def assms(1))
  consider (no) "\<not> group_done g \<or> \<not> b" | (decided) "group_done g" b "DeferredIPCIDRMatchGroups n' = 0"
    | (deferred) "group_done g" b "DeferredIPCIDRMatchGroups n' \<noteq> 0" by blast
  then show ?thesis
  proof cases
    case no
    then have "\<not> set_sem e r matchSource ae f s"
      using sem single_approximates(1) [OF ts g] set bn by (auto simp: approximates_def)
    moreover have "set_loop e (s # sets) matchSource ae c1 g m dd = set_loop e sets matchSource ae c1 g m dd"
      using no assms(1) n bn by (auto simp: Let_def)
    ultimately show ?thesis using that(1) by blast
  next
    case decided
    have "set_sem e r matchSource ae f s" if "and_not (DeferredIPCIDRMatchGroups c1) (satisfied g) = 0"
    proof -
      have "\<not> defers r c \<or> bit (satisfied g) 2"
        using that by (auto simp: c1 deferred_evaluateGroups [OF d] and_not_eq_0 split: if_splits)
      then show ?thesis
        using decided sem single_approximates(2) [OF ts g] set bn by (auto simp: approximates_def)
    qed
    moreover have "set_loop e (s # sets) matchSource ae c1 g m dd = (True, c1)"
      using decided assms(1) n bn by (simp add: Let_def)
    ultimately show ?thesis using that(3) by blast
  next
    case deferred
    have fr: "framed K n n'" if "2 \<in> K \<or> (\<forall>h\<in>set (set_rules s). \<not> limited matchSource h)" for K
      using that set_Match_framed [of K s n e] bn d0(2) by simp
    have "within {2} (DeferredIPCIDRMatchGroups n')" using framed_deferred [OF fr d0(1)] by simp
    then have "bit (DeferredIPCIDRMatchGroups n') 2" using deferred(3) by (auto simp: within_def word_eq_0_iff)
    moreover have "destinationAddressItems r = []"
    proof (rule ccontr)
      assume "destinationAddressItems r \<noteq> []"
      then have "\<forall>h\<in>set (set_rules s). \<not> limited matchSource h"
        using sep assms(1) by (simp add: set_separable_def)
      then have "within {} (DeferredIPCIDRMatchGroups n')" using framed_deferred [OF fr d0(1)] by blast
      then show False using deferred(3) by (simp add: within_empty)
    qed
    then have "\<not> bit (satisfied g) 2"
      using ts by (auto simp: g satisfied_address active_items_def answered_rules_def answered_def)
    moreover have "set_loop e (s # sets) matchSource ae c1 g m dd =
        set_loop e sets matchSource ae c1 g True (dd OR DeferredIPCIDRMatchGroups n')"
      using deferred assms(1) n bn by (simp add: Let_def)
    ultimately show ?thesis using that(2) by blast
  qed
qed

lemma set_loop_approximates:
  assumes rules: "\<And>s h. s \<in> set sets \<Longrightarrow> mergeableRuleIn (set_rules s) = None \<Longrightarrow> h \<in> set (set_rules s) \<Longrightarrow>
      approximates (rule_Match e h (nestedMetadata matchSource ae c)) (rule_sem e h (nestedMetadata matchSource ae f))"
    and sets: "\<And>s. s \<in> set sets \<Longrightarrow> set_separable (IPCIDRMatchSource c) matchSource r s"
    and r: "plain_rule (IPCIDRMatchSource c) r" and c: "answered c f" "DeferredIPCIDRMatchGroups c = 0"
    and g: "g = fst (evaluateGroups e r c)" and c1: "c1 = snd (evaluateGroups e r c)"
    and m: "m \<longrightarrow> bit d 2 \<and> \<not> bit (satisfied g) 2"
  shows "loop_approximates (set_loop e sets matchSource ae c1 g m d) (satisfied g) m
    (\<exists>s\<in>set sets. set_sem e r matchSource ae f s)"
  using rules sets m
proof (induction sets arbitrary: m d)
  case Nil
  then show ?case
    by (auto simp: loop_approximates_def loop_end_def add_deferred_def and_not_eq_0 bit_or_iff)
next
  case (Cons s sets)
  let ?n = "nestedMetadata matchSource ae c" and ?nf = "nestedMetadata matchSource ae f"
  have n1: "nestedMetadata matchSource ae c1 = ?n"
    by (simp add: c1 evaluateGroups_context add_deferred_def nestedMetadata_def ResetRuleMatchCache_def)
  have full: "groups_met e [(r, f)] = groups_met_by active_items e [(r, f)]"
    "\<And>b. groups_met e [(r, f), (b, ?nf)] = groups_met_by active_items e [(r, f), (b, ?nf)]"
    using c(1) by (auto intro!: groups_met_full [symmetric] simp: answered_def)
  have ans: "answered ?n ?nf" using c(1) by (rule answered_nested)
  have IH: "loop_approximates (set_loop e sets matchSource ae c1 g m d) (satisfied g) m
      (\<exists>s\<in>set sets. set_sem e r matchSource ae f s)" if "m \<longrightarrow> bit d 2 \<and> \<not> bit (satisfied g) 2" for m d
    using that Cons.prems(1,2) by (intro Cons.IH) auto
  have skip: ?case if "\<not> set_sem e r matchSource ae f s"
      "set_loop e (s # sets) matchSource ae c1 g m d = set_loop e sets matchSource ae c1 g m d"
    unfolding that(2) using that(1) IH [OF Cons.prems(3)] by (auto simp: loop_approximates_def)
  have open_: ?case if "bit x 2" "\<not> bit (satisfied g) 2"
      "set_loop e (s # sets) matchSource ae c1 g m d = set_loop e sets matchSource ae c1 g True (d OR x)" for x
    unfolding that(3) using that(1,2) IH [of True "d OR x"] by (auto simp: loop_approximates_def bit_or_iff)
  have found: ?case if "set_loop e (s # sets) matchSource ae c1 g m d = (True, c')"
      "and_not (DeferredIPCIDRMatchGroups c') (satisfied g) = 0 \<longrightarrow> set_sem e r matchSource ae f s" for c'
    unfolding that(1) using that(2) by (auto simp: loop_approximates_def)
  have sep: "set_separable (IPCIDRMatchSource c) matchSource r s" using Cons.prems(2) by simp
  show ?case
  proof (cases "mergeableRuleIn (set_rules s)")
    case (Some b)
    then have ts: "answered_rules [(r, c, f), (b, ?n, ?nf)]"
      using sep c(1) ans r by (simp add: set_separable_def answered_rules_def)
    show ?thesis
      using merged_step [OF Some ts refl g c1 n1 c(2) full(2)] skip open_ found by blast
  next
    case None
    then have ts: "answered_rules [(r, c, f)]"
      using sep c(1) r by (simp add: set_separable_def answered_rules_def)
    have "approximates (set_Match e s ?n) (\<exists>h\<in>set (set_rules s). rule_sem e h ?nf)"
      using Cons.prems(1) [of s] None by (intro set_Match_approximates) auto
    then show ?thesis
      using other_step [OF None ts sep g c1 n1 c(2) full(1)] skip open_ found by blast
  qed
qed

lemma separable_default_sets:
  assumes "separable_default ms r" "ruleSetItem r = Some (RuleSetItem tags sets matchSource ae)" "s \<in> set sets"
  shows "set_separable ms matchSource r s"
  using assms by (simp add: separable_default.simps [of ms r] set_separable_def)

lemma matchInner_approximates:
  assumes rules: "\<And>tags sets ms ae s h. ruleSetItem r = Some (RuleSetItem tags sets ms ae) \<Longrightarrow>
      s \<in> set sets \<Longrightarrow> h \<in> set (set_rules s) \<Longrightarrow> separable ms h \<Longrightarrow>
      approximates (rule_Match e h (nestedMetadata ms ae c)) (rule_sem e h (nestedMetadata ms ae f))"
    and sep: "separable_default (IPCIDRMatchSource c) r" and c: "answered c f" "DeferredIPCIDRMatchGroups c = 0"
  shows "approximates (matchInner e r c) (inner_sem e r f)"
proof -
  have r: "plain_rule (IPCIDRMatchSource c) r" using sep by (simp add: separable_default.simps [of _ r])
  obtain g c1 where eg: "evaluateGroups e r c = (g, c1)" by (metis prod.exhaust)
  have g: "g = fst (evaluateGroups e r c)" and c1: "c1 = snd (evaluateGroups e r c)" using eg by simp_all
  have items_eq: "(\<forall>it\<in>set (items r). item_Match e it c1) \<longleftrightarrow> (\<forall>it\<in>set (items r). item_Match e it f)"
    using r answered_plain [OF answered_evaluateGroups [OF c(1)], of _ e e r]
    by (auto simp: c1 plain_rule_def list_all_iff)
  define res where "res = (case ruleSetItem r of Some rs \<Rightarrow> matchWithOuterGroups e rs c1 g | None \<Rightarrow> (group_done g, c1))"
  define v where "v \<longleftrightarrow> (case ruleSetItem r of None \<Rightarrow> groups_met e [(r, f)]
      | Some (RuleSetItem tags sets ms ae) \<Rightarrow> \<exists>s\<in>set sets. set_sem e r ms ae f s)"
  have "loop_approximates res (satisfied g) False v"
  proof (cases "ruleSetItem r")
    case None
    then have ts: "answered_rules [(r, c, f)]"
      using sep c(1) r by (simp add: separable_default.simps [of _ r] answered_rules_def)
    have "groups_met e [(r, f)] = groups_met_by active_items e [(r, f)]"
      using c(1) by (intro groups_met_full [symmetric]) (simp add: answered_def)
    then show ?thesis
      using single_approximates [OF ts g] None
      by (auto simp: res_def v_def loop_approximates_def c1 deferred_evaluateGroups [OF c(2)] and_not_eq_0 split: if_splits)
  next
    case (Some rs)
    obtain tags sets ms ae where rs: "rs = RuleSetItem tags sets ms ae" by (cases rs)
    have sets: "set_separable (IPCIDRMatchSource c) ms r s" if "s \<in> set sets" for s
      using separable_default_sets [OF sep] Some rs that by blast
    have "loop_approximates (set_loop e sets ms ae c1 g False 0) (satisfied g) False (\<exists>s\<in>set sets. set_sem e r ms ae f s)"
    proof (rule set_loop_approximates [OF _ sets r c g c1])
      fix s h assume s: "s \<in> set sets" "mergeableRuleIn (set_rules s) = None" "h \<in> set (set_rules s)"
      then have "separable ms h" using sets [OF s(1)] by (simp add: set_separable_def)
      then show "approximates (rule_Match e h (nestedMetadata ms ae c)) (rule_sem e h (nestedMetadata ms ae f))"
        using rules Some rs s by blast
    qed auto
    then show ?thesis using Some rs by (simp add: res_def v_def)
  qed
  moreover have "matchInner e r c = (if \<not> (\<forall>it\<in>set (items r). item_Match e it c1) then (False, c1)
      else (fst res, if fst res then clear_deferred (snd res) (satisfied g) else snd res))"
    unfolding matchInner.simps [of e r c] eg Let_def prod.case res_def [symmetric]
    by (simp add: list_all_iff case_prod_unfold)
  moreover have "inner_sem e r f \<longleftrightarrow> (\<forall>it\<in>set (items r). item_Match e it f) \<and> v"
    unfolding inner_sem_unfold v_def by (rule refl)
  ultimately show ?thesis
    using items_eq by (auto simp: approximates_def loop_approximates_def clear_deferred_def)
qed

lemma rule_Match_approximates:
  "separable (IPCIDRMatchSource c) h \<Longrightarrow> answered c f \<Longrightarrow> DeferredIPCIDRMatchGroups c = 0 \<Longrightarrow>
   approximates (rule_Match e h c) (rule_sem e h f)"
proof -
  let ?ok = "\<lambda>c f. answered c f \<and> DeferredIPCIDRMatchGroups c = 0"
  let ?D = "\<lambda>r. \<forall>c f. separable_default (IPCIDRMatchSource c) r \<and> ?ok c f \<longrightarrow>
      approximates (default_Match e r c) (default_sem e r f)"
  let ?H = "\<lambda>h. \<forall>c f. separable (IPCIDRMatchSource c) h \<and> ?ok c f \<longrightarrow> approximates (rule_Match e h c) (rule_sem e h f)"
  let ?L = "\<lambda>l. \<forall>c f. separable_logical l \<and> ?ok c f \<longrightarrow> approximates (logical_Match e l c) (logical_sem e l f)"
  let ?S = "\<lambda>s. \<forall>h\<in>set (set_rules s). ?H h"
  let ?R = "\<lambda>rs. \<forall>s\<in>set (setList rs). ?S s"
  have "?H h"
  proof (induction h rule: HeadlessRule.induct [where ?P1.0 = ?D and ?P2.0 = ?R and ?P3.0 = ?S and ?P5.0 = ?L])
    case (DefaultRule x1 x2 x3 x4 x5 x6 x7 x8 x9)
    let ?r = "DefaultRule x1 x2 x3 x4 x5 x6 x7 x8 x9"
    show ?case
    proof (intro allI impI default_Match_approximates matchInner_approximates)
      fix c f tags sets ms ae s h
      assume "separable_default (IPCIDRMatchSource c) ?r \<and> ?ok c f" "ruleSetItem ?r = Some (RuleSetItem tags sets ms ae)"
        "s \<in> set sets" "h \<in> set (set_rules s)" "separable ms h"
      then show "approximates (rule_Match e h (nestedMetadata ms ae c)) (rule_sem e h (nestedMetadata ms ae f))"
        using DefaultRule answered_nested(3) [of c f ms ae] by auto
    qed auto
  next
    case (LogicalRule rules mode inverted)
    show ?case
    proof (intro allI impI logical_Match_approximates)
      fix c f h
      assume "separable_logical (LogicalRule rules mode inverted) \<and> ?ok c f" "h \<in> set rules"
      then show "approximates (rule_Match e h (ResetRuleCache c)) (rule_sem e h (ResetRuleCache f))"
        using LogicalRule answered_nested(2) [of c f] by auto
    qed auto
  qed auto
  then show "separable (IPCIDRMatchSource c) h \<Longrightarrow> answered c f \<Longrightarrow> DeferredIPCIDRMatchGroups c = 0 \<Longrightarrow>
    approximates (rule_Match e h c) (rule_sem e h f)" by blast
qed

lemma within_address:
  assumes "within {2} d"
  shows "d \<in> {0, ruleMatchDestinationAddress}"
proof (cases "bit d 2")
  case True
  then have "bit d n \<longleftrightarrow> n = 2" for n using assms unfolding within_def by blast
  then have "d = ruleMatchDestinationAddress" by (intro bit_word_eqI) simp
  then show ?thesis by simp
next
  case False
  then have "\<not> bit d n" for n using assms unfolding within_def by blast
  then show ?thesis by (simp add: word_eq_0_iff)
qed

lemma framed_eq: "framed K c c' \<Longrightarrow> c' = c\<lparr>DeferredIPCIDRMatchGroups := DeferredIPCIDRMatchGroups c'\<rparr>"
  unfolding framed_def by (erule conjunct1)

text \<open>C23. Whatever the rule, \<open>Match\<close> changes nothing of the metadata but the deferred groups, and the
  only group it ever defers is the destination address.\<close>

theorem Match_frame:
  "snd (rule_Match e h c) = c\<lparr>DeferredIPCIDRMatchGroups := DeferredIPCIDRMatchGroups (snd (rule_Match e h c))\<rparr> \<and>
   (DeferredIPCIDRMatchGroups c = 0 \<longrightarrow>
      DeferredIPCIDRMatchGroups (snd (rule_Match e h c)) \<in> {0, ruleMatchDestinationAddress})"
proof -
  have f: "framed {2} c (snd (rule_Match e h c))" by (rule rule_Match_framed) simp
  show ?thesis
  proof (rule conjI, rule framed_eq [OF f], rule impI)
    assume "DeferredIPCIDRMatchGroups c = 0"
    then have "within {2} (DeferredIPCIDRMatchGroups (snd (rule_Match e h c)))" by (rule framed_deferred [OF f])
    then show "DeferredIPCIDRMatchGroups (snd (rule_Match e h c)) \<in> {0, ruleMatchDestinationAddress}"
      by (rule within_address)
  qed
qed

theorem Match_frame_witness:
  "DeferredIPCIDRMatchGroups (snd (rule_Match ex_env (RouteDefault ex_rule) ex_ctx)) \<in> {0, ruleMatchDestinationAddress}"
proof -
  have "DeferredIPCIDRMatchGroups ex_ctx = 0" by (simp add: ex_ctx_def)
  then show ?thesis by (rule Match_frame [THEN conjunct2, rule_format])
qed

subsection \<open>Properties of the two-step match\<close>

text \<open>The metadata as \<open>matchDNS\<close> prepares it for a rule.\<close>

definition query_metadata :: "InboundContext \<Rightarrow> InboundContext" where
  "query_metadata c = (ResetRuleCache c)\<lparr>DestinationAddressMatchFromResponse := False\<rparr>"

lemma query_metadata_answered:
  assumes "\<not> IgnoreDestinationIPCIDRMatch c"
  shows "answered ((query_metadata c)\<lparr>IgnoreDestinationIPCIDRMatch := True\<rparr>) (response_metadata (query_metadata c) response)"
  using assms
  by (simp add: answered_def query_view_def query_metadata_def response_metadata_def ResetRuleCache_def ResetRuleMatchCache_def)

lemma response_metadata_evaluating:
  "\<not> IgnoreDestinationIPCIDRMatch c \<Longrightarrow> evaluating (response_metadata (query_metadata c) response)"
  by (simp add: evaluating_def response_metadata_def query_metadata_def ResetRuleCache_def ResetRuleMatchCache_def)

lemma query_metadata_flags [simp]:
  "IPCIDRMatchSource (query_metadata c) = False" "DeferredIPCIDRMatchGroups (query_metadata c) = 0"
  by (simp_all add: query_metadata_def ResetRuleCache_def ResetRuleMatchCache_def)

lemma LegacyPreMatch_approximates:
  assumes "\<not> IgnoreDestinationIPCIDRMatch c" "separable False h"
  shows "approximates (LegacyPreMatch e h (query_metadata c)) (MatchAddressLimit e h (query_metadata c) response)"
proof -
  let ?p = "(query_metadata c)\<lparr>IgnoreDestinationIPCIDRMatch := True\<rparr>"
  let ?f = "response_metadata (query_metadata c) response"
  have a: "approximates (rule_Match e h ?p) (rule_sem e h ?f)"
    using assms by (intro rule_Match_approximates query_metadata_answered) simp_all
  have f: "rule_Match e h ?f = (rule_sem e h ?f, ?f)"
    using rule_Match_evaluating [OF response_metadata_evaluating [OF assms(1)]] .
  have clear: "approximates (without_ignore res) v = approximates res v" for res v
    by (simp add: approximates_def without_ignore_def)
  show ?thesis
  proof (cases h)
    case (DNSDefault r onResponse tag isRace)
    then show ?thesis using a f assms(2) by (simp add: clear)
  next
    case (DNSLogical l tags anonymous isRace)
    then show ?thesis using a f by (simp add: clear)
  qed (simp_all add: approximates_def)
qed

text \<open>C20. The legacy pre-match is sound: for a rule whose address conditions are separable from the
  others, a query for which the pre-match fails matches the rule under no response, and one for which
  it succeeds with nothing deferred matches under every response. So no query is routed away from a
  rule that its answer would have matched.\<close>

theorem pre_match_sound:
  assumes "\<not> IgnoreDestinationIPCIDRMatch c" "separable False h"
  shows "(\<not> fst (LegacyPreMatch e h (query_metadata c)) \<longrightarrow>
      (\<forall>response. \<not> MatchAddressLimit e h (query_metadata c) response)) \<and>
    (fst (LegacyPreMatch e h (query_metadata c)) \<and>
     DeferredIPCIDRMatchGroups (snd (LegacyPreMatch e h (query_metadata c))) = 0 \<longrightarrow>
      (\<forall>response. MatchAddressLimit e h (query_metadata c) response))"
  using LegacyPreMatch_approximates [OF assms] unfolding approximates_def by blast

text \<open>A rule on a domain keyword that is not of the query, beside a set of addresses; inverted.\<close>

definition ex_cidr :: "u32 \<Rightarrow> abstractDefaultRule" where
  "ex_cidr a = DefaultRule [] [] [] [] [IPCIDRItem (\<lambda>b. b = Addr4 a) False] []
     [Some (IPCIDRItem (\<lambda>b. b = Addr4 a) False)] None False"

definition ex_dns_rule :: HeadlessRule where
  "ex_dns_rule = DNSLogical (LogicalRule
     [DNSDefault (DefaultRule [] [] [] [DomainKeywordItem [''nowhere'']] [] [] [Some (DomainKeywordItem [''nowhere''])] None False) False [] False,
      DNSDefault (ex_cidr 0x01020304) False [] False] LogicalTypeAnd True) [] False False"

theorem pre_match_sound_witness:
  "\<forall>response. MatchAddressLimit ex_env ex_dns_rule (query_metadata ex_ctx) response"
proof -
  have "\<not> IgnoreDestinationIPCIDRMatch ex_ctx" by (simp add: ex_ctx_def)
  moreover have "separable False ex_dns_rule" by code_simp
  moreover have "fst (LegacyPreMatch ex_env ex_dns_rule (query_metadata ex_ctx))" by code_simp
  moreover have "DeferredIPCIDRMatchGroups (snd (LegacyPreMatch ex_env ex_dns_rule (query_metadata ex_ctx))) = 0"
    by code_simp
  ultimately show ?thesis using pre_match_sound by blast
qed

text \<open>Rule sets whose metadata tell whether they have address conditions.\<close>

fun described :: "HeadlessRule \<Rightarrow> bool" where
  "described (DNSDefault r onResponse tag isRace) \<longleftrightarrow>
     (case ruleSetItem r of
        None \<Rightarrow> True
      | Some rs \<Rightarrow> \<forall>s\<in>set (setList rs). \<forall>h\<in>set (set_rules s).
          if ipCidrMatchSource rs then \<not> limited True h
          else limited False h \<longrightarrow> ContainsIPCIDRRule (set_metadata s))"
| "described (DNSLogical (LogicalRule rules mode inverted) tags anonymous isRace) \<longleftrightarrow> (\<forall>h\<in>set rules. described h)"
| "described _ \<longleftrightarrow> False"

lemma unlimited: "described h \<Longrightarrow> \<not> WithAddressLimit h \<Longrightarrow> \<not> limited False h"
proof (induction h rule: WithAddressLimit.induct)
  case (1 r onResponse tag isRace)
  then show ?case
    by (auto simp: limited_default.simps [of _ r] ContainsDestinationIPCIDRRule_def list_ex_iff
        split: option.splits RuleSetItem.splits if_splits)
qed auto


definition ex_source_rule :: HeadlessRule where
  "ex_source_rule = DNSDefault (DefaultRule [] [] [] [] [] [] [None]
     (Some (RuleSetItem [''lan''] [RuleSet [HeadlessDefault (ex_cidr 0x0A000001)] no_metadata] True False)) False) False [] False"


subsection \<open>Rules outside the separable ones\<close>

text \<open>The hypothesis on mixed groups is needed: a rule with a domain and an address, which the
  documentation reads as alternatives, fails the pre-match for lack of the domain although the
  response has the address.\<close>

definition ex_response :: "byte list \<Rightarrow> Msg option" where
  "ex_response ip = Some \<lparr>m_Rcode = RcodeSuccess, m_Answer = [RR_A ip], m_Ns = [], m_Extra = []\<rparr>"

definition ex_mixed_rule :: HeadlessRule where
  "ex_mixed_rule = DNSDefault (DefaultRule [] [] [] [DomainKeywordItem [''nowhere'']]
     [IPCIDRItem (\<lambda>b. b = Addr4 0x01020304) False] [] [Some (DomainKeywordItem [''nowhere''])] None False) False [] False"

lemma mixed_rule_lost:
  "\<not> fst (LegacyPreMatch ex_env ex_mixed_rule (query_metadata ex_ctx)) \<and>
   MatchAddressLimit ex_env ex_mixed_rule (query_metadata ex_ctx) (ex_response [1, 2, 3, 4])"
  by code_simp

text \<open>An inverted rule with a domain and an unmergeable rule set of addresses: the domain matches, which
  clears the deferral of the rule set, so the pre-match fails; but the address of the response is not
  in the set, and the inverted rule matches.\<close>

definition ex_inverted_rule :: HeadlessRule where
  "ex_inverted_rule = DNSDefault (DefaultRule [] [] [] [DomainKeywordItem [''example'']] [] []
     [Some (DomainKeywordItem [''example'']), None]
     (Some (RuleSetItem [''ips''] [RuleSet [HeadlessDefault (ex_cidr 0x01020304), HeadlessDefault (ex_cidr 0x01020305)]
        (no_metadata\<lparr>ContainsIPCIDRRule := True\<rparr>)] False False)) True) False [] False"

lemma inverted_rule_lost:
  "\<not> fst (LegacyPreMatch ex_env ex_inverted_rule (query_metadata ex_ctx)) \<and>
   MatchAddressLimit ex_env ex_inverted_rule (query_metadata ex_ctx) (ex_response [5, 6, 7, 8])"
  by code_simp

text \<open>A rule set matched against the source whose \<open>ip_cidr\<close> is below a logical rule: the rule has no
  address limit, so its pre-match is taken as final, but it is only deferred.\<close>

definition ex_nested_source_rule :: HeadlessRule where
  "ex_nested_source_rule = DNSDefault (DefaultRule [] [] [] [] [] [] [None]
     (Some (RuleSetItem [''lan''] [RuleSet [HeadlessLogical (LogicalRule [HeadlessDefault (ex_cidr 0x0A000009)] LogicalTypeOr False)]
        (no_metadata\<lparr>ContainsIPCIDRRule := True\<rparr>)] True False)) False) False [] False"

lemma nested_source_rule_unchecked:
  "addressLimitResponseCheck ex_env (Some ex_nested_source_rule) (query_metadata ex_ctx) = None \<and>
   fst (LegacyPreMatch ex_env ex_nested_source_rule (query_metadata ex_ctx)) \<and>
   \<not> MatchAddressLimit ex_env ex_nested_source_rule (query_metadata ex_ctx) (ex_response [5, 6, 7, 8])"
proof -
  have "\<not> WithAddressLimit ex_nested_source_rule" by code_simp
  moreover have "fst (LegacyPreMatch ex_env ex_nested_source_rule (query_metadata ex_ctx))" by code_simp
  moreover have "\<not> MatchAddressLimit ex_env ex_nested_source_rule (query_metadata ex_ctx) (ex_response [5, 6, 7, 8])"
    by code_simp
  ultimately show ?thesis by (simp add: addressLimitResponseCheck_def)
qed

end
