(* ===== verification/FakeIP.thy ===== *)
theory FakeIP
  imports NetAddr
begin

section \<open>Fake addresses\<close>

text \<open>
  The fake-address DNS transport answers queries with addresses of its own ranges and remembers which
  domain each address stands for. Modelled are the store (\<open>dns/transport/fakeip/store.go\<close>), its
  in-memory storage (\<open>memory.go\<close>), the interface \<open>adapter.FakeIPStorage\<close> and the binary form of
  its metadata (\<open>adapter/fakeip_metadata.go\<close>). Maps of the code are maps here, mutexes are not
  modelled: a section under a mutex is one step, and \<open>CreateLocked\<close> is the section of \<open>Create\<close>
  that runs under \<open>addressAccess\<close>.
\<close>

subsection \<open>Metadata\<close>

record FakeIPMetadata =
  Inet4Range :: Prefix
  Inet6Range :: Prefix
  Inet4Current :: Addr
  Inet6Current :: Addr

definition marshal_element :: "byte list \<Rightarrow> byte list" where
  "marshal_element data = be16 (word_of_nat (length data)) @ data"

definition MarshalBinary :: "FakeIPMetadata \<Rightarrow> byte list" where
  "MarshalBinary m = concat (map marshal_element
     [Prefix_MarshalBinary (Inet4Range m), Prefix_MarshalBinary (Inet6Range m),
      Addr_MarshalBinary (Inet4Current m), Addr_MarshalBinary (Inet6Current m)])"

text \<open>
  One round of the loop of \<open>UnmarshalBinary\<close>: the length, the element and its decoding. \<open>None\<close> is the
  panic of \<open>common.Must\<close> when the length cannot be read.
\<close>

definition unmarshal_element :: "(byte list \<Rightarrow> string + 'a) \<Rightarrow> byte list \<Rightarrow> (string + 'a \<times> byte list) option" where
  "unmarshal_element unmarshal reader = do {
     len \<leftarrow> Uint16 reader;
     let reader = drop 2 reader;
     if length reader < unat len
     then Some (Inl (if reader = [] then ''EOF'' else ''unexpected EOF''))
     else case unmarshal (take (unat len) reader) of
       Inl err \<Rightarrow> Some (Inl err)
     | Inr v \<Rightarrow> Some (Inr (v, drop (unat len) reader)) }"

definition and_then :: "(string + 'a) option \<Rightarrow> ('a \<Rightarrow> (string + 'b) option) \<Rightarrow> (string + 'b) option" where
  "and_then r f = do { x \<leftarrow> r; case x of Inl err \<Rightarrow> Some (Inl err) | Inr v \<Rightarrow> f v }"

definition UnmarshalBinary :: "byte list \<Rightarrow> (string + FakeIPMetadata) option" where
  "UnmarshalBinary data =
     and_then (unmarshal_element Prefix_UnmarshalBinary data) (\<lambda>(r4, reader).
     and_then (unmarshal_element Prefix_UnmarshalBinary reader) (\<lambda>(r6, reader).
     and_then (unmarshal_element Addr_UnmarshalBinary reader) (\<lambda>(c4, reader).
     and_then (unmarshal_element Addr_UnmarshalBinary reader) (\<lambda>(c6, reader).
       Some (Inr \<lparr>Inet4Range = r4, Inet6Range = r6, Inet4Current = c4, Inet6Current = c6\<rparr>)))))"

subsection \<open>Storage\<close>

text \<open>The interface \<open>adapter.FakeIPStorage\<close> on storages of type \<open>'st\<close>; an error is \<open>Some\<close>.\<close>

record 'st FakeIPStorage =
  st_Metadata :: "'st \<Rightarrow> FakeIPMetadata option \<times> 'st"
  st_SaveMetadata :: "FakeIPMetadata \<Rightarrow> 'st \<Rightarrow> string option \<times> 'st"
  st_SaveMetadataAsync :: "FakeIPMetadata \<Rightarrow> 'st \<Rightarrow> 'st"
  st_Store :: "Addr \<Rightarrow> string \<Rightarrow> 'st \<Rightarrow> string option \<times> 'st"
  st_Load :: "Addr \<Rightarrow> 'st \<Rightarrow> string option"
  st_LoadDomain :: "string \<Rightarrow> bool \<Rightarrow> 'st \<Rightarrow> Addr option"
  st_Reset :: "'st \<Rightarrow> string option \<times> 'st"

record MemoryStorage =
  addressCache :: "Addr \<rightharpoonup> string"
  domainCache4 :: "string \<rightharpoonup> Addr"
  domainCache6 :: "string \<rightharpoonup> Addr"

definition NewMemoryStorage :: MemoryStorage where
  "NewMemoryStorage = \<lparr>addressCache = Map.empty, domainCache4 = Map.empty, domainCache6 = Map.empty\<rparr>"

definition mem_FakeIPMetadata :: "MemoryStorage \<Rightarrow> FakeIPMetadata option \<times> MemoryStorage" where
  "mem_FakeIPMetadata s = (None, s)"

definition mem_FakeIPSaveMetadata :: "FakeIPMetadata \<Rightarrow> MemoryStorage \<Rightarrow> string option \<times> MemoryStorage" where
  "mem_FakeIPSaveMetadata metadata s = (None, s)"

definition mem_FakeIPSaveMetadataAsync :: "FakeIPMetadata \<Rightarrow> MemoryStorage \<Rightarrow> MemoryStorage" where
  "mem_FakeIPSaveMetadataAsync metadata s = s"

definition mem_FakeIPStore :: "Addr \<Rightarrow> string \<Rightarrow> MemoryStorage \<Rightarrow> string option \<times> MemoryStorage" where
  "mem_FakeIPStore address domain s =
     (let s = (case addressCache s address of
           Some oldDomain \<Rightarrow>
             if Is4 address then s\<lparr>domainCache4 := (domainCache4 s)(oldDomain := None)\<rparr>
             else s\<lparr>domainCache6 := (domainCache6 s)(oldDomain := None)\<rparr>
         | None \<Rightarrow> s);
          s = s\<lparr>addressCache := (addressCache s)(address \<mapsto> domain)\<rparr>;
          s = (if Is4 address then s\<lparr>domainCache4 := (domainCache4 s)(domain \<mapsto> address)\<rparr>
               else s\<lparr>domainCache6 := (domainCache6 s)(domain \<mapsto> address)\<rparr>)
      in (None, s))"

definition mem_FakeIPLoad :: "Addr \<Rightarrow> MemoryStorage \<Rightarrow> string option" where
  "mem_FakeIPLoad address s = addressCache s address"

definition mem_FakeIPLoadDomain :: "string \<Rightarrow> bool \<Rightarrow> MemoryStorage \<Rightarrow> Addr option" where
  "mem_FakeIPLoadDomain domain isIPv6 s = (if \<not> isIPv6 then domainCache4 s domain else domainCache6 s domain)"

definition mem_FakeIPReset :: "MemoryStorage \<Rightarrow> string option \<times> MemoryStorage" where
  "mem_FakeIPReset s = (None, \<lparr>addressCache = Map.empty, domainCache4 = Map.empty, domainCache6 = Map.empty\<rparr>)"

definition memory_ops :: "MemoryStorage FakeIPStorage" where
  "memory_ops = \<lparr>st_Metadata = mem_FakeIPMetadata, st_SaveMetadata = mem_FakeIPSaveMetadata,
     st_SaveMetadataAsync = mem_FakeIPSaveMetadataAsync, st_Store = mem_FakeIPStore,
     st_Load = mem_FakeIPLoad, st_LoadDomain = mem_FakeIPLoadDomain, st_Reset = mem_FakeIPReset\<rparr>"

subsection \<open>Store\<close>

text \<open>\<open>storage\<close> is \<open>None\<close> until \<open>Start\<close>, as the interface field is nil; calling through it panics.\<close>

record 'st Store =
  inet4Range :: Prefix
  inet6Range :: Prefix
  inet4Last :: Addr
  inet6Last :: Addr
  storage :: "'st option"
  inet4Current :: Addr
  inet6Current :: Addr

definition raw_step :: "byte list \<Rightarrow> nat \<Rightarrow> byte list" where
  "raw_step raw i = raw[i div 8 := raw ! (i div 8) OR push_bit (7 - i mod 8) 1]"

definition broadcastAddress :: "Prefix \<Rightarrow> Addr" where
  "broadcastAddress prefix =
     (let addr = p_addr prefix; raw = As16 addr;
          bits = nat (p_bits prefix) + (if Is4 addr then 96 else 0);
          raw = foldl raw_step raw [bits..<128]
      in if Is4 addr then AddrFrom4 (drop 12 raw) else AddrFrom16 raw)"

definition NewStore :: "Prefix \<Rightarrow> Prefix \<Rightarrow> 'st Store" where
  "NewStore r4 r6 = \<lparr>inet4Range = r4, inet6Range = r6,
     inet4Last = (if Prefix_IsValid r4 then broadcastAddress r4 else AddrInvalid),
     inet6Last = (if Prefix_IsValid r6 then broadcastAddress r6 else AddrInvalid),
     storage = None, inet4Current = AddrInvalid, inet6Current = AddrInvalid\<rparr>"

text \<open>The branch of \<open>Start\<close> for missing or different metadata; the error of the reset is dropped.\<close>

definition Start_reset :: "'st FakeIPStorage \<Rightarrow> 'st \<Rightarrow> 'st Store \<Rightarrow> 'st Store" where
  "Start_reset ops st s =
     s\<lparr>inet4Current := (if Prefix_IsValid (inet4Range s) then Next (p_addr (inet4Range s)) else inet4Current s),
       inet6Current := (if Prefix_IsValid (inet6Range s) then Next (p_addr (inet6Range s)) else inet6Current s),
       storage := Some (snd (st_Reset ops st))\<rparr>"

text \<open>
  \<open>Start\<close>; \<open>cacheFile\<close> is the cache file service of the context, if there is one, with the value
  of \<open>StoreFakeIP()\<close>, and \<open>memory\<close> is a new memory storage.
\<close>

definition Start :: "'st FakeIPStorage \<Rightarrow> ('st \<times> bool) option \<Rightarrow> 'st \<Rightarrow> 'st Store \<Rightarrow> 'st Store" where
  "Start ops cacheFile memory s =
     (let st = (case cacheFile of Some (c, storeFakeIP) \<Rightarrow> if storeFakeIP then c else memory | None \<Rightarrow> memory)
      in case st_Metadata ops st of (metadata, st) \<Rightarrow>
        (case metadata of
           Some m \<Rightarrow>
             if Inet4Range m = inet4Range s \<and> Inet6Range m = inet6Range s
             then s\<lparr>inet4Current := Inet4Current m, inet6Current := Inet6Current m, storage := Some st\<rparr>
             else Start_reset ops st s
         | None \<Rightarrow> Start_reset ops st s))"

definition Store_Contains :: "Addr \<Rightarrow> 'st Store \<Rightarrow> bool" where
  "Store_Contains address s \<longleftrightarrow> Prefix_Contains (inet4Range s) address \<or> Prefix_Contains (inet6Range s) address"

definition current_metadata :: "'st Store \<Rightarrow> FakeIPMetadata" where
  "current_metadata s = \<lparr>Inet4Range = inet4Range s, Inet6Range = inet6Range s,
     Inet4Current = inet4Current s, Inet6Current = inet6Current s\<rparr>"

definition Close :: "'st FakeIPStorage \<Rightarrow> 'st Store \<Rightarrow> string option \<times> 'st Store" where
  "Close ops s = (case storage s of None \<Rightarrow> (None, s)
     | Some st \<Rightarrow> (case st_SaveMetadata ops (current_metadata s) st of (err, st) \<Rightarrow> (err, s\<lparr>storage := Some st\<rparr>)))"

text \<open>The next address of a range, in either family.\<close>

definition next_fake :: "Prefix \<Rightarrow> Addr \<Rightarrow> Addr \<Rightarrow> Addr" where
  "next_fake prefix lastAddress current =
     (let nextAddress = Next current in
      if nextAddress = lastAddress \<or> \<not> Prefix_Contains prefix nextAddress
      then Next (Next (p_addr prefix)) else nextAddress)"

definition CreateLocked :: "'st FakeIPStorage \<Rightarrow> string \<Rightarrow> bool \<Rightarrow> 'st Store \<Rightarrow> ((string + Addr) \<times> 'st Store) option" where
  "CreateLocked ops domain isIPv6 s = do {
     st \<leftarrow> storage s;
     case st_LoadDomain ops domain isIPv6 st of
       Some address \<Rightarrow> Some (Inr address, s)
     | None \<Rightarrow>
         if \<not> isIPv6 \<and> \<not> IsValid (inet4Current s) then Some (Inl ''missing IPv4 fakeip address range'', s)
         else if isIPv6 \<and> \<not> IsValid (inet6Current s) then Some (Inl ''missing IPv6 fakeip address range'', s)
         else
           let address = (if \<not> isIPv6 then next_fake (inet4Range s) (inet4Last s) (inet4Current s)
                          else next_fake (inet6Range s) (inet6Last s) (inet6Current s));
               s = (if \<not> isIPv6 then s\<lparr>inet4Current := address\<rparr> else s\<lparr>inet6Current := address\<rparr>);
               st = snd (st_Store ops address domain st);
               st = st_SaveMetadataAsync ops (current_metadata s) st
           in Some (Inr address, s\<lparr>storage := Some st\<rparr>) }"

definition Create :: "'st FakeIPStorage \<Rightarrow> string \<Rightarrow> bool \<Rightarrow> 'st Store \<Rightarrow> ((string + Addr) \<times> 'st Store) option" where
  "Create ops domain isIPv6 s = do {
     st \<leftarrow> storage s;
     case st_LoadDomain ops domain isIPv6 st of
       Some address \<Rightarrow> Some (Inr address, s)
     | None \<Rightarrow> CreateLocked ops domain isIPv6 s }"

definition Lookup :: "'st FakeIPStorage \<Rightarrow> Addr \<Rightarrow> 'st Store \<Rightarrow> string option option" where
  "Lookup ops address s = do { st \<leftarrow> storage s; Some (st_Load ops address st) }"

definition Reset :: "'st FakeIPStorage \<Rightarrow> 'st Store \<Rightarrow> (string option \<times> 'st Store) option" where
  "Reset ops s = do {
     st \<leftarrow> storage s;
     case st_Reset ops st of (err, st) \<Rightarrow> Some (err, s\<lparr>storage := Some st\<rparr>) }"

subsection \<open>The broadcast address\<close>

lemma length_raw_steps [simp]: "length (foldl raw_step raw is) = length raw"
  by (induction "is" arbitrary: raw) (simp_all add: raw_step_def)

lemma bit_raw_step:
  "\<lbrakk>k < length raw; i div 8 < length raw; m < 8\<rbrakk> \<Longrightarrow>
     bit (raw_step raw i ! k) m \<longleftrightarrow> bit (raw ! k) m \<or> i = 8 * k + (7 - m)"
proof -
  assume "k < length raw" "i div 8 < length raw" and m: "m < 8"
  moreover have "i = 8 * k + (7 - m) \<longleftrightarrow> i div 8 = k \<and> i mod 8 = 7 - m"
  proof
    assume "i = 8 * k + (7 - m)"
    then show "i div 8 = k \<and> i mod 8 = 7 - m" by simp
  next
    assume "i div 8 = k \<and> i mod 8 = 7 - m"
    then show "i = 8 * k + (7 - m)" using mult_div_mod_eq [of 8 i] by simp
  qed
  moreover have "i mod 8 = 7 - m \<longleftrightarrow> m = 7 - i mod 8"
    using m mod_less_divisor [of 8 i] by linarith
  ultimately show ?thesis
    by (auto simp: raw_step_def nth_list_update bit_or_iff bit_exp_iff)
qed

lemma bit_raw_steps:
  assumes "k < length raw" "m < 8" "u \<le> 8 * length raw"
  shows "bit (foldl raw_step raw [b..<u] ! k) m \<longleftrightarrow> bit (raw ! k) m \<or> b \<le> 8 * k + (7 - m) \<and> 8 * k + (7 - m) < u"
  using assms(3)
proof (induction u)
  case (Suc u)
  have "u div 8 < length raw" using Suc.prems by auto
  then show ?case
    using Suc assms by (cases "b \<le> u") (auto simp: bit_raw_step)
qed (simp add: assms)

lemma from_be_raw_steps:
  assumes n: "8 * n = LENGTH('a)" "n \<le> 16" and raw: "length raw = 16" and h: "h \<le> LENGTH('a)"
  shows "from_be (drop (16 - n) (foldl raw_step raw [128 - h..<128])) = (from_be (drop (16 - n) raw) OR mask h :: 'a::len word)"
proof (rule bit_word_eqI)
  fix j assume j: "j < LENGTH('a)"
  then have q: "j div 8 < n" and j128: "j < 128" using n by auto
  have k: "16 - n + (n - 1 - j div 8) = 15 - j div 8" using q n(2) by linarith
  have i: "8 * (15 - j div 8) + (7 - j mod 8) = 127 - j"
    using j128 div_mult_mod_eq [of j 8] mod_less_divisor [of 8 j] by linarith
  have "128 - h \<le> 127 - j \<longleftrightarrow> j < h" using j128 h n by linarith
  then have bit: "bit (foldl raw_step raw [128 - h..<128] ! (15 - j div 8)) (j mod 8) \<longleftrightarrow>
      bit (raw ! (15 - j div 8)) (j mod 8) \<or> j < h"
    using raw j128 i by (subst bit_raw_steps) auto
  have nth: "drop (16 - n) xs ! (n - 1 - j div 8) = xs ! (15 - j div 8)" if "length xs = 16" for xs :: "byte list"
    using that q n(2) k by simp
  show "bit (from_be (drop (16 - n) (foldl raw_step raw [128 - h..<128])) :: 'a word) j =
      bit (from_be (drop (16 - n) raw) OR mask h :: 'a word) j"
    using j n raw by (simp add: bit_from_be bit_or_iff bit_mask_iff nth bit)
qed

lemma broadcastAddress_4:
  assumes "p_addr p = Addr4 a" "Prefix_IsValid p"
  shows "broadcastAddress p = Addr4 (a OR mask (host_bits p))"
proof -
  have "nat (p_bits p) + 96 = 128 - host_bits p" and h: "host_bits p \<le> 32"
    using assms by (auto simp: Prefix_IsValid_def host_bits_def nat_le_iff)
  then show ?thesis
    using from_be_raw_steps [where 'a = 32, of 4 "As16 (Addr4 a)" "host_bits p"]
    by (simp add: broadcastAddress_def AddrFrom4_def assms(1) from_be_bytes)
qed

lemma broadcastAddress_6:
  assumes "p_addr p = Addr6 a" "Prefix_IsValid p"
  shows "broadcastAddress p = Addr6 (a OR mask (host_bits p))"
proof -
  have "nat (p_bits p) = 128 - host_bits p" and h: "host_bits p \<le> 128"
    using assms by (auto simp: Prefix_IsValid_def host_bits_def nat_le_iff)
  then show ?thesis
    using from_be_raw_steps [where 'a = 128, of 16 "As16 (Addr6 a)" "host_bits p"]
    by (simp add: broadcastAddress_def AddrFrom16_def assms(1) from_be_bytes)
qed

lemma broadcastAddress_val:
  assumes "Prefix_IsValid p"
  shows "BitLen (broadcastAddress p) = BitLen (p_addr p)"
    "addr_val (broadcastAddress p) = addr_val (p_addr p) div 2 ^ host_bits p * 2 ^ host_bits p + (2 ^ host_bits p - 1)"
proof -
  have h: "host_bits p \<le> BitLen (p_addr p)" by (simp add: host_bits_def)
  show "BitLen (broadcastAddress p) = BitLen (p_addr p)"
    using assms by (cases "p_addr p") (simp_all add: broadcastAddress_4 broadcastAddress_6 Prefix_IsValid_def)
  show "addr_val (broadcastAddress p) = addr_val (p_addr p) div 2 ^ host_bits p * 2 ^ host_bits p + (2 ^ host_bits p - 1)"
    using assms h by (cases "p_addr p") (simp_all add: broadcastAddress_4 broadcastAddress_6 unat_or_mask, simp add: Prefix_IsValid_def)
qed

subsection \<open>Metadata round trip\<close>

lemma unmarshal_marshal:
  assumes "length data < 2 ^ 16" "unmarshal data = Inr v"
  shows "unmarshal_element unmarshal (marshal_element data @ rest) = Some (Inr (v, rest))"
  using assms by (simp add: unmarshal_element_def marshal_element_def Uint16_be16 unat_of_nat)

lemma length_Addr_MarshalBinary: "length (Addr_MarshalBinary a) \<le> 16"
  by (cases a) (simp_all add: Addr_MarshalBinary_def)

lemma length_Prefix_MarshalBinary: "length (Prefix_MarshalBinary p) \<le> 17"
  using length_Addr_MarshalBinary [of "p_addr p"] by (simp add: Prefix_MarshalBinary_def Addr_MarshalBinary_def)

lemma metadata_roundtrip:
  assumes "Prefix_ok (Inet4Range m)" "Prefix_ok (Inet6Range m)"
  shows "UnmarshalBinary (MarshalBinary m) = Some (Inr m)"
proof -
  have p: "unmarshal_element Prefix_UnmarshalBinary (marshal_element (Prefix_MarshalBinary q) @ rest) = Some (Inr (q, rest))"
    if "Prefix_ok q" for q rest
    using that length_Prefix_MarshalBinary [of q] by (intro unmarshal_marshal) simp_all
  have a: "unmarshal_element Addr_UnmarshalBinary (marshal_element (Addr_MarshalBinary q) @ rest) = Some (Inr (q, rest))"
    for q rest
    using length_Addr_MarshalBinary [of q] by (intro unmarshal_marshal) simp_all
  show ?thesis
    using a [of "Inet6Current m" "[]"]
    by (simp add: UnmarshalBinary_def MarshalBinary_def and_then_def p a assms)
qed

subsection \<open>Ranges and the rotation through them\<close>

text \<open>
  The addresses of a range that are handed out: not the first two and not the broadcast address. A
  range with at least one such address is \<open>roomy\<close>; \<open>capacity\<close> counts them.
\<close>

definition usable :: "Prefix \<Rightarrow> Addr \<Rightarrow> bool" where
  "usable p a \<longleftrightarrow> BitLen a = BitLen (p_addr p) \<and>
     addr_val (p_addr p) + 2 \<le> addr_val a \<and> addr_val a < addr_val (broadcastAddress p)"

definition capacity :: "Prefix \<Rightarrow> nat" where
  "capacity p = addr_val (broadcastAddress p) - (addr_val (p_addr p) + 2)"

definition roomy :: "Prefix \<Rightarrow> bool" where
  "roomy p \<longleftrightarrow> Prefix_IsValid p \<and> 0 < capacity p"

text \<open>The cursor of a range: the last address handed out, or the one before the first.\<close>

definition cursor_ok :: "Prefix \<Rightarrow> Addr \<Rightarrow> bool" where
  "cursor_ok p c \<longleftrightarrow> BitLen c = BitLen (p_addr p) \<and>
     addr_val (p_addr p) < addr_val c \<and> addr_val c < addr_val (broadcastAddress p)"

lemma in_range_iff:
  assumes "Prefix_IsValid p" "BitLen a = BitLen (p_addr p)" "addr_val (p_addr p) \<le> addr_val a"
  shows "Prefix_Contains p a \<longleftrightarrow> addr_val a \<le> addr_val (broadcastAddress p)"
proof -
  let ?d = "2 ^ host_bits p :: nat" and ?q = "addr_val (p_addr p) div 2 ^ host_bits p"
  have "addr_val a div ?d = ?q \<longleftrightarrow> addr_val a < (?q + 1) * ?d"
  proof
    assume "addr_val a div ?d = ?q"
    then show "addr_val a < (?q + 1) * ?d" using div_less_iff_less_mult [of ?d "addr_val a" "?q + 1"] by simp
  next
    assume "addr_val a < (?q + 1) * ?d"
    then have "addr_val a div ?d < ?q + 1" using div_less_iff_less_mult [of ?d "addr_val a" "?q + 1"] by simp
    then show "addr_val a div ?d = ?q" using div_le_mono [OF assms(3), of ?d] by simp
  qed
  moreover have "addr_val a < (?q + 1) * ?d \<longleftrightarrow> addr_val a \<le> ?q * ?d + (?d - 1)"
  proof -
    have "0 < ?d" "(?q + 1) * ?d = ?q * ?d + ?d" by simp_all
    then show ?thesis by linarith
  qed
  ultimately show ?thesis
    using assms by (simp add: Prefix_Contains_val broadcastAddress_val)
qed

lemma usable_contains: "\<lbrakk>Prefix_IsValid p; usable p a\<rbrakk> \<Longrightarrow> Prefix_Contains p a"
  by (subst in_range_iff) (auto simp: usable_def)

lemma usable_cursor_ok: "usable p a \<Longrightarrow> cursor_ok p a"
  by (simp add: usable_def cursor_ok_def)

text \<open>One allocation moves the cursor by one, around the usable addresses.\<close>

lemma next_fake_val:
  assumes p: "roomy p" and c: "cursor_ok p c"
  shows "BitLen (next_fake p (broadcastAddress p) c) = BitLen (p_addr p)"
    and "addr_val (next_fake p (broadcastAddress p) c) =
      (if addr_val c + 1 = addr_val (broadcastAddress p) then addr_val (p_addr p) + 2 else addr_val c + 1)"
proof -
  let ?b = "broadcastAddress p"
  have v: "Prefix_IsValid p" and lt: "addr_val (p_addr p) + 2 < addr_val ?b"
    using p by (auto simp: roomy_def capacity_def)
  have bl: "BitLen ?b = BitLen (p_addr p)" using v by (rule broadcastAddress_val)
  have b: "addr_val ?b < 2 ^ BitLen (p_addr p)" using addr_val_less [of ?b] bl by simp
  have n: "addr_val (Next c) = addr_val c + 1" "BitLen (Next c) = BitLen (p_addr p)"
    using addr_val_Next [of c] c b by (auto simp: cursor_ok_def)
  have n1: "addr_val (Next (p_addr p)) = addr_val (p_addr p) + 1" "BitLen (Next (p_addr p)) = BitLen (p_addr p)"
    using addr_val_Next [of "p_addr p"] lt b by auto
  have n2: "addr_val (Next (Next (p_addr p))) = addr_val (p_addr p) + 2" "BitLen (Next (Next (p_addr p))) = BitLen (p_addr p)"
    using addr_val_Next [of "Next (p_addr p)"] n1 lt b by auto
  have "Prefix_Contains p (Next c)"
    using c n v by (subst in_range_iff) (auto simp: cursor_ok_def)
  moreover have "Next c = ?b \<longleftrightarrow> addr_val c + 1 = addr_val ?b"
    using n bl by (auto simp: addr_eq_iff)
  ultimately show "BitLen (next_fake p ?b c) = BitLen (p_addr p)"
    "addr_val (next_fake p ?b c) = (if addr_val c + 1 = addr_val ?b then addr_val (p_addr p) + 2 else addr_val c + 1)"
    using n n2 by (auto simp: next_fake_def)
qed

lemma next_fake_usable:
  assumes p: "roomy p" and c: "cursor_ok p c"
  shows "usable p (next_fake p (broadcastAddress p) c)"
  using next_fake_val [OF p c] p c by (auto simp: usable_def roomy_def capacity_def cursor_ok_def)

lemma start_cursor_ok:
  assumes "roomy p"
  shows "cursor_ok p (Next (p_addr p))"
proof -
  have "addr_val (p_addr p) + 2 < addr_val (broadcastAddress p)" "Prefix_IsValid p"
    using assms by (auto simp: roomy_def capacity_def)
  then show ?thesis
    using addr_val_Next [of "p_addr p"] addr_val_less [of "broadcastAddress p"] broadcastAddress_val(1) [of p]
    by (auto simp: cursor_ok_def)
qed

text \<open>The position of a cursor among the usable addresses.\<close>

definition position :: "Prefix \<Rightarrow> Addr \<Rightarrow> nat" where
  "position p a = addr_val a - (addr_val (p_addr p) + 2)"

lemma position_less: "usable p a \<Longrightarrow> position p a < capacity p"
  by (auto simp: usable_def position_def capacity_def)

lemma position_inj: "\<lbrakk>usable p a; usable p b; position p a = position p b\<rbrakk> \<Longrightarrow> a = b"
  by (auto simp: usable_def position_def addr_eq_iff)

lemma position_next_fake:
  assumes "roomy p" "usable p c"
  shows "position p (next_fake p (broadcastAddress p) c) = (position p c + 1) mod capacity p"
proof -
  have "addr_val c + 1 = addr_val (broadcastAddress p) \<longleftrightarrow> position p c + 1 = capacity p"
    using assms by (auto simp: usable_def position_def capacity_def)
  then show ?thesis
    using position_less [OF assms(2)] next_fake_val [OF assms(1) usable_cursor_ok [OF assms(2)]] assms(2)
    by (auto simp: position_def usable_def mod_less)
qed

subsection \<open>The store over a storage that keeps its promises\<close>

text \<open>
  What the store relies on: \<open>load\<close> and \<open>loadDomain\<close> after \<open>store\<close>, where storing an address
  that stood for another domain forgets that domain. A storage may reject domains that are not
  \<open>storable\<close>, and its reset may fail; then it has the entries it had.
\<close>

locale fakeip_storage =
  fixes ops :: "'st FakeIPStorage" and good :: "'st \<Rightarrow> bool" and storable :: "string \<Rightarrow> bool"
  assumes good_store: "\<lbrakk>good st; IsValid a\<rbrakk> \<Longrightarrow> good (snd (st_Store ops a d st))"
    and good_save: "good st \<Longrightarrow> good (st_SaveMetadataAsync ops m st)"
    and good_close: "good st \<Longrightarrow> good (snd (st_SaveMetadata ops m st))"
    and good_reset: "good st \<Longrightarrow> good (snd (st_Reset ops st))"
    and load_store: "\<lbrakk>good st; IsValid a; storable d\<rbrakk> \<Longrightarrow>
      st_Load ops b (snd (st_Store ops a d st)) = (if b = a then Some d else st_Load ops b st)"
    and load_reject: "\<lbrakk>good st; IsValid a; \<not> storable d\<rbrakk> \<Longrightarrow>
      st_Load ops b (snd (st_Store ops a d st)) = st_Load ops b st"
    and loadDomain_store: "\<lbrakk>good st; IsValid a; storable d\<rbrakk> \<Longrightarrow>
      st_LoadDomain ops e v6 (snd (st_Store ops a d st)) =
        (if e = d \<and> v6 = (\<not> Is4 a) then Some a
         else if v6 = (\<not> Is4 a) \<and> st_Load ops a st = Some e then None else st_LoadDomain ops e v6 st)"
    and loadDomain_reject: "\<lbrakk>good st; IsValid a; \<not> storable d\<rbrakk> \<Longrightarrow>
      st_LoadDomain ops e v6 (snd (st_Store ops a d st)) = st_LoadDomain ops e v6 st"
    and load_save: "good st \<Longrightarrow> st_Load ops b (st_SaveMetadataAsync ops m st) = st_Load ops b st"
    and loadDomain_save: "good st \<Longrightarrow> st_LoadDomain ops e v6 (st_SaveMetadataAsync ops m st) = st_LoadDomain ops e v6 st"
    and load_close: "good st \<Longrightarrow> st_Load ops b (snd (st_SaveMetadata ops m st)) = st_Load ops b st"
    and loadDomain_close: "good st \<Longrightarrow> st_LoadDomain ops e v6 (snd (st_SaveMetadata ops m st)) = st_LoadDomain ops e v6 st"
    and load_reset: "good st \<Longrightarrow>
      st_Load ops b (snd (st_Reset ops st)) = (if fst (st_Reset ops st) = None then None else st_Load ops b st)"
    and loadDomain_reset: "good st \<Longrightarrow>
      st_LoadDomain ops e v6 (snd (st_Reset ops st)) =
        (if fst (st_Reset ops st) = None then None else st_LoadDomain ops e v6 st)"

interpretation memory: fakeip_storage memory_ops "\<lambda>_. True" "\<lambda>_. True"
  by unfold_locales
    (auto simp: memory_ops_def mem_FakeIPStore_def mem_FakeIPLoad_def mem_FakeIPLoadDomain_def
      mem_FakeIPReset_def mem_FakeIPSaveMetadata_def mem_FakeIPSaveMetadataAsync_def Let_def split: option.splits)

text \<open>The fields of one address family.\<close>

definition fam_range :: "bool \<Rightarrow> 'st Store \<Rightarrow> Prefix" where
  "fam_range v6 s = (if v6 then inet6Range s else inet4Range s)"

definition fam_last :: "bool \<Rightarrow> 'st Store \<Rightarrow> Addr" where
  "fam_last v6 s = (if v6 then inet6Last s else inet4Last s)"

definition fam_current :: "bool \<Rightarrow> 'st Store \<Rightarrow> Addr" where
  "fam_current v6 s = (if v6 then inet6Current s else inet4Current s)"

definition set_current :: "bool \<Rightarrow> Addr \<Rightarrow> 'st Store \<Rightarrow> 'st Store" where
  "set_current v6 a s = (if v6 then s\<lparr>inet6Current := a\<rparr> else s\<lparr>inet4Current := a\<rparr>)"

text \<open>A range that is configured for a family has its width and a usable address.\<close>

definition range_ok :: "bool \<Rightarrow> Prefix \<Rightarrow> bool" where
  "range_ok v6 p \<longleftrightarrow> (Prefix_IsValid p \<longrightarrow> roomy p \<and> BitLen (p_addr p) = (if v6 then 128 else 32))"

definition family_ok :: "bool \<Rightarrow> 'st Store \<Rightarrow> bool" where
  "family_ok v6 s \<longleftrightarrow> range_ok v6 (fam_range v6 s) \<and>
     (if Prefix_IsValid (fam_range v6 s)
      then fam_last v6 s = broadcastAddress (fam_range v6 s) \<and> cursor_ok (fam_range v6 s) (fam_current v6 s)
      else fam_current v6 s = AddrInvalid)"

text \<open>The two directions of the mapping are inverse to each other.\<close>

definition consistent :: "(Addr \<Rightarrow> string option) \<Rightarrow> (string \<Rightarrow> bool \<Rightarrow> Addr option) \<Rightarrow> bool" where
  "consistent load loadDomain \<longleftrightarrow>
     (\<forall>d v6 a. loadDomain d v6 = Some a \<longleftrightarrow> load a = Some d \<and> v6 = (\<not> Is4 a))"

definition in_ranges :: "(Addr \<Rightarrow> string option) \<Rightarrow> 'st Store \<Rightarrow> bool" where
  "in_ranges load s \<longleftrightarrow>
     (\<forall>a d. load a = Some d \<longrightarrow> Prefix_IsValid (fam_range (\<not> Is4 a) s) \<and> usable (fam_range (\<not> Is4 a) s) a)"

definition store_ok :: "'st FakeIPStorage \<Rightarrow> ('st \<Rightarrow> bool) \<Rightarrow> 'st Store \<Rightarrow> bool" where
  "store_ok ops good s \<longleftrightarrow> family_ok False s \<and> family_ok True s \<and>
     (\<exists>st. storage s = Some st \<and> good st \<and>
        consistent (\<lambda>a. st_Load ops a st) (\<lambda>d v6. st_LoadDomain ops d v6 st) \<and>
        in_ranges (\<lambda>a. st_Load ops a st) s)"

lemma consistent_store:
  assumes "consistent load ld" "ld d v6 = None" "v6 = (\<not> Is4 a)"
  shows "consistent (\<lambda>b. if b = a then Some d else load b)
    (\<lambda>e w. if e = d \<and> w = (\<not> Is4 a) then Some a else if w = (\<not> Is4 a) \<and> load a = Some e then None else ld e w)"
  unfolding consistent_def
proof (intro allI)
  fix e w b
  have H: "ld e w = Some c \<longleftrightarrow> load c = Some e \<and> w = (\<not> Is4 c)" for c
    using assms(1) by (simp add: consistent_def)
  consider "e = d" "w = (\<not> Is4 a)" | "\<not> (e = d \<and> w = (\<not> Is4 a))" "w = (\<not> Is4 a)" "load a = Some e"
    | "\<not> (e = d \<and> w = (\<not> Is4 a))" "\<not> (w = (\<not> Is4 a) \<and> load a = Some e)" by blast
  then show "(if e = d \<and> w = (\<not> Is4 a) then Some a else if w = (\<not> Is4 a) \<and> load a = Some e then None else ld e w) = Some b
      \<longleftrightarrow> (if b = a then Some d else load b) = Some e \<and> w = (\<not> Is4 b)"
  proof cases
    case 1
    then show ?thesis using H [of b] assms(2,3) by auto
  next
    case 2
    then show ?thesis using H [of a] H [of b] by auto
  next
    case 3
    then show ?thesis using H [of b] by auto
  qed
qed

lemma usable_family: "\<lbrakk>range_ok v6 p; Prefix_IsValid p; usable p a\<rbrakk> \<Longrightarrow> v6 = (\<not> Is4 a) \<and> IsValid a"
  by (cases a) (auto simp: range_ok_def usable_def Is4_BitLen split: if_splits)

lemmas fam_defs = fam_range_def fam_last_def fam_current_def set_current_def

lemma fam_set_current [simp]:
  "fam_range w (set_current v6 a s) = fam_range w s" "fam_last w (set_current v6 a s) = fam_last w s"
  "fam_current w (set_current v6 a s) = (if w = v6 then a else fam_current w s)"
  "storage (set_current v6 a s) = storage s"
  by (simp_all add: fam_defs)

lemma fam_storage [simp]:
  "fam_range w (s\<lparr>storage := x\<rparr>) = fam_range w s" "fam_last w (s\<lparr>storage := x\<rparr>) = fam_last w s"
  "fam_current w (s\<lparr>storage := x\<rparr>) = fam_current w s"
  by (simp_all add: fam_defs)

lemma family_ok_storage [simp]: "family_ok w (s\<lparr>storage := x\<rparr>) = family_ok w s"
  by (simp add: family_ok_def)

lemma in_ranges_storage [simp]: "in_ranges load (s\<lparr>storage := x\<rparr>) = in_ranges load s"
  by (simp add: in_ranges_def)

text \<open>The three outcomes of the locked section.\<close>

lemma CreateLocked_known:
  "\<lbrakk>storage s = Some st; st_LoadDomain ops d v6 st = Some a\<rbrakk> \<Longrightarrow> CreateLocked ops d v6 s = Some (Inr a, s)"
  by (simp add: CreateLocked_def)

lemma CreateLocked_missing:
  "\<lbrakk>storage s = Some st; st_LoadDomain ops d v6 st = None; fam_current v6 s = AddrInvalid\<rbrakk> \<Longrightarrow>
     \<exists>err. CreateLocked ops d v6 s = Some (Inl err, s)"
  by (auto simp: CreateLocked_def fam_defs)

lemma CreateLocked_new:
  assumes "storage s = Some st" "st_LoadDomain ops d v6 st = None" "IsValid (fam_current v6 s)"
    and a: "a = next_fake (fam_range v6 s) (fam_last v6 s) (fam_current v6 s)"
  shows "CreateLocked ops d v6 s = Some (Inr a, (set_current v6 a s)\<lparr>storage :=
     Some (st_SaveMetadataAsync ops (current_metadata (set_current v6 a s)) (snd (st_Store ops a d st)))\<rparr>)"
  using assms by (auto simp: CreateLocked_def fam_defs Let_def)

lemma Create_eq: "Create ops d v6 s = CreateLocked ops d v6 s"
  by (auto simp: Create_def CreateLocked_def split: option.splits bind_splits)

context fakeip_storage
begin

lemma store_ok_new:
  assumes s: "store_ok ops good s" and st: "storage s = Some st" and ld: "st_LoadDomain ops d v6 st = None"
    and v: "Prefix_IsValid (fam_range v6 s)" and a: "usable (fam_range v6 s) a"
  shows "store_ok ops good ((set_current v6 a s)\<lparr>storage :=
     Some (st_SaveMetadataAsync ops m (snd (st_Store ops a d st)))\<rparr>)"
proof -
  have fam: "family_ok w s" for w using s by (cases w) (auto simp: store_ok_def)
  have g: "good st" and c: "consistent (\<lambda>a. st_Load ops a st) (\<lambda>d v6. st_LoadDomain ops d v6 st)"
    and r: "in_ranges (\<lambda>a. st_Load ops a st) s"
    using s st by (auto simp: store_ok_def)
  have a4: "v6 = (\<not> Is4 a)" "IsValid a" using usable_family fam v a by (auto simp: family_ok_def)
  have g': "good (snd (st_Store ops a d st))" using good_store g a4 by simp
  have fam': "family_ok w (set_current v6 a s)" for w
    using fam [of w] v a by (auto simp: family_ok_def usable_cursor_ok)
  show ?thesis
  proof (cases "storable d")
    case True
    have "consistent (\<lambda>b. st_Load ops b (snd (st_Store ops a d st))) (\<lambda>e w. st_LoadDomain ops e w (snd (st_Store ops a d st)))"
      unfolding load_store [OF g a4(2) True] loadDomain_store [OF g a4(2) True]
      using consistent_store [OF c ld a4(1)] by simp
    moreover have "in_ranges (\<lambda>b. st_Load ops b (snd (st_Store ops a d st))) (set_current v6 a s)"
      using r v a a4 by (auto simp: in_ranges_def load_store [OF g a4(2) True])
    ultimately show ?thesis
      using fam' g' by (simp add: store_ok_def good_save load_save loadDomain_save)
  next
    case False
    have "in_ranges (\<lambda>b. st_Load ops b st) (set_current v6 a s)"
      using r by (simp add: in_ranges_def)
    then show ?thesis
      using fam' g' c g a4(2) False by (simp add: store_ok_def good_save load_save loadDomain_save load_reject loadDomain_reject)
  qed
qed

lemma CreateLocked_cases:
  assumes s: "store_ok ops good s"
  obtains (known) st a where "storage s = Some st" "st_LoadDomain ops d v6 st = Some a"
      "CreateLocked ops d v6 s = Some (Inr a, s)"
    | (missing) st err where "storage s = Some st" "st_LoadDomain ops d v6 st = None"
      "\<not> Prefix_IsValid (fam_range v6 s)" "CreateLocked ops d v6 s = Some (Inl err, s)"
    | (fresh) st m a where "storage s = Some st" "st_LoadDomain ops d v6 st = None"
      "Prefix_IsValid (fam_range v6 s)" "roomy (fam_range v6 s)" "cursor_ok (fam_range v6 s) (fam_current v6 s)"
      "a = next_fake (fam_range v6 s) (broadcastAddress (fam_range v6 s)) (fam_current v6 s)"
      "usable (fam_range v6 s) a"
      "CreateLocked ops d v6 s =
        Some (Inr a, (set_current v6 a s)\<lparr>storage := Some (st_SaveMetadataAsync ops m (snd (st_Store ops a d st)))\<rparr>)"
proof -
  obtain st where st: "storage s = Some st" using s by (auto simp: store_ok_def)
  have fam: "family_ok v6 s" using s by (cases v6) (auto simp: store_ok_def)
  show thesis
  proof (cases "st_LoadDomain ops d v6 st")
    case (Some a)
    then show thesis using known [OF st Some] CreateLocked_known [OF st Some] by blast
  next
    case None
    show thesis
    proof (cases "Prefix_IsValid (fam_range v6 s)")
      case False
      then obtain err where "CreateLocked ops d v6 s = Some (Inl err, s)"
        using CreateLocked_missing [OF st None] fam by (auto simp: family_ok_def)
      then show thesis using missing [OF st None False] by blast
    next
      case True
      then have ok: "roomy (fam_range v6 s)" "cursor_ok (fam_range v6 s) (fam_current v6 s)"
        and l: "fam_last v6 s = broadcastAddress (fam_range v6 s)"
        using fam by (auto simp: family_ok_def range_ok_def)
      have "IsValid (fam_current v6 s)"
        using ok True by (auto simp: cursor_ok_def BitLen_cases Prefix_IsValid_def)
      then show thesis
        using fresh [OF st None True ok refl next_fake_usable [OF ok]] CreateLocked_new [OF st None] l by simp
    qed
  qed
qed

lemma CreateLocked_ok:
  assumes s: "store_ok ops good s" and C: "CreateLocked ops d v6 s = Some (r, s')"
  shows "store_ok ops good s' \<and> fam_range w s' = fam_range w s"
  using s
proof (cases rule: CreateLocked_cases [where d = d and ?v6.0 = v6])
  case (fresh st m a)
  then show ?thesis using store_ok_new [OF s] C by auto
qed (use s C in auto)

text \<open>A domain gets a usable address of its family, and the address leads back to the domain.\<close>

lemma CreateLocked_result:
  assumes s: "store_ok ops good s" and v: "Prefix_IsValid (fam_range v6 s)"
  shows "\<exists>a s'. CreateLocked ops d v6 s = Some (Inr a, s') \<and> usable (fam_range v6 s) a \<and> v6 = (\<not> Is4 a) \<and>
    (storable d \<longrightarrow> Lookup ops a s' = Some (Some d) \<and> CreateLocked ops d v6 s' = Some (Inr a, s'))"
  using s
proof (cases rule: CreateLocked_cases [where d = d and ?v6.0 = v6])
  case (known st a)
  have "st_Load ops a st = Some d \<and> v6 = (\<not> Is4 a)" and "in_ranges (\<lambda>a. st_Load ops a st) s"
    using s known by (auto simp: store_ok_def consistent_def)
  then show ?thesis using known by (auto simp: Lookup_def in_ranges_def)
next
  case (missing st err)
  then show ?thesis using v by simp
next
  case (fresh st m a)
  have "family_ok v6 s" "good st" using s fresh by (cases v6; auto simp: store_ok_def)+
  moreover have a4: "v6 = (\<not> Is4 a)" "IsValid a"
    using usable_family [of v6 "fam_range v6 s" a] fresh \<open>family_ok v6 s\<close> by (auto simp: family_ok_def)
  moreover define st' where "st' = st_SaveMetadataAsync ops m (snd (st_Store ops a d st))"
  ultimately have ld: "st_Load ops a st' = Some d" "st_LoadDomain ops d v6 st' = Some a" if "storable d"
    using that by (simp_all add: st'_def load_save load_store loadDomain_save loadDomain_store good_store)
  let ?s' = "(set_current v6 a s)\<lparr>storage := Some st'\<rparr>"
  have "CreateLocked ops d v6 ?s' = Some (Inr a, ?s')" if "storable d"
    by (rule CreateLocked_known [OF _ ld(2) [OF that]]) simp
  moreover have "Lookup ops a ?s' = Some (Some d)" if "storable d"
    using ld that by (simp add: Lookup_def)
  ultimately show ?thesis using fresh a4 unfolding st'_def by blast
qed

lemma CreateLocked_missing_error:
  assumes s: "store_ok ops good s" and v: "\<not> Prefix_IsValid (fam_range v6 s)"
  shows "\<exists>err. CreateLocked ops d v6 s = Some (Inl err, s)"
  using s
proof (cases rule: CreateLocked_cases [where d = d and ?v6.0 = v6])
  case (known st a)
  then have "st_Load ops a st = Some d \<and> v6 = (\<not> Is4 a)" and "in_ranges (\<lambda>a. st_Load ops a st) s"
    using s by (auto simp: store_ok_def consistent_def)
  then show ?thesis using v by (auto simp: in_ranges_def)
qed (use v in auto)

end

subsection \<open>Running stores\<close>

fun Creates :: "'st FakeIPStorage \<Rightarrow> (string \<times> bool) list \<Rightarrow> 'st Store \<Rightarrow> 'st Store option" where
  "Creates ops [] s = Some s"
| "Creates ops ((domain, isIPv6) # reqs) s = do {
     (_, s) \<leftarrow> CreateLocked ops domain isIPv6 s;
     Creates ops reqs s }"

text \<open>
  The states a store reaches: since only the locked section of \<open>Create\<close> changes the store, every
  interleaving of concurrent calls is a sequence of such sections, resets and closings.
\<close>

inductive store_reachable :: "'st FakeIPStorage \<Rightarrow> 'st Store \<Rightarrow> 'st Store \<Rightarrow> bool" for ops s\<^sub>0 where
  start: "store_reachable ops s\<^sub>0 s\<^sub>0"
| create: "\<lbrakk>store_reachable ops s\<^sub>0 s; CreateLocked ops d v6 s = Some (r, s')\<rbrakk> \<Longrightarrow> store_reachable ops s\<^sub>0 s'"
| reset: "\<lbrakk>store_reachable ops s\<^sub>0 s; Reset ops s = Some (err, s')\<rbrakk> \<Longrightarrow> store_reachable ops s\<^sub>0 s'"
| close: "\<lbrakk>store_reachable ops s\<^sub>0 s; Close ops s = (err, s')\<rbrakk> \<Longrightarrow> store_reachable ops s\<^sub>0 s'"

lemma consistent_empty: "consistent (\<lambda>_. None) (\<lambda>_ _. None)"
  by (simp add: consistent_def)

lemma family_ok_start:
  assumes "range_ok False r4" "range_ok True r6"
  shows "family_ok w (Start_reset ops st (NewStore r4 r6))"
  using assms start_cursor_ok
  by (cases w) (auto simp: family_ok_def range_ok_def Start_reset_def NewStore_def fam_defs)

lemma mod_add_neq: "\<lbrakk>x < c; 0 < j; j < c\<rbrakk> \<Longrightarrow> (x + j) mod c \<noteq> (x :: nat)"
  by (auto simp: mod_if)

context fakeip_storage
begin

lemma store_ok_start:
  assumes "range_ok False r4" "range_ok True r6" "good st"
    and "fst (st_Reset ops st) = None \<or> (\<forall>a. st_Load ops a st = None) \<and> (\<forall>d v6. st_LoadDomain ops d v6 st = None)"
  shows "store_ok ops good (Start_reset ops st (NewStore r4 r6))"
proof -
  have "storage (Start_reset ops st (NewStore r4 r6)) = Some (snd (st_Reset ops st))"
    by (simp add: Start_reset_def)
  moreover have "st_Load ops b (snd (st_Reset ops st)) = None" "st_LoadDomain ops e w (snd (st_Reset ops st)) = None" for b e w
    using assms(3,4) by (auto simp: load_reset loadDomain_reset)
  ultimately show ?thesis
    using family_ok_start [OF assms(1,2), of _ ops st] assms(3)
    by (simp add: store_ok_def good_reset consistent_empty in_ranges_def)
qed

lemma Reset_ok:
  assumes s: "store_ok ops good s" and R: "Reset ops s = Some (err, s')"
  shows "store_ok ops good s' \<and> fam_range w s' = fam_range w s"
proof -
  obtain st where st: "storage s = Some st" "good st" using s by (auto simp: store_ok_def)
  then have "s' = s\<lparr>storage := Some (snd (st_Reset ops st))\<rparr>"
    using R by (simp add: Reset_def split: prod.splits)
  then show ?thesis
    using s st by (cases "fst (st_Reset ops st) = None")
      (auto simp: store_ok_def good_reset load_reset loadDomain_reset consistent_empty in_ranges_def)
qed

lemma Close_ok:
  assumes s: "store_ok ops good s" and C: "Close ops s = (err, s')"
  shows "store_ok ops good s' \<and> fam_range w s' = fam_range w s"
proof -
  obtain st where st: "storage s = Some st" "good st" using s by (auto simp: store_ok_def)
  then have "s' = s\<lparr>storage := Some (snd (st_SaveMetadata ops (current_metadata s) st))\<rparr>"
    using C by (simp add: Close_def split: prod.splits)
  then show ?thesis
    using s st by (auto simp: store_ok_def good_close load_close loadDomain_close)
qed

lemma reachable_ok:
  assumes "store_reachable ops s\<^sub>0 s" "store_ok ops good s\<^sub>0"
  shows "store_ok ops good s \<and> (\<forall>w. fam_range w s = fam_range w s\<^sub>0)"
  using assms
proof (induction rule: store_reachable.induct)
  case (create s d v6 r s') then show ?case using CreateLocked_ok by metis
next
  case (reset s err s') then show ?case using Reset_ok by metis
next
  case (close s err s') then show ?case using Close_ok by metis
qed simp

text \<open>
  A mapping survives until the rotation comes back to its address: \<open>j\<close> allocations after it, there
  is room for \<open>capacity - j - 1\<close> more.
\<close>

lemma Creates_keep:
  assumes "Creates ops reqs s = Some s'" "store_ok ops good s" "p = fam_range v6 s" "Prefix_IsValid p"
    and "storage s = Some st" "st_Load ops a st = Some d" "usable p a" "v6 = (\<not> Is4 a)"
    and "usable p (fam_current v6 s)" "position p (fam_current v6 s) = (position p a + j) mod capacity p"
    and "j + length reqs < capacity p"
  shows "Lookup ops a s' = Some (Some d)"
  using assms
proof (induction reqs arbitrary: s st j)
  case Nil
  then show ?case by (simp add: Lookup_def)
next
  case (Cons q reqs)
  obtain e w where q: "q = (e, w)" by fastforce
  obtain r s1 where C: "CreateLocked ops e w s = Some (r, s1)" and rest: "Creates ops reqs s1 = Some s'"
    using Cons.prems(1) by (auto simp: q split: bind_splits)
  have ok: "store_ok ops good s1" "fam_range v6 s1 = p"
    using CreateLocked_ok [OF Cons.prems(2) C] Cons.prems(3) by auto
  have len: "j + length reqs < capacity p" "Suc j + length reqs < capacity p" using Cons.prems(11) by auto
  show ?case using Cons.prems(2)
  proof (cases rule: CreateLocked_cases [where d = e and ?v6.0 = w])
    case (known st' b)
    then show ?thesis using C rest Cons.IH [OF _ Cons.prems(2-10) len(1)] by simp
  next
    case (missing st' err)
    then show ?thesis using C rest Cons.IH [OF _ Cons.prems(2-10) len(1)] by simp
  next
    case (fresh st' m b)
    define st1 where "st1 = st_SaveMetadataAsync ops m (snd (st_Store ops b e st'))"
    have s1: "s1 = (set_current w b s)\<lparr>storage := Some st1\<rparr>" and [simp]: "st' = st" and g: "good st"
      using C fresh Cons.prems(2,5) by (auto simp: st1_def store_ok_def)
    have fam: "family_ok w s" using Cons.prems(2) by (cases w) (auto simp: store_ok_def)
    have b: "w = (\<not> Is4 b)" "IsValid b"
      using usable_family [of w "fam_range w s" b] fresh fam by (auto simp: family_ok_def)
    have cur: "usable p (fam_current v6 s1) \<and> b \<noteq> a \<and>
        (\<exists>i. position p (fam_current v6 s1) = (position p a + i) mod capacity p \<and> i + length reqs < capacity p)"
    proof (cases "w = v6")
      case True
      have "position p b = (position p a + Suc j) mod capacity p"
        using fresh True Cons.prems(3,9,10) position_next_fake [of p "fam_current v6 s"] by (simp add: mod_simps)
      moreover have "(position p a + Suc j) mod capacity p \<noteq> position p a"
        using mod_add_neq [OF position_less [OF Cons.prems(7)], of "Suc j"] len by simp
      ultimately show ?thesis
        using s1 True fresh Cons.prems(3) len by (auto intro!: exI [of _ "Suc j"])
    next
      case False
      then show ?thesis using s1 b Cons.prems(8,9,10) len by auto
    qed
    then obtain i where i: "position p (fam_current v6 s1) = (position p a + i) mod capacity p" "i + length reqs < capacity p"
      by blast
    have "a \<noteq> b" using cur by blast
    then have "st_Load ops a st1 = Some d"
      using g b Cons.prems(6) by (cases "storable e") (simp_all add: st1_def load_save load_store load_reject good_store)
    then show ?thesis
      using Cons.IH [OF rest ok(1) ok(2) [symmetric] Cons.prems(4) _ _ Cons.prems(7,8) _ i(1) i(2)] cur s1 by simp
  qed
qed

lemma Creates_total: "store_ok ops good s \<Longrightarrow> \<exists>s'. Creates ops reqs s = Some s'"
proof (induction reqs arbitrary: s)
  case (Cons q reqs)
  obtain e w where q: "q = (e, w)" by fastforce
  obtain r s1 where C: "CreateLocked ops e w s = Some (r, s1)"
    using Cons.prems by (cases rule: CreateLocked_cases [where d = e and ?v6.0 = w]) blast+
  then show ?case using Cons.IH CreateLocked_ok [OF Cons.prems C] by (simp add: q)
qed simp

lemma Create_keeps:
  assumes s: "store_ok ops good s" and p: "Prefix_IsValid (fam_range v6 s)" and d: "storable d"
    and C: "CreateLocked ops d v6 s = Some (Inr a, s1)" and fresh_a: "Lookup ops a s \<noteq> Some (Some d)"
    and R: "Creates ops reqs s1 = Some s2" and len: "length reqs < capacity (fam_range v6 s)"
  shows "Lookup ops a s2 = Some (Some d)"
  using s
proof (cases rule: CreateLocked_cases [where d = d and ?v6.0 = v6])
  case (known st b)
  then have "Lookup ops a s = Some (Some d)" using s C by (auto simp: store_ok_def consistent_def Lookup_def)
  then show ?thesis using fresh_a by simp
next
  case (missing st err)
  then show ?thesis using C by simp
next
  case (fresh st m b)
  have s1: "s1 = (set_current v6 a s)\<lparr>storage := Some (st_SaveMetadataAsync ops m (snd (st_Store ops a d st)))\<rparr>" and [simp]: "b = a"
    using C fresh by auto
  have fam: "family_ok v6 s" "good st" using s fresh by (cases v6; auto simp: store_ok_def)+
  have a: "v6 = (\<not> Is4 a)" "IsValid a"
    using usable_family [of v6 "fam_range v6 s" a] fresh fam by (auto simp: family_ok_def)
  have "st_Load ops a (st_SaveMetadataAsync ops m (snd (st_Store ops a d st))) = Some d"
    using fam a d by (simp add: load_save load_store good_store)
  moreover have "store_ok ops good s1" "fam_range v6 s1 = fam_range v6 s" using CreateLocked_ok [OF s C] by auto
  ultimately show ?thesis
    using Creates_keep [OF R, of "fam_range v6 s" v6 _ a d 0] fresh a p len s1 position_less [of "fam_range v6 s" a] by simp
qed

end

subsection \<open>The store over memory\<close>

abbreviation memory_store :: "Prefix \<Rightarrow> Prefix \<Rightarrow> MemoryStorage Store" where
  "memory_store r4 r6 \<equiv> Start memory_ops None NewMemoryStorage (NewStore r4 r6)"

lemma memory_store_ok:
  assumes "range_ok False r4" "range_ok True r6" "store_reachable memory_ops (memory_store r4 r6) s"
  shows "store_ok memory_ops (\<lambda>_. True) s" "fam_range v6 s = (if v6 then r6 else r4)"
proof -
  have "memory_store r4 r6 = Start_reset memory_ops NewMemoryStorage (NewStore r4 r6)"
    by (simp add: Start_def memory_ops_def mem_FakeIPMetadata_def)
  then have "store_ok memory_ops (\<lambda>_. True) (memory_store r4 r6)"
    using memory.store_ok_start [OF assms(1,2), of NewMemoryStorage] by (simp add: memory_ops_def mem_FakeIPReset_def)
  then have "store_ok memory_ops (\<lambda>_. True) s \<and> (\<forall>w. fam_range w s = fam_range w (memory_store r4 r6))"
    using memory.reachable_ok [OF assms(3)] by blast
  then show "store_ok memory_ops (\<lambda>_. True) s" "fam_range v6 s = (if v6 then r6 else r4)"
    by (simp_all add: fam_defs NewStore_def Start_def Start_reset_def memory_ops_def mem_FakeIPMetadata_def)
qed

lemma usable_avoids:
  assumes "roomy p" "usable p a"
  shows "a \<noteq> p_addr p" "a \<noteq> Next (p_addr p)" "a \<noteq> broadcastAddress p"
  using assms start_cursor_ok [OF assms(1)] addr_val_Next [of "p_addr p"] addr_val_less [of "broadcastAddress p"]
  by (auto simp: usable_def roomy_def capacity_def broadcastAddress_val(1))

text \<open>A range written with its network address and at least two host bits has usable addresses.\<close>

lemma masked_capacity:
  assumes "Prefix_IsValid p" "addr_val (p_addr p) mod 2 ^ host_bits p = 0"
  shows "capacity p = 2 ^ host_bits p - 3"
proof -
  have "addr_val (p_addr p) div 2 ^ host_bits p * 2 ^ host_bits p = addr_val (p_addr p)"
    using assms(2) by auto
  then show ?thesis using assms(1) by (simp add: capacity_def broadcastAddress_val)
qed

lemma masked_roomy:
  assumes "Prefix_IsValid p" "addr_val (p_addr p) mod 2 ^ host_bits p = 0" "2 \<le> host_bits p"
  shows "roomy p"
proof -
  have "(2 :: nat) ^ 2 \<le> 2 ^ host_bits p" using assms(3) by (intro power_increasing) simp_all
  then show ?thesis using assms by (simp add: roomy_def masked_capacity)
qed

text \<open>The range of the documentation's example, and the store over it.\<close>

definition ex_range :: Prefix where "ex_range = \<lparr>p_addr = Addr4 0xC6120000, p_bits = 15\<rparr>"

lemma ex_range_facts: "Prefix_IsValid ex_range" "host_bits ex_range = 17" "capacity ex_range = 131069" "roomy ex_range"
  "range_ok False ex_range" "range_ok True ZeroPrefix" "broadcastAddress ex_range = Addr4 0xC613FFFF"
proof -
  show v: "Prefix_IsValid ex_range" and h: "host_bits ex_range = 17"
    by (simp_all add: ex_range_def Prefix_IsValid_def host_bits_def)
  show "capacity ex_range = 131069" using masked_capacity [OF v] h by (simp add: ex_range_def)
  show r: "roomy ex_range" using masked_roomy [OF v] h by (simp add: ex_range_def)
  then show "range_ok False ex_range" "range_ok True ZeroPrefix"
    by (simp_all add: range_ok_def) (simp_all add: ex_range_def ZeroPrefix_def Prefix_IsValid_def)
  have "broadcastAddress ex_range = Addr4 (0xC6120000 OR mask 17)"
    using broadcastAddress_4 [OF _ v] h by (simp add: ex_range_def)
  then show "broadcastAddress ex_range = Addr4 0xC613FFFF" by (simp add: mask_eq_exp_minus_1)
qed

text \<open>C26. From the start of a store over memory storage, and through any interleaving of allocations,
  resets and closings, a domain asked for in a configured family gets an address of that family inside
  its range that is neither the network address, nor its successor, nor the broadcast address; looking
  the address up gives the domain, and asking again gives the same address and changes nothing.\<close>

theorem fakeip_Create_Lookup:
  assumes "range_ok False r4" "range_ok True r6" "store_reachable memory_ops (memory_store r4 r6) s"
    and p: "p = (if v6 then r6 else r4)" and v: "Prefix_IsValid p"
  shows "\<exists>a s'. Create memory_ops d v6 s = Some (Inr a, s') \<and> Store_Contains a s' \<and> Is4 a = (\<not> v6) \<and>
     a \<noteq> p_addr p \<and> a \<noteq> Next (p_addr p) \<and> a \<noteq> broadcastAddress p \<and>
     Lookup memory_ops a s' = Some (Some d) \<and> Create memory_ops d v6 s' = Some (Inr a, s')"
proof -
  note ok = memory_store_ok [OF assms(1-3)]
  obtain a s' where C: "CreateLocked memory_ops d v6 s = Some (Inr a, s')" "usable p a" "v6 = (\<not> Is4 a)"
    "Lookup memory_ops a s' = Some (Some d)" "CreateLocked memory_ops d v6 s' = Some (Inr a, s')"
    using memory.CreateLocked_result [OF ok(1), of v6 d] ok(2) v unfolding p by auto
  have "roomy p" using assms(1,2) v by (auto simp: p range_ok_def split: if_splits)
  moreover have "fam_range v6 s' = p" using memory.CreateLocked_ok [OF ok(1) C(1)] ok(2) p by simp
  then have "Store_Contains a s'"
    using usable_contains [OF v C(2)] by (auto simp: Store_Contains_def fam_range_def split: if_splits)
  ultimately show ?thesis
    using C usable_avoids [OF _ C(2)] by (auto simp: Create_eq)
qed

theorem fakeip_Create_Lookup_witness:
  "\<exists>a s'. Create memory_ops ''sing-box.app'' False (memory_store ex_range ZeroPrefix) = Some (Inr a, s') \<and>
     Store_Contains a s' \<and> Lookup memory_ops a s' = Some (Some ''sing-box.app'')"
  using fakeip_Create_Lookup [OF ex_range_facts(5,6) store_reachable.start, of ex_range False "''sing-box.app''"]
    ex_range_facts(1) by auto

text \<open>C27. A fake address keeps standing for its domain while fewer further domains are allocated than
  the range has usable addresses: the rotation reuses the oldest address first.\<close>

theorem fakeip_mapping_kept:
  assumes "range_ok False r4" "range_ok True r6" "store_reachable memory_ops (memory_store r4 r6) s"
    and p: "p = (if v6 then r6 else r4)" and v: "Prefix_IsValid p"
    and C: "Create memory_ops d v6 s = Some (Inr a, s1)" and a: "Lookup memory_ops a s \<noteq> Some (Some d)"
    and R: "Creates memory_ops reqs s1 = Some s2" and len: "length reqs < capacity p"
  shows "Lookup memory_ops a s2 = Some (Some d)"
proof -
  note ok = memory_store_ok [OF assms(1-3)]
  have "fam_range v6 s = p" using ok(2) p by simp
  then show ?thesis
    using memory.Create_keeps [OF ok(1) _ _ C [unfolded Create_eq] a R] v len by simp
qed

theorem fakeip_mapping_kept_witness:
  "\<exists>a s1 s2. Create memory_ops ''a.org'' False (memory_store ex_range ZeroPrefix) = Some (Inr a, s1) \<and>
     Creates memory_ops [(''b.org'', False), (''a.org'', False), (''c.org'', True)] s1 = Some s2 \<and>
     Lookup memory_ops a s2 = Some (Some ''a.org'')"
proof -
  let ?s = "memory_store ex_range ZeroPrefix"
  obtain a s1 where C: "Create memory_ops ''a.org'' False ?s = Some (Inr a, s1)"
    using memory.CreateLocked_result [OF memory_store_ok(1) [OF ex_range_facts(5,6) store_reachable.start], of False "''a.org''"]
      memory_store_ok(2) [OF ex_range_facts(5,6) store_reachable.start, of False] ex_range_facts(1)
    by (auto simp: Create_eq)
  moreover have "Lookup memory_ops a ?s \<noteq> Some (Some ''a.org'')"
    by (simp add: Lookup_def Start_def Start_reset_def NewStore_def NewMemoryStorage_def memory_ops_def
        mem_FakeIPMetadata_def mem_FakeIPReset_def mem_FakeIPLoad_def)
  moreover obtain s2 where R: "Creates memory_ops [(''b.org'', False), (''a.org'', False), (''c.org'', True)] s1 = Some s2"
    using memory.Creates_total memory.CreateLocked_ok [OF memory_store_ok(1) [OF ex_range_facts(5,6) store_reachable.start]] C
    by (metis Create_eq)
  ultimately show ?thesis
    using fakeip_mapping_kept [OF ex_range_facts(5,6) store_reachable.start, of ex_range False "''a.org''" a s1
      "[(''b.org'', False), (''a.org'', False), (''c.org'', True)]" s2] ex_range_facts by auto
qed

text \<open>The loop of \<open>broadcastAddress\<close> over the host bits gives the greatest address of the prefix.\<close>

theorem broadcastAddress_greatest:
  assumes "Prefix_IsValid p"
  shows "Prefix_Contains p (broadcastAddress p) \<and>
    (\<forall>a. Prefix_Contains p a \<longrightarrow> addr_val a \<le> addr_val (broadcastAddress p))"
proof -
  let ?d = "2 ^ host_bits p :: nat" and ?q = "addr_val (p_addr p) div 2 ^ host_bits p"
  have d: "0 < ?d" "(?q + 1) * ?d = ?q * ?d + ?d" by simp_all
  have "(?q * ?d + (?d - 1)) div ?d = ?q" using d(1) div_mult_self3 [of ?d ?q "?d - 1"] by (simp del: div_mult_self3)
  moreover have "addr_val a \<le> ?q * ?d + (?d - 1)" if "addr_val a div ?d = ?q" for a
  proof -
    have "addr_val a < (?q + 1) * ?d" using that div_less_iff_less_mult [of ?d "addr_val a" "?q + 1"] by simp
    then show ?thesis using d by linarith
  qed
  ultimately show ?thesis
    using assms by (simp add: Prefix_Contains_val broadcastAddress_val)
qed

theorem broadcastAddress_greatest_witness:
  "Prefix_IsValid \<lparr>p_addr = Addr4 0xC6120000, p_bits = 15\<rparr> \<and>
   Prefix_Contains \<lparr>p_addr = Addr4 0xC6120000, p_bits = 15\<rparr> (broadcastAddress \<lparr>p_addr = Addr4 0xC6120000, p_bits = 15\<rparr>)"
  using broadcastAddress_greatest [of "\<lparr>p_addr = Addr4 0xC6120000, p_bits = 15\<rparr>"] by (simp add: Prefix_IsValid_def)

text \<open>
  A range without usable addresses is accepted all the same: the second successor of a two-address
  range lies outside it, and the store hands it out.
\<close>

lemma small_range_escapes:
  "\<exists>a s'. Create memory_ops d False (memory_store \<lparr>p_addr = Addr4 0xC6120000, p_bits = 31\<rparr> ZeroPrefix) = Some (Inr a, s') \<and>
     \<not> Store_Contains a s'"
proof -
  let ?p = "\<lparr>p_addr = Addr4 0xC6120000, p_bits = 31\<rparr>"
  have v: "Prefix_IsValid ?p" "\<not> Prefix_IsValid ZeroPrefix" by (simp_all add: Prefix_IsValid_def ZeroPrefix_def)
  have b: "broadcastAddress ?p = Addr4 0xC6120001"
    using broadcastAddress_4 [OF _ v(1)] by (simp add: host_bits_def mask_eq_exp_minus_1)
  have n: "next_fake ?p (Addr4 0xC6120001) (Addr4 0xC6120001) = Addr4 0xC6120002"
    by (simp add: next_fake_def Prefix_Contains_def drop_bit_eq_div)
  show ?thesis
    using v b n by (simp add: Create_eq CreateLocked_def Start_def Start_reset_def NewStore_def NewMemoryStorage_def memory_ops_def
        mem_FakeIPMetadata_def mem_FakeIPReset_def mem_FakeIPLoadDomain_def Store_Contains_def Prefix_Contains_def Let_def)
qed

end
