(* ===== verification/CacheFakeIP.thy ===== *)
theory CacheFakeIP
  imports FakeIP
begin

section \<open>Fake addresses in the cache file\<close>

text \<open>
  The cache file (\<open>experimental/cachefile/fakeip.go\<close> and the transaction wrappers of
  \<open>cache.go\<close>) as the second storage of fake addresses. The database package bbolt is third-party
  code: its operations are the fields of the record \<open>bbolt\<close>, an argument of every definition, and
  the behaviour the code relies on is the locale \<open>bolt\<close>. So is \<open>M.AddrFromIP\<close> of the package
  sing. The timer of \<open>FakeIPSaveMetadataAsync\<close> and the goroutine of \<open>FakeIPStoreAsync\<close> are
  steps of their own (\<open>saveMetadata_timer\<close>, \<open>storeAsync_done\<close>).
\<close>

subsection \<open>The database\<close>

text \<open>
  Operations on a database of type \<open>'db\<close>: buckets are named by strings, an error is \<open>Some\<close>. A
  function run in a transaction returns \<open>None\<close> if it panics, and so does \<open>db_Batch\<close>, which stands
  for the \<open>PanickedError\<close> of the package.
\<close>

record 'db bbolt =
  db_Empty :: 'db
  db_Batch :: "('db \<Rightarrow> (string option \<times> 'db) option) \<Rightarrow> 'db \<Rightarrow> (string option \<times> 'db) option"
  tx_Bucket :: "string \<Rightarrow> 'db \<Rightarrow> bool"
  tx_CreateBucketIfNotExists :: "string \<Rightarrow> 'db \<Rightarrow> string option \<times> 'db"
  tx_DeleteBucket :: "string \<Rightarrow> 'db \<Rightarrow> string option \<times> 'db"
  b_Get :: "string \<Rightarrow> byte list \<Rightarrow> 'db \<Rightarrow> byte list option"
  b_Put :: "string \<Rightarrow> byte list \<Rightarrow> byte list \<Rightarrow> 'db \<Rightarrow> string option \<times> 'db"
  b_Delete :: "string \<Rightarrow> byte list \<Rightarrow> 'db \<Rightarrow> string option \<times> 'db"
  addrFromIP :: "byte list \<Rightarrow> Addr"

text \<open>\<open>if err != nil { return err }\<close>, and otherwise the next call on the changed transaction.\<close>

definition tx_then :: "string option \<times> 'db \<Rightarrow> ('db \<Rightarrow> string option \<times> 'db) \<Rightarrow> string option \<times> 'db" where
  "tx_then r f = (case r of (Some err, tx) \<Rightarrow> (Some err, tx) | (None, tx) \<Rightarrow> f tx)"

definition bytes :: "string \<Rightarrow> byte list" where "bytes = map (\<lambda>c. word_of_nat (of_char c))"
definition of_bytes :: "byte list \<Rightarrow> string" where "of_bytes = map (\<lambda>b. char_of (unat b))"

definition fakeipBucketPrefix :: string where "fakeipBucketPrefix = ''fakeip_''"
definition bucketFakeIP :: string where "bucketFakeIP = fakeipBucketPrefix @ ''address''"
definition bucketFakeIPDomain4 :: string where "bucketFakeIPDomain4 = fakeipBucketPrefix @ ''domain4''"
definition bucketFakeIPDomain6 :: string where "bucketFakeIPDomain6 = fakeipBucketPrefix @ ''domain6''"
definition keyMetadata :: "byte list" where "keyMetadata = bytes (fakeipBucketPrefix @ ''metadata'')"

subsection \<open>The cache file\<close>

record 'db CacheFile =
  DB :: 'db
  saveMetadata :: "FakeIPMetadata option"
  saveDomain :: "Addr \<rightharpoonup> string"
  saveAddress4 :: "string \<rightharpoonup> Addr"
  saveAddress6 :: "string \<rightharpoonup> Addr"

text \<open>\<open>batch\<close>: a panic in the transaction makes \<open>resetDB\<close> replace the database by a new one.\<close>

definition resetDB :: "'db bbolt \<Rightarrow> 'db CacheFile \<Rightarrow> 'db CacheFile" where
  "resetDB bb c = c\<lparr>DB := db_Empty bb\<rparr>"

definition batch :: "'db bbolt \<Rightarrow> ('db \<Rightarrow> (string option \<times> 'db) option) \<Rightarrow> 'db CacheFile \<Rightarrow> string option \<times> 'db CacheFile" where
  "batch bb fn c =
     (case db_Batch bb fn (DB c) of
        None \<Rightarrow> (Some ''database corrupted'', resetDB bb c)
      | Some (err, db) \<Rightarrow> (err, c\<lparr>DB := db\<rparr>))"

text \<open>
  \<open>FakeIPMetadata\<close>: \<open>read_metadata\<close> is what the transaction reads and decodes; reading removes
  the entry.
\<close>

definition read_metadata :: "'db bbolt \<Rightarrow> 'db \<Rightarrow> (string + FakeIPMetadata) option" where
  "read_metadata bb tx = (case b_Get bb bucketFakeIP keyMetadata tx of
      None \<Rightarrow> Some (Inl ''invalid argument'')
    | Some metadataBinary \<Rightarrow> if metadataBinary = [] then Some (Inl ''invalid argument'') else UnmarshalBinary metadataBinary)"

definition metadata_tx :: "'db bbolt \<Rightarrow> 'db \<Rightarrow> (string option \<times> 'db) option" where
  "metadata_tx bb tx =
     (if \<not> tx_Bucket bb bucketFakeIP tx then Some (Some ''file does not exist'', tx)
      else case b_Get bb bucketFakeIP keyMetadata tx of
        None \<Rightarrow> Some (Some ''invalid argument'', tx)
      | Some metadataBinary \<Rightarrow>
          if metadataBinary = [] then Some (Some ''invalid argument'', tx)
          else case b_Delete bb bucketFakeIP keyMetadata tx of
            (Some err, tx) \<Rightarrow> Some (Some err, tx)
          | (None, tx) \<Rightarrow> (case UnmarshalBinary metadataBinary of
               None \<Rightarrow> None
             | Some (Inl err) \<Rightarrow> Some (Some err, tx)
             | Some (Inr _) \<Rightarrow> Some (None, tx)))"

definition cf_FakeIPMetadata :: "'db bbolt \<Rightarrow> 'db CacheFile \<Rightarrow> FakeIPMetadata option \<times> 'db CacheFile" where
  "cf_FakeIPMetadata bb c =
     (case batch bb (metadata_tx bb) c of
        (Some err, c') \<Rightarrow> (None, c')
      | (None, c') \<Rightarrow> (case read_metadata bb (DB c) of Some (Inr m) \<Rightarrow> (Some m, c') | _ \<Rightarrow> (None, c')))"

definition cf_FakeIPSaveMetadata :: "'db bbolt \<Rightarrow> FakeIPMetadata \<Rightarrow> 'db CacheFile \<Rightarrow> string option \<times> 'db CacheFile" where
  "cf_FakeIPSaveMetadata bb metadata =
     batch bb (\<lambda>tx. Some (tx_then (tx_CreateBucketIfNotExists bb bucketFakeIP tx)
       (b_Put bb bucketFakeIP keyMetadata (MarshalBinary metadata))))"

definition cf_FakeIPSaveMetadataAsync :: "FakeIPMetadata \<Rightarrow> 'db CacheFile \<Rightarrow> 'db CacheFile" where
  "cf_FakeIPSaveMetadataAsync metadata c = c\<lparr>saveMetadata := Some metadata\<rparr>"

definition saveMetadata_timer :: "'db bbolt \<Rightarrow> 'db CacheFile \<Rightarrow> 'db CacheFile" where
  "saveMetadata_timer bb c = (case saveMetadata c of None \<Rightarrow> c | Some m \<Rightarrow> snd (cf_FakeIPSaveMetadata bb m c))"

definition domain_bucket :: "bool \<Rightarrow> string" where
  "domain_bucket isIPv6 = (if isIPv6 then bucketFakeIPDomain6 else bucketFakeIPDomain4)"

definition store_tx :: "'db bbolt \<Rightarrow> Addr \<Rightarrow> string \<Rightarrow> 'db \<Rightarrow> string option \<times> 'db" where
  "store_tx bb address domain tx =
     tx_then (tx_CreateBucketIfNotExists bb bucketFakeIP tx) (\<lambda>tx.
     let oldDomain = b_Get bb bucketFakeIP (AsSlice address) tx in
     tx_then (b_Put bb bucketFakeIP (AsSlice address) (bytes domain) tx) (\<lambda>tx.
     tx_then (tx_CreateBucketIfNotExists bb (domain_bucket (\<not> Is4 address)) tx) (\<lambda>tx.
     tx_then (case oldDomain of None \<Rightarrow> (None, tx) | Some old \<Rightarrow> b_Delete bb (domain_bucket (\<not> Is4 address)) old tx) (\<lambda>tx.
     b_Put bb (domain_bucket (\<not> Is4 address)) (bytes domain) (AsSlice address) tx))))"

definition cf_FakeIPStore :: "'db bbolt \<Rightarrow> Addr \<Rightarrow> string \<Rightarrow> 'db CacheFile \<Rightarrow> string option \<times> 'db CacheFile" where
  "cf_FakeIPStore bb address domain = batch bb (\<lambda>tx. Some (store_tx bb address domain tx))"

text \<open>\<open>FakeIPStoreAsync\<close> before its goroutine, and the goroutine.\<close>

definition cf_FakeIPStoreAsync :: "Addr \<Rightarrow> string \<Rightarrow> 'db CacheFile \<Rightarrow> 'db CacheFile" where
  "cf_FakeIPStoreAsync address domain c =
     (let c = (case saveDomain c address of
           Some oldDomain \<Rightarrow>
             if Is4 address then c\<lparr>saveAddress4 := (saveAddress4 c)(oldDomain := None)\<rparr>
             else c\<lparr>saveAddress6 := (saveAddress6 c)(oldDomain := None)\<rparr>
         | None \<Rightarrow> c);
          c = c\<lparr>saveDomain := (saveDomain c)(address \<mapsto> domain)\<rparr>
      in if Is4 address then c\<lparr>saveAddress4 := (saveAddress4 c)(domain \<mapsto> address)\<rparr>
         else c\<lparr>saveAddress6 := (saveAddress6 c)(domain \<mapsto> address)\<rparr>)"

definition storeAsync_done :: "'db bbolt \<Rightarrow> Addr \<Rightarrow> string \<Rightarrow> 'db CacheFile \<Rightarrow> 'db CacheFile" where
  "storeAsync_done bb address domain c =
     (let c = snd (cf_FakeIPStore bb address domain c);
          c = c\<lparr>saveDomain := (saveDomain c)(address := None)\<rparr>
      in if Is4 address then c\<lparr>saveAddress4 := (saveAddress4 c)(domain := None)\<rparr>
         else c\<lparr>saveAddress6 := (saveAddress6 c)(domain := None)\<rparr>)"

definition cf_FakeIPLoad :: "'db bbolt \<Rightarrow> Addr \<Rightarrow> 'db CacheFile \<Rightarrow> string option" where
  "cf_FakeIPLoad bb address c =
     (case saveDomain c address of
        Some cachedDomain \<Rightarrow> Some cachedDomain
      | None \<Rightarrow>
          let domain = (if \<not> tx_Bucket bb bucketFakeIP (DB c) then []
                        else case b_Get bb bucketFakeIP (AsSlice address) (DB c) of None \<Rightarrow> [] | Some v \<Rightarrow> of_bytes v)
          in if domain \<noteq> [] then Some domain else None)"

definition cf_FakeIPLoadDomain :: "'db bbolt \<Rightarrow> string \<Rightarrow> bool \<Rightarrow> 'db CacheFile \<Rightarrow> Addr option" where
  "cf_FakeIPLoadDomain bb domain isIPv6 c =
     (case (if \<not> isIPv6 then saveAddress4 c domain else saveAddress6 c domain) of
        Some cachedAddress \<Rightarrow> Some cachedAddress
      | None \<Rightarrow>
          let address = (if \<not> tx_Bucket bb (domain_bucket isIPv6) (DB c) then AddrInvalid
                         else addrFromIP bb (case b_Get bb (domain_bucket isIPv6) (bytes domain) (DB c) of None \<Rightarrow> [] | Some v \<Rightarrow> v))
          in if IsValid address then Some address else None)"

definition reset_tx :: "'db bbolt \<Rightarrow> 'db \<Rightarrow> string option \<times> 'db" where
  "reset_tx bb tx =
     tx_then (tx_DeleteBucket bb bucketFakeIP tx) (\<lambda>tx.
     tx_then (tx_DeleteBucket bb bucketFakeIPDomain4 tx) (tx_DeleteBucket bb bucketFakeIPDomain6))"

definition cf_FakeIPReset :: "'db bbolt \<Rightarrow> 'db CacheFile \<Rightarrow> string option \<times> 'db CacheFile" where
  "cf_FakeIPReset bb = batch bb (\<lambda>tx. Some (reset_tx bb tx))"

definition cache_ops :: "'db bbolt \<Rightarrow> 'db CacheFile FakeIPStorage" where
  "cache_ops bb = \<lparr>st_Metadata = cf_FakeIPMetadata bb, st_SaveMetadata = cf_FakeIPSaveMetadata bb,
     st_SaveMetadataAsync = cf_FakeIPSaveMetadataAsync, st_Store = cf_FakeIPStore bb,
     st_Load = cf_FakeIPLoad bb, st_LoadDomain = cf_FakeIPLoadDomain bb, st_Reset = cf_FakeIPReset bb\<rparr>"

subsection \<open>What the database promises\<close>

text \<open>The entry of a bucket under a key, absent without the bucket.\<close>

definition entry :: "'db bbolt \<Rightarrow> string \<Rightarrow> byte list \<Rightarrow> 'db \<Rightarrow> byte list option" where
  "entry bb n k db = (if tx_Bucket bb n db then b_Get bb n k db else None)"

definition key_ok :: "byte list \<Rightarrow> bool" where "key_ok k \<longleftrightarrow> k \<noteq> [] \<and> length k \<le> 32768"
definition value_ok :: "byte list \<Rightarrow> bool" where "value_ok v \<longleftrightarrow> length v \<le> 2 ^ 31 - 2"

text \<open>
  The documented behaviour of bbolt: a transaction function's error rolls the transaction back; keys
  are not empty and have at most 32768 bytes, values at most \<open>2\<^sup>3\<^sup>1 - 2\<close>; deleting a missing key is no
  error, deleting a missing bucket is one. \<open>addrFromIP\<close> reads the bytes of an address.
\<close>

locale bolt =
  fixes bb :: "'db bbolt"
  assumes batch_commit: "fn db = Some (None, db') \<Longrightarrow> db_Batch bb fn db = Some (None, db')"
    and batch_rollback: "fn db = Some (Some err, db') \<Longrightarrow> db_Batch bb fn db = Some (Some err, db)"
    and create: "\<lbrakk>n \<noteq> []; length n \<le> 32768\<rbrakk> \<Longrightarrow> fst (tx_CreateBucketIfNotExists bb n db) = None \<and>
      tx_Bucket bb m (snd (tx_CreateBucketIfNotExists bb n db)) = (m = n \<or> tx_Bucket bb m db) \<and>
      b_Get bb m k (snd (tx_CreateBucketIfNotExists bb n db)) =
        (if m = n \<and> \<not> tx_Bucket bb n db then None else b_Get bb m k db)"
    and put: "\<lbrakk>tx_Bucket bb n db; key_ok k; value_ok v\<rbrakk> \<Longrightarrow> fst (b_Put bb n k v db) = None \<and>
      tx_Bucket bb m (snd (b_Put bb n k v db)) = tx_Bucket bb m db \<and>
      b_Get bb m j (snd (b_Put bb n k v db)) = (if m = n \<and> j = k then Some v else b_Get bb m j db)"
    and put_rejects: "\<not> key_ok k \<Longrightarrow> fst (b_Put bb n k v db) \<noteq> None"
    and delete: "tx_Bucket bb n db \<Longrightarrow> fst (b_Delete bb n k db) = None \<and>
      tx_Bucket bb m (snd (b_Delete bb n k db)) = tx_Bucket bb m db \<and>
      b_Get bb m j (snd (b_Delete bb n k db)) = (if m = n \<and> j = k then None else b_Get bb m j db)"
    and deleteBucket: "tx_Bucket bb n db \<Longrightarrow> fst (tx_DeleteBucket bb n db) = None \<and>
      tx_Bucket bb m (snd (tx_DeleteBucket bb n db)) = (m \<noteq> n \<and> tx_Bucket bb m db) \<and>
      (m \<noteq> n \<longrightarrow> b_Get bb m j (snd (tx_DeleteBucket bb n db)) = b_Get bb m j db)"
    and deleteBucket_missing: "\<not> tx_Bucket bb n db \<Longrightarrow> fst (tx_DeleteBucket bb n db) \<noteq> None"
    and addrFromIP: "addrFromIP bb (AsSlice a) = a"

text \<open>Databases that are maps keep the promises.\<close>

definition map_bolt :: "(string \<Rightarrow> (byte list \<Rightarrow> byte list option) option) bbolt" where
  "map_bolt = \<lparr>db_Empty = Map.empty,
     db_Batch = (\<lambda>fn db. case fn db of None \<Rightarrow> None | Some (None, db') \<Rightarrow> Some (None, db') | Some (Some e, _) \<Rightarrow> Some (Some e, db)),
     tx_Bucket = (\<lambda>n db. db n \<noteq> None),
     tx_CreateBucketIfNotExists = (\<lambda>n db. (None, case db n of None \<Rightarrow> db(n \<mapsto> Map.empty) | Some _ \<Rightarrow> db)),
     tx_DeleteBucket = (\<lambda>n db. case db n of None \<Rightarrow> (Some ''bucket not found'', db) | Some _ \<Rightarrow> (None, db(n := None))),
     b_Get = (\<lambda>n k db. case db n of None \<Rightarrow> None | Some b \<Rightarrow> b k),
     b_Put = (\<lambda>n k v db. if key_ok k then (None, db(n \<mapsto> (case db n of None \<Rightarrow> Map.empty | Some b \<Rightarrow> b)(k \<mapsto> v)))
              else (Some ''key required'', db)),
     b_Delete = (\<lambda>n k db. (None, db(n := map_option (\<lambda>b. b(k := None)) (db n)))),
     addrFromIP = (\<lambda>bs. case Addr_UnmarshalBinary bs of Inr a \<Rightarrow> a | Inl _ \<Rightarrow> AddrInvalid)\<rparr>"

interpretation map_db: bolt map_bolt
  by unfold_locales
    (auto simp: map_bolt_def Addr_binary_roundtrip [unfolded Addr_MarshalBinary_def] split: option.splits)

lemma bytes_of_bytes [simp]: "bytes (of_bytes v) = v"
proof (induction v)
  case (Cons b v)
  have "unat b mod 256 = unat b" using unsigned_less [of b] by (intro mod_less) simp
  then show ?case using Cons by (simp add: bytes_def of_bytes_def)
qed (simp add: bytes_def of_bytes_def)

lemma of_bytes_bytes [simp]: "of_bytes (bytes d) = d"
  by (induction d) (simp_all add: bytes_def of_bytes_def unat_of_nat)

lemma bytes_eq_iff [simp]: "bytes d = bytes e \<longleftrightarrow> d = e"
  by (metis of_bytes_bytes)

lemma length_bytes [simp]: "length (bytes d) = length d" "length (of_bytes v) = length v"
  by (simp_all add: bytes_def of_bytes_def)

lemma bytes_eq_Nil [simp]: "bytes d = [] \<longleftrightarrow> d = []" "of_bytes v = [] \<longleftrightarrow> v = []"
  by (simp_all add: bytes_def of_bytes_def)

lemma AsSlice_inj [simp]: "AsSlice a = AsSlice b \<longleftrightarrow> a = b"
  by (metis Addr_MarshalBinary_def Addr_binary_roundtrip sum.inject(2))

lemma AsSlice_length: "length (AsSlice a) \<in> {0, 4, 16}" "AsSlice a = [] \<longleftrightarrow> \<not> IsValid a"
proof -
  show "length (AsSlice a) \<in> {0, 4, 16}" by (cases a) simp_all
  have "AsSlice a = [] \<longleftrightarrow> length (AsSlice a) = 0" by simp
  then show "AsSlice a = [] \<longleftrightarrow> \<not> IsValid a" by (cases a) (simp_all del: length_0_conv)
qed

lemma AsSlice_keyMetadata [simp]: "AsSlice a \<noteq> keyMetadata" "keyMetadata \<noteq> AsSlice a"
  using AsSlice_length(1) [of a] by (auto simp: keyMetadata_def fakeipBucketPrefix_def dest: arg_cong [of _ _ length])

lemma bucket_names [simp]:
  "bucketFakeIP \<noteq> []" "domain_bucket w \<noteq> []" "bucketFakeIP \<noteq> domain_bucket w" "domain_bucket w \<noteq> bucketFakeIP"
  "domain_bucket v = domain_bucket w \<longleftrightarrow> v = w" "length bucketFakeIP = 14" "length (domain_bucket w) = 14"
  by (auto simp: bucketFakeIP_def domain_bucket_def bucketFakeIPDomain4_def bucketFakeIPDomain6_def fakeipBucketPrefix_def)

lemma AsSlice_key_ok: "IsValid a \<Longrightarrow> key_ok (AsSlice a)" "value_ok (AsSlice a)" "key_ok keyMetadata"
  using AsSlice_length [of a]
  by (auto simp: key_ok_def value_ok_def keyMetadata_def bytes_def fakeipBucketPrefix_def)

context bolt
begin

lemma entry_create:
  assumes "n \<noteq> []" "length n \<le> 32768"
  obtains db' where "tx_CreateBucketIfNotExists bb n db = (None, db')"
    "\<And>m. tx_Bucket bb m db' = (m = n \<or> tx_Bucket bb m db)" "\<And>m k. entry bb m k db' = entry bb m k db"
  using create [OF assms, of db] by (cases "tx_CreateBucketIfNotExists bb n db") (auto simp: entry_def)

lemma entry_put:
  assumes "tx_Bucket bb n db" "key_ok k" "value_ok v"
  obtains db' where "b_Put bb n k v db = (None, db')" "\<And>m. tx_Bucket bb m db' = tx_Bucket bb m db"
    "\<And>m j. entry bb m j db' = (if m = n \<and> j = k then Some v else entry bb m j db)"
  using put [OF assms] assms(1) by (cases "b_Put bb n k v db") (auto simp: entry_def)

lemma entry_delete:
  assumes "tx_Bucket bb n db"
  obtains db' where "b_Delete bb n k db = (None, db')" "\<And>m. tx_Bucket bb m db' = tx_Bucket bb m db"
    "\<And>m j. entry bb m j db' = (if m = n \<and> j = k then None else entry bb m j db)"
  using delete [OF assms, of k] assms by (cases "b_Delete bb n k db") (auto simp: entry_def)

end

subsection \<open>The cache file keeps the promises of a storage\<close>

definition cache_storable :: "string \<Rightarrow> bool" where
  "cache_storable d \<longleftrightarrow> key_ok (bytes d)"

text \<open>Nothing pending, and no address stands for the empty domain.\<close>

definition cache_good :: "'db bbolt \<Rightarrow> 'db CacheFile \<Rightarrow> bool" where
  "cache_good bb c \<longleftrightarrow> saveDomain c = Map.empty \<and> saveAddress4 c = Map.empty \<and> saveAddress6 c = Map.empty \<and>
     (\<forall>a. entry bb bucketFakeIP (AsSlice a) (DB c) \<noteq> Some [])"

lemma cache_load:
  assumes "cache_good bb c"
  shows "cf_FakeIPLoad bb a c = map_option of_bytes (entry bb bucketFakeIP (AsSlice a) (DB c))"
  using assms by (auto simp: cache_good_def cf_FakeIPLoad_def entry_def split: option.splits)

lemma tx_then_simps [simp]: "tx_then (None, tx) f = f tx" "tx_then (Some e, tx) f = (Some e, tx)"
  by (simp_all add: tx_then_def)

lemma tx_then_error: "(\<And>tx. fst (f tx) \<noteq> None) \<Longrightarrow> fst (tx_then r f) \<noteq> None"
  by (simp add: tx_then_def split: prod.split option.split)

lemma length_MarshalBinary: "length (MarshalBinary m) \<le> 74"
  using length_Prefix_MarshalBinary [of "Inet4Range m"] length_Prefix_MarshalBinary [of "Inet6Range m"]
    length_Addr_MarshalBinary [of "Inet4Current m"] length_Addr_MarshalBinary [of "Inet6Current m"]
  by (simp add: MarshalBinary_def marshal_element_def)

context bolt
begin

lemma cache_loadDomain:
  assumes "cache_good bb c"
  shows "cf_FakeIPLoadDomain bb d v6 c =
    (case entry bb (domain_bucket v6) (bytes d) (DB c) of None \<Rightarrow> None
     | Some v \<Rightarrow> if IsValid (addrFromIP bb v) then Some (addrFromIP bb v) else None)"
proof -
  have "addrFromIP bb [] = AddrInvalid" using addrFromIP [of AddrInvalid] by simp
  then show ?thesis
    using assms by (auto simp: cache_good_def cf_FakeIPLoadDomain_def entry_def split: option.splits)
qed

lemma batch_None [simp]: "fn (DB c) = Some (None, db') \<Longrightarrow> batch bb fn c = (None, c\<lparr>DB := db'\<rparr>)"
  by (simp add: batch_def batch_commit)

lemma batch_error: "fn (DB c) = Some (r, db') \<Longrightarrow> r \<noteq> None \<Longrightarrow> batch bb fn c = (r, c)"
  by (cases r) (simp_all add: batch_def batch_rollback)

lemma store_tx_ok:
  assumes a: "IsValid a" and d: "cache_storable d"
  obtains db' where "store_tx bb a d db = (None, db')"
    "\<And>m k. entry bb m k db' =
      (if m = bucketFakeIP \<and> k = AsSlice a then Some (bytes d)
       else if m = domain_bucket (\<not> Is4 a) \<and> k = bytes d then Some (AsSlice a)
       else if m = domain_bucket (\<not> Is4 a) \<and> entry bb bucketFakeIP (AsSlice a) db = Some k then None
       else entry bb m k db)"
proof -
  let ?n = "domain_bucket (\<not> Is4 a)" and ?old = "entry bb bucketFakeIP (AsSlice a) db"
  have k: "key_ok (bytes d)" "value_ok (bytes d)" using d by (simp_all add: cache_storable_def key_ok_def value_ok_def)
  obtain db1 where 1: "tx_CreateBucketIfNotExists bb bucketFakeIP db = (None, db1)"
    "\<And>m. tx_Bucket bb m db1 = (m = bucketFakeIP \<or> tx_Bucket bb m db)" "\<And>m k. entry bb m k db1 = entry bb m k db"
    using entry_create [of bucketFakeIP db] by auto
  have old: "b_Get bb bucketFakeIP (AsSlice a) db1 = ?old" using 1(2,3) by (metis entry_def)
  obtain db2 where 2: "b_Put bb bucketFakeIP (AsSlice a) (bytes d) db1 = (None, db2)"
    "\<And>m. tx_Bucket bb m db2 = tx_Bucket bb m db1"
    "\<And>m j. entry bb m j db2 = (if m = bucketFakeIP \<and> j = AsSlice a then Some (bytes d) else entry bb m j db1)"
    using entry_put [of bucketFakeIP db1 "AsSlice a" "bytes d"] 1(2) k AsSlice_key_ok(1) [OF a] by auto
  obtain db3 where 3: "tx_CreateBucketIfNotExists bb ?n db2 = (None, db3)"
    "\<And>m. tx_Bucket bb m db3 = (m = ?n \<or> tx_Bucket bb m db2)" "\<And>m k. entry bb m k db3 = entry bb m k db2"
    using entry_create [of ?n db2] by auto
  obtain db4 where 4: "(case ?old of None \<Rightarrow> (None, db3) | Some old \<Rightarrow> b_Delete bb ?n old db3) = (None, db4)"
    "\<And>m. tx_Bucket bb m db4 = tx_Bucket bb m db3"
    "\<And>m j. entry bb m j db4 = (if m = ?n \<and> ?old = Some j then None else entry bb m j db3)"
  proof (cases ?old)
    case None
    then show thesis using that by simp
  next
    case (Some o')
    obtain db4 where "b_Delete bb ?n o' db3 = (None, db4)" "\<And>m. tx_Bucket bb m db4 = tx_Bucket bb m db3"
      "\<And>m j. entry bb m j db4 = (if m = ?n \<and> j = o' then None else entry bb m j db3)"
      by (rule entry_delete [of ?n db3 o']) (use 3(2) in auto)
    then show thesis by (intro that [of db4]) (auto simp: Some)
  qed
  obtain db5 where 5: "b_Put bb ?n (bytes d) (AsSlice a) db4 = (None, db5)"
    "\<And>m j. entry bb m j db5 = (if m = ?n \<and> j = bytes d then Some (AsSlice a) else entry bb m j db4)"
    by (rule entry_put [of ?n db4 "bytes d" "AsSlice a"]) (use 3(2) 4(2) k AsSlice_key_ok(2) in auto)
  show thesis
    by (rule that [of db5]) (use 1 2 3 4 5 old in \<open>simp_all add: store_tx_def Let_def\<close>)
qed

lemma store_tx_rejects:
  assumes "\<not> cache_storable d"
  shows "fst (store_tx bb a d db) \<noteq> None"
  unfolding store_tx_def Let_def
  by (intro tx_then_error put_rejects) (use assms in \<open>simp add: cache_storable_def\<close>)

lemma cf_store_ok:
  assumes "IsValid a" "cache_storable d"
  obtains db' where "cf_FakeIPStore bb a d c = (None, c\<lparr>DB := db'\<rparr>)"
    "\<And>m k. entry bb m k db' =
      (if m = bucketFakeIP \<and> k = AsSlice a then Some (bytes d)
       else if m = domain_bucket (\<not> Is4 a) \<and> k = bytes d then Some (AsSlice a)
       else if m = domain_bucket (\<not> Is4 a) \<and> entry bb bucketFakeIP (AsSlice a) (DB c) = Some k then None
       else entry bb m k (DB c))"
proof (rule store_tx_ok [OF assms, of "DB c"])
  fix db' assume "store_tx bb a d (DB c) = (None, db')"
  then have "cf_FakeIPStore bb a d c = (None, c\<lparr>DB := db'\<rparr>)" by (simp add: cf_FakeIPStore_def)
  moreover assume "\<And>m k. entry bb m k db' =
      (if m = bucketFakeIP \<and> k = AsSlice a then Some (bytes d)
       else if m = domain_bucket (\<not> Is4 a) \<and> k = bytes d then Some (AsSlice a)
       else if m = domain_bucket (\<not> Is4 a) \<and> entry bb bucketFakeIP (AsSlice a) (DB c) = Some k then None
       else entry bb m k (DB c))"
  ultimately show thesis by (rule that)
qed

lemma cf_store_rejects:
  assumes "\<not> cache_storable d"
  shows "fst (cf_FakeIPStore bb a d c) \<noteq> None \<and> snd (cf_FakeIPStore bb a d c) = c"
proof -
  obtain r db' where "store_tx bb a d (DB c) = (r, db')" "r \<noteq> None"
    using store_tx_rejects [OF assms, of a "DB c"] by (metis prod.collapse)
  then show ?thesis by (simp add: cf_FakeIPStore_def batch_error)
qed

lemma cf_save_ok:
  obtains db' where "cf_FakeIPSaveMetadata bb m c = (None, c\<lparr>DB := db'\<rparr>)"
    "\<forall>n k. entry bb n k db' = (if n = bucketFakeIP \<and> k = keyMetadata then Some (MarshalBinary m) else entry bb n k (DB c))"
proof -
  have v: "value_ok (MarshalBinary m)" using length_MarshalBinary [of m] by (simp add: value_ok_def)
  obtain db1 where 1: "tx_CreateBucketIfNotExists bb bucketFakeIP (DB c) = (None, db1)"
    "\<And>m. tx_Bucket bb m db1 = (m = bucketFakeIP \<or> tx_Bucket bb m (DB c))" "\<And>m k. entry bb m k db1 = entry bb m k (DB c)"
    using entry_create [of bucketFakeIP "DB c"] by auto
  obtain db2 where "b_Put bb bucketFakeIP keyMetadata (MarshalBinary m) db1 = (None, db2)"
    "\<And>m. tx_Bucket bb m db2 = tx_Bucket bb m db1"
    "\<And>n j. entry bb n j db2 = (if n = bucketFakeIP \<and> j = keyMetadata then Some (MarshalBinary m) else entry bb n j db1)"
    using entry_put [of bucketFakeIP db1 keyMetadata "MarshalBinary m"] 1(2) v AsSlice_key_ok(3) by auto
  then show thesis
    using that [of db2] 1 by (simp add: cf_FakeIPSaveMetadata_def)
qed

lemma deleteBucket_cases:
  obtains (present) db' where "tx_Bucket bb n db" "tx_DeleteBucket bb n db = (None, db')"
      "\<And>m. tx_Bucket bb m db' = (m \<noteq> n \<and> tx_Bucket bb m db)"
    | (absent) err db' where "\<not> tx_Bucket bb n db" "tx_DeleteBucket bb n db = (Some err, db')"
  using deleteBucket [of n db] deleteBucket_missing [of n db]
  by (cases "tx_DeleteBucket bb n db"; cases "tx_Bucket bb n db") auto

lemma cf_reset_cases:
  obtains (all) db' where "tx_Bucket bb bucketFakeIP (DB c)" "\<And>w. tx_Bucket bb (domain_bucket w) (DB c)"
      "cf_FakeIPReset bb c = (None, c\<lparr>DB := db'\<rparr>)" "\<not> tx_Bucket bb bucketFakeIP db'" "\<And>w. \<not> tx_Bucket bb (domain_bucket w) db'"
    | (missing) err where "\<not> tx_Bucket bb bucketFakeIP (DB c) \<or> (\<exists>w. \<not> tx_Bucket bb (domain_bucket w) (DB c))"
      "cf_FakeIPReset bb c = (Some err, c)"
proof -
  have n: "bucketFakeIPDomain4 = domain_bucket False" "bucketFakeIPDomain6 = domain_bucket True"
    by (simp_all add: domain_bucket_def)
  have fail: thesis if "reset_tx bb (DB c) = (Some err, db')" "\<not> tx_Bucket bb m (DB c)"
    "m = bucketFakeIP \<or> (\<exists>w. m = domain_bucket w)" for err db' m
    using that missing [of err] batch_error [of "\<lambda>tx. Some (reset_tx bb tx)" c "Some err" db']
    by (auto simp: cf_FakeIPReset_def)
  show thesis
  proof (cases rule: deleteBucket_cases [of bucketFakeIP "DB c"])
    case (present db1)
    show thesis
    proof (cases rule: deleteBucket_cases [of "domain_bucket False" db1])
      case present4: (present db2)
      show thesis
      proof (cases rule: deleteBucket_cases [of "domain_bucket True" db2])
        case present6: (present db3)
        have w: "tx_Bucket bb (domain_bucket w) (DB c) \<and> \<not> tx_Bucket bb (domain_bucket w) db3" for w
          using present present4 present6 by (cases w) auto
        show thesis
          by (rule all [of db3]) (use present present4 present6 w in \<open>simp_all add: cf_FakeIPReset_def reset_tx_def n\<close>)
      next
        case (absent err db')
        then show thesis using fail [of err db' "domain_bucket True"] present present4 by (auto simp: reset_tx_def n)
      qed
    next
      case (absent err db')
      then show thesis using fail [of err db' "domain_bucket False"] present by (auto simp: reset_tx_def n)
    qed
  next
    case (absent err db')
    then show thesis using fail [of err db' bucketFakeIP] by (auto simp: reset_tx_def)
  qed
qed

end

context bolt
begin

lemma cache_good_store:
  assumes "cache_good bb c" "IsValid a"
  shows "cache_good bb (snd (cf_FakeIPStore bb a d c))"
proof (cases "cache_storable d")
  case True
  then have "bytes d \<noteq> []" by (simp add: cache_storable_def key_ok_def)
  then show ?thesis
    using assms(1) by (cases rule: cf_store_ok [OF assms(2) True, of c]) (auto simp: cache_good_def)
next
  case False
  then show ?thesis using cf_store_rejects assms(1) by simp
qed

lemma cache_good_save: "cache_good bb c \<Longrightarrow> cache_good bb (snd (cf_FakeIPSaveMetadata bb m c))"
  by (cases rule: cf_save_ok [of m c]) (auto simp: cache_good_def)

lemma cache_good_reset: "cache_good bb c \<Longrightarrow> cache_good bb (snd (cf_FakeIPReset bb c))"
  by (cases rule: cf_reset_cases [of c]) (auto simp: cache_good_def entry_def)

lemma cache_load_store:
  assumes c: "cache_good bb c" and a: "IsValid a" and d: "cache_storable d"
  shows "cf_FakeIPLoad bb b (snd (cf_FakeIPStore bb a d c)) = (if b = a then Some d else cf_FakeIPLoad bb b c)"
  by (cases rule: cf_store_ok [OF a d, of c])
    (use c cache_good_store [OF c a, of d] in \<open>auto simp: cache_load\<close>)

lemma cache_loadDomain_store:
  assumes c: "cache_good bb c" and a: "IsValid a" and d: "cache_storable d"
  shows "cf_FakeIPLoadDomain bb e v6 (snd (cf_FakeIPStore bb a d c)) =
    (if e = d \<and> v6 = (\<not> Is4 a) then Some a
     else if v6 = (\<not> Is4 a) \<and> cf_FakeIPLoad bb a c = Some e then None else cf_FakeIPLoadDomain bb e v6 c)"
proof -
  have old: "entry bb bucketFakeIP (AsSlice a) (DB c) = Some (bytes e) \<longleftrightarrow> cf_FakeIPLoad bb a c = Some e"
    using c by (auto simp: cache_load)
  show ?thesis
    by (cases rule: cf_store_ok [OF a d, of c])
      (use c cache_good_store [OF c a, of d] addrFromIP [of a] a in \<open>simp add: cache_loadDomain old\<close>)
qed

end

sublocale bolt \<subseteq> cache: fakeip_storage "cache_ops bb" "cache_good bb" cache_storable
proof unfold_locales
  fix st :: "'db CacheFile" and a b :: Addr and d e :: string and m v6
  assume g: "cache_good bb st"
  show "cache_good bb (st_SaveMetadataAsync (cache_ops bb) m st)"
    using g by (simp add: cache_ops_def cf_FakeIPSaveMetadataAsync_def cache_good_def)
  then show "st_Load (cache_ops bb) b (st_SaveMetadataAsync (cache_ops bb) m st) = st_Load (cache_ops bb) b st"
    "st_LoadDomain (cache_ops bb) e v6 (st_SaveMetadataAsync (cache_ops bb) m st) = st_LoadDomain (cache_ops bb) e v6 st"
    using g by (simp_all add: cache_ops_def cache_load cache_loadDomain) (simp_all add: cf_FakeIPSaveMetadataAsync_def)
  have s: "cache_good bb (snd (cf_FakeIPSaveMetadata bb m st))" using g by (rule cache_good_save)
  then show "cache_good bb (snd (st_SaveMetadata (cache_ops bb) m st))" by (simp add: cache_ops_def)
  show "st_Load (cache_ops bb) b (snd (st_SaveMetadata (cache_ops bb) m st)) = st_Load (cache_ops bb) b st"
    "st_LoadDomain (cache_ops bb) e v6 (snd (st_SaveMetadata (cache_ops bb) m st)) = st_LoadDomain (cache_ops bb) e v6 st"
    using g s by (cases rule: cf_save_ok [of m st]; simp add: cache_ops_def cache_load cache_loadDomain)+
  have r: "cache_good bb (snd (cf_FakeIPReset bb st))" using g by (rule cache_good_reset)
  then show "cache_good bb (snd (st_Reset (cache_ops bb) st))" by (simp add: cache_ops_def)
  show "st_Load (cache_ops bb) b (snd (st_Reset (cache_ops bb) st)) =
      (if fst (st_Reset (cache_ops bb) st) = None then None else st_Load (cache_ops bb) b st)"
    "st_LoadDomain (cache_ops bb) e v6 (snd (st_Reset (cache_ops bb) st)) =
      (if fst (st_Reset (cache_ops bb) st) = None then None else st_LoadDomain (cache_ops bb) e v6 st)"
    using g r by (cases rule: cf_reset_cases [of st]; simp add: cache_ops_def cache_load cache_loadDomain entry_def)+
  assume a: "IsValid a"
  show "cache_good bb (snd (st_Store (cache_ops bb) a d st))" using cache_good_store [OF g a] by (simp add: cache_ops_def)
  { assume d: "cache_storable d"
    show "st_Load (cache_ops bb) b (snd (st_Store (cache_ops bb) a d st)) = (if b = a then Some d else st_Load (cache_ops bb) b st)"
      using cache_load_store [OF g a d] by (simp add: cache_ops_def)
    show "st_LoadDomain (cache_ops bb) e v6 (snd (st_Store (cache_ops bb) a d st)) =
        (if e = d \<and> v6 = (\<not> Is4 a) then Some a
         else if v6 = (\<not> Is4 a) \<and> st_Load (cache_ops bb) a st = Some e then None else st_LoadDomain (cache_ops bb) e v6 st)"
      using cache_loadDomain_store [OF g a d] by (simp add: cache_ops_def) }
  { assume d: "\<not> cache_storable d"
    show "st_Load (cache_ops bb) b (snd (st_Store (cache_ops bb) a d st)) = st_Load (cache_ops bb) b st"
      "st_LoadDomain (cache_ops bb) e v6 (snd (st_Store (cache_ops bb) a d st)) = st_LoadDomain (cache_ops bb) e v6 st"
      using cf_store_rejects [OF d] by (simp_all add: cache_ops_def) }
qed

subsection \<open>Restarting\<close>

text \<open>The cache file of a new process over an existing database.\<close>

definition New_CacheFile :: "'db \<Rightarrow> 'db CacheFile" where
  "New_CacheFile db = \<lparr>DB = db, saveMetadata = None, saveDomain = Map.empty, saveAddress4 = Map.empty, saveAddress6 = Map.empty\<rparr>"

lemma MarshalBinary_not_Nil: "MarshalBinary m \<noteq> []"
  by (auto simp: MarshalBinary_def marshal_element_def be16_def)

lemma cache_good_New: "cache_good bb (New_CacheFile db) \<longleftrightarrow> (\<forall>a. entry bb bucketFakeIP (AsSlice a) db \<noteq> Some [])"
  by (simp add: cache_good_def New_CacheFile_def)

context bolt
begin

text \<open>Loading metadata changes no address or domain; saved metadata is returned and removed.\<close>

lemma cf_metadata_saved:
  assumes e: "entry bb bucketFakeIP keyMetadata (DB c) = Some (MarshalBinary m)"
    and p: "Prefix_ok (Inet4Range m)" "Prefix_ok (Inet6Range m)"
  obtains db' where "cf_FakeIPMetadata bb c = (Some m, c\<lparr>DB := db'\<rparr>)"
    "\<forall>n k. entry bb n k db' = (if n = bucketFakeIP \<and> k = keyMetadata then None else entry bb n k (DB c))"
proof -
  have b: "tx_Bucket bb bucketFakeIP (DB c)" and g: "b_Get bb bucketFakeIP keyMetadata (DB c) = Some (MarshalBinary m)"
    using e by (auto simp: entry_def split: if_splits)
  obtain db' where d: "b_Delete bb bucketFakeIP keyMetadata (DB c) = (None, db')"
    "\<forall>n k. entry bb n k db' = (if n = bucketFakeIP \<and> k = keyMetadata then None else entry bb n k (DB c))"
    by (rule entry_delete [OF b, of keyMetadata]) auto
  have "metadata_tx bb (DB c) = Some (None, db')"
    using b g d(1) metadata_roundtrip [OF p] MarshalBinary_not_Nil by (simp add: metadata_tx_def)
  then have "cf_FakeIPMetadata bb c = (Some m, c\<lparr>DB := db'\<rparr>)"
    using g metadata_roundtrip [OF p] MarshalBinary_not_Nil by (simp add: cf_FakeIPMetadata_def read_metadata_def)
  then show thesis using d(2) by (rule that)
qed

lemma cf_metadata_missing:
  assumes "entry bb bucketFakeIP keyMetadata (DB c) = None"
  shows "cf_FakeIPMetadata bb c = (None, c)"
proof -
  obtain err where "metadata_tx bb (DB c) = Some (Some err, DB c)"
    using assms by (auto simp: metadata_tx_def entry_def split: if_splits)
  then show ?thesis by (simp add: cf_FakeIPMetadata_def batch_error)
qed

lemmas cache_reachable = cache.reachable_ok

lemma fresh_store_ok:
  fixes mem :: "'db CacheFile"
  assumes "range_ok False r4" "range_ok True r6" and fresh: "\<And>n k. n \<in> {bucketFakeIP, bucketFakeIPDomain4, bucketFakeIPDomain6} \<Longrightarrow> entry bb n k db = None"
  defines "s \<equiv> Start (cache_ops bb) (Some (New_CacheFile db, True)) mem (NewStore r4 r6)"
  shows "store_ok (cache_ops bb) (cache_good bb) s" "fam_range w s = (if w then r6 else r4)"
proof -
  let ?c = "New_CacheFile db"
  have db: "DB ?c = db" by (simp add: New_CacheFile_def)
  have g: "cache_good bb ?c" using fresh by (simp add: cache_good_New)
  have "cf_FakeIPMetadata bb ?c = (None, ?c)" using fresh by (intro cf_metadata_missing) (simp add: db)
  then have st: "s = Start_reset (cache_ops bb) ?c (NewStore r4 r6)" by (simp add: s_def Start_def cache_ops_def)
  have "st_Load (cache_ops bb) a ?c = None" "st_LoadDomain (cache_ops bb) d v6 ?c = None" for a d v6
    using g fresh by (simp_all add: cache_ops_def cache_load cache_loadDomain db) (simp add: domain_bucket_def)
  then show "store_ok (cache_ops bb) (cache_good bb) s"
    unfolding st using cache.store_ok_start [OF assms(1,2) g] by blast
  show "fam_range w s = (if w then r6 else r4)"
    unfolding st by (simp add: fam_defs Start_reset_def NewStore_def)
qed

lemma restart:
  fixes mem :: "'db CacheFile"
  assumes s: "store_ok (cache_ops bb) (cache_good bb) s"
    and p: "Prefix_ok (inet4Range s)" "Prefix_ok (inet6Range s)"
    and C: "Close (cache_ops bb) s = (err, s1)" and c: "storage s1 = Some c"
  defines "t \<equiv> Start (cache_ops bb) (Some (New_CacheFile (DB c), True)) mem (NewStore (inet4Range s) (inet6Range s))"
  shows "err = None" "store_ok (cache_ops bb) (cache_good bb) t" "fam_current w t = fam_current w s"
    "fam_range w t = fam_range w s" "Lookup (cache_ops bb) a t = Lookup (cache_ops bb) a s"
    "\<exists>st st'. storage s = Some st \<and> storage t = Some st' \<and>
       st_LoadDomain (cache_ops bb) d v6 st' = st_LoadDomain (cache_ops bb) d v6 st"
proof -
  let ?m = "current_metadata s"
  obtain st where st: "storage s = Some st" and g: "cache_good bb st" using s by (auto simp: store_ok_def)
  obtain db1 where 1: "cf_FakeIPSaveMetadata bb ?m st = (None, st\<lparr>DB := db1\<rparr>)"
    "\<forall>n k. entry bb n k db1 = (if n = bucketFakeIP \<and> k = keyMetadata then Some (MarshalBinary ?m) else entry bb n k (DB st))"
    using cf_save_ok [of ?m st] by blast
  have e: "err = None" "c = st\<lparr>DB := db1\<rparr>" using C c st 1(1) by (auto simp: Close_def cache_ops_def)
  let ?c = "New_CacheFile db1"
  have m: "entry bb bucketFakeIP keyMetadata (DB ?c) = Some (MarshalBinary ?m)"
    by (simp add: New_CacheFile_def 1)
  have pm: "Prefix_ok (Inet4Range ?m)" "Prefix_ok (Inet6Range ?m)" using p by (simp_all add: current_metadata_def)
  obtain db2 where 2: "cf_FakeIPMetadata bb ?c = (Some ?m, ?c\<lparr>DB := db2\<rparr>)"
    "\<forall>n k. entry bb n k db2 = (if n = bucketFakeIP \<and> k = keyMetadata then None else entry bb n k (DB ?c))"
    using cf_metadata_saved [OF m pm] by blast
  have t: "t = (NewStore (inet4Range s) (inet6Range s))\<lparr>inet4Current := inet4Current s, inet6Current := inet6Current s,
      storage := Some (New_CacheFile db2)\<rparr>"
    using 2(1) e(2) by (simp add: t_def Start_def cache_ops_def current_metadata_def NewStore_def New_CacheFile_def)
  have en: "entry bb bucketFakeIP (AsSlice b) db2 = entry bb bucketFakeIP (AsSlice b) (DB st)"
    "entry bb (domain_bucket w) k db2 = entry bb (domain_bucket w) k (DB st)" for b w k
    using 1(2) 2(2) by (simp_all add: New_CacheFile_def)
  have g2: "cache_good bb (New_CacheFile db2)" using g en(1) by (simp add: cache_good_New) (simp add: cache_good_def)
  have DB2: "DB (New_CacheFile db2) = db2" by (simp add: New_CacheFile_def)
  have ld: "cf_FakeIPLoad bb b (New_CacheFile db2) = cf_FakeIPLoad bb b st"
    "cf_FakeIPLoadDomain bb d v6 (New_CacheFile db2) = cf_FakeIPLoadDomain bb d v6 st" for b d v6
    using g g2 by (simp_all add: cache_load cache_loadDomain DB2 en)
  show "err = None" by (rule e)
  show cur: "fam_current w t = fam_current w s" and ran: "fam_range w t = fam_range w s" for w
    by (simp_all add: t fam_defs NewStore_def)
  have "fam_last w t = (if Prefix_IsValid (fam_range w s) then broadcastAddress (fam_range w s) else AddrInvalid)" for w
    by (simp add: t fam_defs NewStore_def)
  then have "family_ok w t" for w
    using s cur ran by (cases w) (auto simp: store_ok_def family_ok_def)
  moreover have "in_ranges (\<lambda>a. cf_FakeIPLoad bb a st) t" using s st ran by (simp add: store_ok_def in_ranges_def cache_ops_def)
  ultimately show "store_ok (cache_ops bb) (cache_good bb) t"
    using s st g2 by (simp add: store_ok_def t cache_ops_def ld)
  show "Lookup (cache_ops bb) a t = Lookup (cache_ops bb) a s"
    by (simp add: Lookup_def t st cache_ops_def ld)
  show "\<exists>st st'. storage s = Some st \<and> storage t = Some st' \<and>
       st_LoadDomain (cache_ops bb) d v6 st' = st_LoadDomain (cache_ops bb) d v6 st"
    by (simp add: t st cache_ops_def ld)
qed

end

lemma CreateLocked_fst:
  assumes "family_ok v6 s" "storage s = Some st"
  shows "map_option fst (CreateLocked ops d v6 s) = Some (case st_LoadDomain ops d v6 st of Some a \<Rightarrow> Inr a
    | None \<Rightarrow> if Prefix_IsValid (fam_range v6 s)
        then Inr (next_fake (fam_range v6 s) (broadcastAddress (fam_range v6 s)) (fam_current v6 s))
        else Inl (if v6 then ''missing IPv6 fakeip address range'' else ''missing IPv4 fakeip address range''))"
proof -
  have "IsValid (fam_current v6 s) \<longleftrightarrow> Prefix_IsValid (fam_range v6 s)"
    using assms(1) Prefix_IsValid_def [of "fam_range v6 s"]
    by (cases "Prefix_IsValid (fam_range v6 s)") (auto simp: family_ok_def cursor_ok_def BitLen_cases)
  then show ?thesis
    using assms by (cases v6) (auto simp: CreateLocked_def family_ok_def fam_defs Let_def split: option.splits)
qed

definition fakeip_buckets :: "string list" where
  "fakeip_buckets = [bucketFakeIP, bucketFakeIPDomain4, bucketFakeIPDomain6]"

text \<open>The store that a process starts over the database \<open>db\<close> of a cache file.\<close>

abbreviation cache_store :: "'db bbolt \<Rightarrow> 'db CacheFile \<Rightarrow> 'db \<Rightarrow> Prefix \<Rightarrow> Prefix \<Rightarrow> 'db CacheFile Store" where
  "cache_store bb mem db r4 r6 \<equiv> Start (cache_ops bb) (Some (New_CacheFile db, True)) mem (NewStore r4 r6)"

text \<open>C28. Closing a store that keeps its addresses in the cache file and starting a new process over the
  same file loses nothing: every address stands for the domain it stood for, and the next request for
  any domain gets the answer the old process would have given.\<close>

theorem fakeip_restart:
  assumes B: "bolt bb" and r: "range_ok False r4" "range_ok True r6" and p: "Prefix_ok r4" "Prefix_ok r6"
    and fresh: "\<forall>n\<in>set fakeip_buckets. \<forall>k. entry bb n k db = None"
    and reach: "store_reachable (cache_ops bb) (cache_store bb mem db r4 r6) s"
    and C: "Close (cache_ops bb) s = (err, s1)" and c: "storage s1 = Some c"
  shows "err = None \<and>
    (\<forall>a. Lookup (cache_ops bb) a (cache_store bb mem (DB c) r4 r6) = Lookup (cache_ops bb) a s) \<and>
    (\<forall>d v6. map_option fst (Create (cache_ops bb) d v6 (cache_store bb mem (DB c) r4 r6)) =
       map_option fst (Create (cache_ops bb) d v6 s))"
proof -
  have s0: "store_ok (cache_ops bb) (cache_good bb) (cache_store bb mem db r4 r6)"
    "fam_range w (cache_store bb mem db r4 r6) = (if w then r6 else r4)" for w
    using bolt.fresh_store_ok [where db = db and mem = mem, OF B r] fresh by (auto simp: fakeip_buckets_def)
  have s: "store_ok (cache_ops bb) (cache_good bb) s" "\<And>w. fam_range w s = (if w then r6 else r4)"
    using bolt.cache_reachable [OF B reach s0(1)] s0(2) by auto
  have "inet4Range s = r4" "inet6Range s = r6" using s(2) [of False] s(2) [of True] by (simp_all add: fam_range_def)
  then have R: "err = None" "store_ok (cache_ops bb) (cache_good bb) (cache_store bb mem (DB c) r4 r6)"
    "fam_current w (cache_store bb mem (DB c) r4 r6) = fam_current w s"
    "fam_range w (cache_store bb mem (DB c) r4 r6) = fam_range w s"
    "Lookup (cache_ops bb) a (cache_store bb mem (DB c) r4 r6) = Lookup (cache_ops bb) a s"
    "\<exists>st st'. storage s = Some st \<and> storage (cache_store bb mem (DB c) r4 r6) = Some st' \<and>
       st_LoadDomain (cache_ops bb) d v6 st' = st_LoadDomain (cache_ops bb) d v6 st" for w a d v6
    using bolt.restart(1) [OF B s(1) _ _ C c] bolt.restart(2-6) [where mem = mem, OF B s(1) _ _ C c] p by auto
  have "map_option fst (CreateLocked (cache_ops bb) d v6 (cache_store bb mem (DB c) r4 r6)) =
      map_option fst (CreateLocked (cache_ops bb) d v6 s)" for d v6
  proof -
    obtain st st' where st: "storage s = Some st" "storage (cache_store bb mem (DB c) r4 r6) = Some st'"
      "st_LoadDomain (cache_ops bb) d v6 st' = st_LoadDomain (cache_ops bb) d v6 st"
      using R(6) by blast
    have ok: "family_ok v6 s" "family_ok v6 (cache_store bb mem (DB c) r4 r6)"
      using s(1) R(2) by (cases v6; simp add: store_ok_def)+
    show ?thesis
      unfolding CreateLocked_fst [OF ok(1) st(1)] CreateLocked_fst [OF ok(2) st(2)] st(3) R(3,4) ..
  qed
  then show ?thesis using R(1,5) by (simp add: Create_eq)
qed

lemma ex_prefixes_ok: "Prefix_ok ex_range" "Prefix_ok ZeroPrefix"
  using ex_range_facts(1) by (simp_all add: Prefix_ok_def)

theorem fakeip_restart_witness:
  "\<exists>s1 c. Close (cache_ops map_bolt) (cache_store map_bolt (New_CacheFile Map.empty) Map.empty ex_range ZeroPrefix) = (None, s1) \<and>
     storage s1 = Some c \<and>
     (\<forall>a. Lookup (cache_ops map_bolt) a (cache_store map_bolt (New_CacheFile Map.empty) (DB c) ex_range ZeroPrefix) =
        Lookup (cache_ops map_bolt) a (cache_store map_bolt (New_CacheFile Map.empty) Map.empty ex_range ZeroPrefix))"
proof -
  let ?s = "cache_store map_bolt (New_CacheFile Map.empty) Map.empty ex_range ZeroPrefix"
  have fresh: "\<forall>n\<in>set fakeip_buckets. \<forall>k. entry map_bolt n k Map.empty = None"
    by (simp add: entry_def map_bolt_def)
  have "\<exists>st. storage ?s = Some st" by (simp add: Start_def Start_reset_def split: prod.split option.split)
  then have "\<exists>c. storage (snd (Close (cache_ops map_bolt) ?s)) = Some c"
    by (auto simp: Close_def split: prod.split)
  then obtain err s1 c where C: "Close (cache_ops map_bolt) ?s = (err, s1)" "storage s1 = Some c"
    by (metis prod.collapse)
  from fakeip_restart [OF map_db.bolt_axioms ex_range_facts(5,6) ex_prefixes_ok fresh store_reachable.start C] C
  show ?thesis by blast
qed

text \<open>C29. Resetting the fake addresses of the cache file works only when both families have been used:
  with a bucket missing it fails and leaves every address in the file.\<close>

theorem FakeIPReset_all_or_nothing:
  assumes "bolt bb"
  shows "if (\<forall>n\<in>set fakeip_buckets. tx_Bucket bb n (DB c))
    then fst (cf_FakeIPReset bb c) = None \<and> (\<forall>n\<in>set fakeip_buckets. \<not> tx_Bucket bb n (DB (snd (cf_FakeIPReset bb c))))
    else fst (cf_FakeIPReset bb c) \<noteq> None \<and> snd (cf_FakeIPReset bb c) = c"
proof -
  have n: "bucketFakeIPDomain4 = domain_bucket False" "bucketFakeIPDomain6 = domain_bucket True"
    by (simp_all add: domain_bucket_def)
  show ?thesis
  proof (rule bolt.cf_reset_cases [OF assms, of c], goal_cases)
    case (1 db')
    then show ?case by (auto simp: fakeip_buckets_def n)
  next
    case missing: (2 err)
    then have "\<exists>n\<in>set fakeip_buckets. \<not> tx_Bucket bb n (DB c)"
      unfolding fakeip_buckets_def n by (metis (full_types) list.set_intros)
    then show ?case using missing(2) by auto
  qed
qed

theorem FakeIPReset_all_or_nothing_witness:
  "bolt map_bolt \<and> fst (cf_FakeIPReset map_bolt (New_CacheFile [bucketFakeIP \<mapsto> Map.empty])) \<noteq> None"
proof -
  have b: "bolt map_bolt" by (rule map_db.bolt_axioms)
  have "\<not> (\<forall>n\<in>set fakeip_buckets. tx_Bucket map_bolt n (DB (New_CacheFile [bucketFakeIP \<mapsto> Map.empty])))"
    by (simp add: fakeip_buckets_def map_bolt_def New_CacheFile_def bucketFakeIP_def bucketFakeIPDomain4_def)
  then show ?thesis
    using FakeIPReset_all_or_nothing [OF b, of "New_CacheFile [bucketFakeIP \<mapsto> Map.empty]"] b by simp
qed

text \<open>
  So a store that is started with another range over a file of IPv4 addresses only still answers with
  the addresses of the old range.
\<close>

lemma stale_after_range_change:
  assumes B: "bolt bb" and good: "cache_good bb (New_CacheFile db)"
    and m: "entry bb bucketFakeIP keyMetadata db = None" and six: "\<not> tx_Bucket bb bucketFakeIPDomain6 db"
    and d: "cf_FakeIPLoadDomain bb d False (New_CacheFile db) = Some a"
  shows "map_option fst (Create (cache_ops bb) d False (cache_store bb mem db r4 r6)) = Some (Inr a)"
proof -
  have DB: "DB (New_CacheFile db) = db" by (simp add: New_CacheFile_def)
  have "cf_FakeIPReset bb (New_CacheFile db) = (fst (cf_FakeIPReset bb (New_CacheFile db)), New_CacheFile db)"
  proof (rule bolt.cf_reset_cases [OF B, of "New_CacheFile db"], goal_cases)
    case (1 db')
    from 1(2) [of True] show ?case using six by (simp add: DB domain_bucket_def)
  qed simp
  then have "snd (cf_FakeIPReset bb (New_CacheFile db)) = New_CacheFile db" by (metis snd_conv)
  moreover have "cf_FakeIPMetadata bb (New_CacheFile db) = (None, New_CacheFile db)"
    using bolt.cf_metadata_missing [OF B] m DB by metis
  ultimately have "storage (cache_store bb mem db r4 r6) = Some (New_CacheFile db)"
    by (simp add: Start_def Start_reset_def cache_ops_def)
  then show ?thesis using d by (simp add: Create_def cache_ops_def)
qed

end
