(* ===== verification/Spec2Isabelle.thy ===== *)
theory Spec2Isabelle
  imports FairQueue QuicSniff KcpConnection RuleDns CacheFakeIP
begin

text \<open>
  \<^bold>\<open>A verification development for sing-box-extended.\<close>

  sing-box-extended is a proxy platform in Go. Inbounds accept connections; the router matches each
  connection against rules and hands it to an outbound; DNS queries go through rules of their own and
  may be answered with fake addresses, which later connections are mapped back from; transports
  carry the proxied bytes; limiters wrap outbounds. The parts verified here are those with algorithms of their own: the
  mKCP transport, rule matching, the fake-address store with its persistence, and the fair queue of
  the bandwidth limiter with the linked list below it, and the sniffer that reads server names from QUIC packets.

  \<^bold>\<open>Conventions.\<close> A Go function is a HOL function of the same name, or with a prefix naming its type
  when names collide. A struct is a record, an enumeration a datatype. Unsigned integers are words of their
  width and wrap. An operation that may panic returns an option, with \<open>None\<close> for the panic; an
  \<open>error\<close> result is a sum whose left part is the message, or an option. Methods with a pointer receiver
  take the record and return it updated. A section under a mutex is one step. Code outside the
  repository is a parameter: a record of functions, with its documented laws as the assumptions of
  a locale. Theory \<open>Prelude\<close> has the machine types, guarded slice and index operations, big-endian
  codecs and the generic lemmas.

  \<^bold>\<open>mKCP\<close> (\<open>src/transport/v2raykcp\<close>).
  \<^item> \<open>KcpSegment\<close>: \<open>segment.go\<close>, \<open>output.go\<close>. The three segment types, \<open>Serialize\<close>,
    \<open>ReadSegment\<close>, and the buffer-reusing writer. Shown: the parser never panics, accepts
    exactly the encodings, and reads back what the writer emits.
  \<^item> \<open>KcpCrypt\<close>: \<open>crypt.go\<close>, \<open>header.go\<close>. The legacy authenticator with its in-place
    loops and the five camouflage headers. The locale \<open>aead\<close> is the contract of a cipher with
    authentication; it is interpreted on the legacy authenticator, which opens exactly what it seals.
  \<^item> \<open>KcpPacket\<close>: \<open>config.go\<close>, \<open>dialer.go\<close> and the KCP options. Configuration getters, packet
    writer, packet reader. Shown: datagrams round trip for every cipher meeting \<open>aead\<close>; no datagram
    panics the reader; sizes against the MTU; when the in-flight sizes divide by zero.
  \<^item> \<open>KcpSending\<close>, \<open>KcpReceiving\<close>: \<open>sending.go\<close>, \<open>receiving.go\<close>, \<open>multi_buffer.go\<close> and the
    round-trip estimator of \<open>connection.go\<close>. Windows, acknowledgement list, both workers. Shown: what
    a flush sends and acknowledges, the estimator does not overflow, the in-place compaction is a filter.
  \<^item> \<open>KcpStream\<close>: both workers joined by a network that loses, duplicates, delays and reorders; an
    inductive step relation calls the methods of the workers in any order. Shown by rule induction: the bytes read are a prefix of the bytes
    sent, no undelivered buffer is dropped, and an empty window means everything can be read. The
    runs push fewer than \<open>2 ^ 32\<close> segments, since the window compares numbers without wrap-around.
  \<^item> \<open>KcpConnection\<close>: \<open>connection.go\<close>, \<open>updater.go\<close>. The state machine, \<open>Input\<close>, the periodic
    task, closing, and the read and write loops. Shown: an invariant of all reachable states, by which no handler
    panics and all output is parseable by the peer; states only advance; the timers.

  \<^bold>\<open>Rules\<close> (\<open>src/route/rule\<close>, \<open>src/adapter\<close>, part of \<open>src/dns/router.go\<close>).
  \<^item> \<open>NetAddr\<close>, \<open>MacAddress\<close>: \<open>net/netip\<close> as far as the code uses it, and BSSID normalisation
    (\<open>adapter/network.go\<close>) with the parsers of the standard library it calls.
  \<^item> \<open>RuleContext\<close>, \<open>RuleItems\<close>: the metadata a rule reads (\<open>adapter/inbound.go\<close>) and constructor
    and \<open>Match\<close> of every rule item. Regular expressions, domain matchers, IP sets and the network
    manager are fields of an environment record.
  \<^item> \<open>RuleMatch\<close>: \<open>match_state.go\<close>, \<open>rule_abstract.go\<close>, \<open>rule_item_rule_set.go\<close>. Group masks,
    default and logical rules, rule sets, nested to any depth.
  \<^item> \<open>RuleSemantics\<close>: a declarative meaning of rules after the documentation, with no masks
    and no early exits, and the proof that \<open>Match\<close> computes it; how rule sets merge into the referring rule.
  \<^item> \<open>RuleDns\<close>: \<open>rule_dns.go\<close> and the response check of the router. The legacy pre-match is
    sound for separable rules, and exact where the router relies on it; matching changes only the
    deferred groups of the metadata. Termination of the matching functions is by the size of the rule.

  \<^bold>\<open>Fake addresses\<close> (\<open>src/dns/transport/fakeip\<close>, \<open>src/experimental/cachefile\<close>).
  \<^item> \<open>FakeIP\<close>: \<open>store.go\<close>, \<open>memory.go\<close>, \<open>adapter/fakeip_metadata.go\<close>. The locale
    \<open>fakeip_storage\<close> states what the store relies on from a storage; the store's
    properties are proved once in it, and it is interpreted on the in-memory storage. Shown: through any history,
    \<open>Lookup\<close> inverts \<open>Create\<close>, addresses stay inside the usable range, and a mapping survives until
    the range wraps; \<open>broadcastAddress\<close> is the greatest address.
  \<^item> \<open>CacheFakeIP\<close>: \<open>cachefile/fakeip.go\<close>. Buckets and transactions of bbolt are a parameter with
    the locale \<open>bolt\<close> as contract, interpreted on finite maps. A \<open>sublocale\<close> shows that the cache file is
    a \<open>fakeip_storage\<close>, so the store's properties carry over; a restart over the same file keeps all mappings;
    \<open>FakeIPReset\<close> removes everything or nothing.

  \<^bold>\<open>Lists and the fair queue\<close> (\<open>src/common/list\<close>, \<open>src/protocol/limiter/bandwidth/limiter.go\<close>).
  \<^item> \<open>GoList\<close>: \<open>list.go\<close> over an explicit heap of nodes with \<open>next\<close>, \<open>prev\<close> and owner pointers. Every
    operation refines the operation on sequences and never follows a nil pointer; loops along the
    pointers, which may in general run forever and are therefore a \<open>partial_function\<close>, end.
  \<^item> \<open>FairQueue\<close>: \<open>WaitN\<close> as an inductive step relation over any number of goroutines, one step
    per locked section or channel operation, with cancellation at any time. Shown by an invariant of the reachable states:
    one token holder, no panic, each request granted at most once and in order within its flow; no deadlock and a decreasing measure,
    so every schedule ends; flows stay ordered by cost.

  \<^bold>\<open>Sniffing QUIC\<close> (\<open>src/common/ja3\<close>, \<open>src/common/sniff/quic.go\<close>).
  \<^item> \<open>Ja3\<close>: \<open>parser.go\<close>, \<open>ja3.go\<close>. The parser of TLS client hellos, their comparison and the JA3 string. Shown: hellos
    round trip; the parser always ends, and panics exactly where a list inside an extension is trusted beyond the extension; the
    exact JA3 string.
  \<^item> \<open>QuicSniff\<close>: \<open>quic.go\<close>, \<open>internal/qtls\<close>. \<open>QUICClientHello\<close> as a whole, with the ciphers as parameters. Shown: no
    panic before a packet is authenticated, what panics after it, and that a hello is recognised from its pieces in any
    order and over any number of packets. The loop that orders the pieces is a \<open>partial_function\<close>; an empty frame makes it run forever.

  \<^bold>\<open>Bounds.\<close> No function uses fuel. Loops that are not structural have termination proofs by measures;
  clocks and sequence numbers are words or natural numbers given by the environment of a step. Bounds that occur
  as hypotheses are stated in the theorems that need them.

  \<^bold>\<open>Not modelled.\<close> Sockets, TLS and other cryptography, JSON decoding by reflection, generated
  code, platform interfaces, service clients and the proxy protocols themselves: these are third-party libraries or
  system calls joined by little logic of this repository. Of the modelled parts: deadlines and blocking waits of the
  mKCP connection, loading and updating of rule sets, rule actions, the DNS router and its transports apart from
  the response check, the other buckets of the cache file, the other
  sniffers, the hash of the JA3 string, and the other limiters.
\<close>

end
